(* ===== verification/Prelude.thy ===== *)
theory Prelude
  imports Main "HOL-Library.Word" "HOL-Library.Multiset" "HOL-Library.Monad_Syntax"
begin

text \<open>
  What the components share: the lemma collections, the failure values of the C++ code
  (\<open>HARD_ASSERT\<close>, \<open>assert\<close>, \<open>HARD_FAIL\<close>, exceptions), the three-way comparator
  interface of the ordered containers, and generic facts on lists.
\<close>

named_theorems cmp_lemmas \<open>facts on three-way comparators\<close>
named_theorems path_lemmas \<open>facts on chains of next pointers\<close>
named_theorems frame_lemmas \<open>what an operation leaves unchanged\<close>

section \<open>Failures\<close>

text \<open>
  The Firestore client stops the process at a failed \<open>HARD_ASSERT\<close>, at \<open>HARD_FAIL\<close>
  and at \<open>UNREACHABLE\<close>, and throws at an invalid argument. Every such exit is a value
  of the result type.
\<close>

datatype failure = Assert_failed | Hard_fail | Invalid_argument | Null_deref | Signed_overflow | Call_depth

type_synonym 'a result = "failure + 'a"

definition hard_assert :: "bool \<Rightarrow> 'a result \<Rightarrow> 'a result" where
  "hard_assert b k = (if b then k else Inl Assert_failed)"

definition bind_result :: "'a result \<Rightarrow> ('a \<Rightarrow> 'b result) \<Rightarrow> 'b result" where
  "bind_result r f = (case r of Inl e \<Rightarrow> Inl e | Inr x \<Rightarrow> f x)"

lemma hard_assert_simps [simp]:
  "hard_assert True k = k"
  "hard_assert False k = Inl Assert_failed"
  by (simp_all add: hard_assert_def)

lemma hard_assert_Inr [simp]: "hard_assert b k = Inr x \<longleftrightarrow> b \<and> k = Inr x"
  by (simp add: hard_assert_def)

lemma bind_result_simps [simp]:
  "bind_result (Inl e) f = Inl e"
  "bind_result (Inr x) f = f x"
  by (simp_all add: bind_result_def)

lemma bind_result_Inr: "bind_result r f = Inr y \<longleftrightarrow> (\<exists>x. r = Inr x \<and> f x = Inr y)"
  by (cases r) auto

text \<open>A loop whose body may fail.\<close>

fun fold_result :: "('a \<Rightarrow> 's \<Rightarrow> 's result) \<Rightarrow> 'a list \<Rightarrow> 's \<Rightarrow> 's result" where
  "fold_result f [] s = Inr s"
| "fold_result f (x # xs) s = bind_result (f x s) (fold_result f xs)"

lemma fold_result_inv:
  assumes "I s" and "\<And>x s. x \<in> set xs \<Longrightarrow> I s \<Longrightarrow> \<exists>s'. f x s = Inr s' \<and> I s'"
  shows "\<exists>s'. fold_result f xs s = Inr s' \<and> I s'"
  using assms
proof (induction xs arbitrary: s)
  case (Cons x xs)
  from Cons.prems(2) [of x s] Cons.prems(1) obtain s1 where "f x s = Inr s1" "I s1" by auto
  with Cons.IH [of s1] Cons.prems(2) show ?case by auto
qed simp

lemma fold_result_keeps:
  assumes "fold_result f xs s = Inr s'" and "\<And>x s s'. x \<in> set xs \<Longrightarrow> f x s = Inr s' \<Longrightarrow> P s s'"
    and "\<And>s. P s s" and "\<And>s t u. P s t \<Longrightarrow> P t u \<Longrightarrow> P s u"
  shows "P s s'"
  using assms(1,2)
proof (induction xs arbitrary: s)
  case (Cons x xs)
  from Cons.prems(1) obtain s1 where "f x s = Inr s1" "fold_result f xs s1 = Inr s'" by (auto simp: bind_result_Inr)
  with Cons assms(4) show ?case by (metis list.set_intros(1,2))
qed (simp add: assms(3))

section \<open>Three-way comparators\<close>

text \<open>
  \<open>leveldb::Comparator::Compare\<close> and \<open>std::string::compare\<close> return an integer whose
  sign orders the arguments. The ordered containers rely on these laws only.
\<close>

locale comparator =
  fixes cmp :: "'k \<Rightarrow> 'k \<Rightarrow> int"
  assumes cmp_refl: "cmp x x = 0"
    and cmp_swap: "cmp x y < 0 \<longleftrightarrow> 0 < cmp y x"
    and cmp_trans: "cmp x y \<le> 0 \<Longrightarrow> cmp y z \<le> 0 \<Longrightarrow> cmp x z \<le> 0"
begin

lemma cmp_zero_sym: "cmp x y = 0 \<longleftrightarrow> cmp y x = 0"
  using cmp_swap [of x y] cmp_swap [of y x] by auto

lemma cmp_le_swap: "cmp x y \<le> 0 \<longleftrightarrow> 0 \<le> cmp y x"
  using cmp_swap [of x y] cmp_swap [of y x] by auto

lemma cmp_less_le_trans: "cmp x y < 0 \<Longrightarrow> cmp y z \<le> 0 \<Longrightarrow> cmp x z < 0"
  using cmp_trans [of x y z] cmp_trans [of z x y] cmp_trans [of y z x]
    cmp_swap [of x y] cmp_swap [of z y] cmp_swap [of x z] cmp_swap [of z x] cmp_swap [of y x]
  by linarith

lemma cmp_le_less_trans: "cmp x y \<le> 0 \<Longrightarrow> cmp y z < 0 \<Longrightarrow> cmp x z < 0"
  using cmp_trans [of x y z] cmp_trans [of z x y] cmp_trans [of y z x]
    cmp_swap [of x y] cmp_swap [of z y] cmp_swap [of x z] cmp_swap [of z x] cmp_swap [of y z]
    cmp_swap [of y x]
  by linarith

lemma cmp_less_trans: "cmp x y < 0 \<Longrightarrow> cmp y z < 0 \<Longrightarrow> cmp x z < 0"
  by (rule cmp_less_le_trans) auto

lemma cmp_eq_trans:
  assumes "cmp x y = 0" and "cmp y z = 0"
  shows "cmp x z = 0"
proof -
  have "cmp x z \<le> 0" "cmp z x \<le> 0"
    using cmp_trans [of x y z] cmp_trans [of z y x] cmp_zero_sym [of x y] cmp_zero_sym [of y z] assms by simp_all
  with cmp_le_swap [of z x] show ?thesis by simp
qed

lemma cmp_less_irrefl: "\<not> cmp x x < 0"
  by (simp add: cmp_refl)

end

section \<open>Lists\<close>

lemma last_filter_in_or: "last (x # filter P ys) \<in> insert x {y \<in> set ys. P y}"
  by (cases "filter P ys") (auto dest: last_in_set simp flip: set_filter)

lemma set_takeWhile_sub: "set (takeWhile P xs) \<subseteq> set xs"
  by (auto dest: set_takeWhileD)

lemma set_dropWhile_sub: "set (dropWhile P xs) \<subseteq> set xs"
  by (auto dest: set_dropWhileD)

lemma filter_takeWhile_of_sorted:
  assumes "sorted_wrt R xs" and "\<And>x y. R x y \<Longrightarrow> P y \<Longrightarrow> P x"
  shows "filter P xs = takeWhile P xs"
  using assms
proof (induction xs)
  case Nil
  then show ?case by simp
next
  case (Cons x xs)
  show ?case
  proof (cases "P x")
    case True
    with Cons show ?thesis by simp
  next
    case False
    with Cons.prems have "\<forall>y \<in> set xs. \<not> P y" by auto
    with False show ?thesis by (simp add: filter_empty_conv)
  qed
qed

lemma filter_dropWhile_of_sorted:
  assumes "sorted_wrt R xs" and "\<And>x y. R x y \<Longrightarrow> P y \<Longrightarrow> P x"
  shows "filter (\<lambda>x. \<not> P x) xs = dropWhile P xs"
  using assms
proof (induction xs)
  case Nil
  then show ?case by simp
next
  case (Cons x xs)
  show ?case
  proof (cases "P x")
    case True
    with Cons show ?thesis by simp
  next
    case False
    with Cons.prems have "\<forall>y \<in> set xs. \<not> P y" by auto
    with False show ?thesis by (simp add: filter_id_conv)
  qed
qed

lemma length_takeWhile_iff:
  assumes "\<And>i j. i \<le> j \<Longrightarrow> j < length xs \<Longrightarrow> P (xs ! j) \<Longrightarrow> P (xs ! i)" and "i < length xs"
  shows "P (xs ! i) \<longleftrightarrow> i < length (takeWhile P xs)"
proof
  assume "P (xs ! i)"
  show "i < length (takeWhile P xs)"
  proof (rule ccontr)
    assume "\<not> i < length (takeWhile P xs)"
    with assms(2) have le: "length (takeWhile P xs) \<le> i" "length (takeWhile P xs) < length xs" by auto
    with assms(1) [OF le(1) assms(2) \<open>P (xs ! i)\<close>] nth_length_takeWhile [OF le(2)] show False by simp
  qed
next
  assume "i < length (takeWhile P xs)"
  from nth_mem [OF this] takeWhile_nth [OF this] show "P (xs ! i)" by (metis set_takeWhileD)
qed

lemma length_filter_smaller:
  assumes "\<And>x. x \<in> set xs \<Longrightarrow> P x \<Longrightarrow> Q x" and "x \<in> set xs" and "Q x" and "\<not> P x"
  shows "length (filter P xs) < length (filter Q xs)"
proof -
  have "filter P xs = filter P (filter Q xs)" using assms(1) by (auto intro: filter_cong)
  moreover have "length (filter P (filter Q xs)) < length (filter Q xs)"
    by (rule length_filter_less [of x]) (use assms(2-4) in auto)
  ultimately show ?thesis by simp
qed

lemma find_hd_filter: "List.find P xs = (case filter P xs of [] \<Rightarrow> None | x # _ \<Rightarrow> Some x)"
  by (induction xs) simp_all

lemma find_append: "List.find P (xs @ ys) = (case List.find P xs of None \<Rightarrow> List.find P ys | Some x \<Rightarrow> Some x)"
  by (induction xs) simp_all

lemma find_SomeD: "List.find P xs = Some x \<Longrightarrow> x \<in> set xs \<and> P x"
  by (induction xs) (auto split: if_splits)

lemma find_NoneD: "List.find P xs = None \<Longrightarrow> x \<in> set xs \<Longrightarrow> \<not> P x"
  by (induction xs) (auto split: if_splits)

lemma find_NoneI: "(\<And>x. x \<in> set xs \<Longrightarrow> \<not> P x) \<Longrightarrow> List.find P xs = None"
  by (induction xs) auto

lemma find_unique:
  assumes "x \<in> set xs" and "P x" and "\<And>y. y \<in> set xs \<Longrightarrow> P y \<Longrightarrow> y = x"
  shows "List.find P xs = Some x"
proof (cases "List.find P xs")
  case None
  from find_NoneD [OF None assms(1)] assms(2) show ?thesis by simp
next
  case (Some y)
  with find_SomeD [OF Some] assms(3) [of y] show ?thesis by simp
qed

section \<open>Strings\<close>

text \<open>
  \<open>std::string::compare\<close>: bytewise, as unsigned characters, and a proper prefix first.
  It is a three-way comparator.
\<close>

fun string_compare :: "string \<Rightarrow> string \<Rightarrow> int" where
  "string_compare [] [] = 0"
| "string_compare [] (b # bs) = -1"
| "string_compare (a # as) [] = 1"
| "string_compare (a # as) (b # bs) =
     (if of_char a < (of_char b :: nat) then -1
      else if of_char b < (of_char a :: nat) then 1
      else string_compare as bs)"

lemma string_compare_refl [simp]: "string_compare s s = 0"
  by (induction s) auto

lemma string_compare_swap: "string_compare s t < 0 \<longleftrightarrow> 0 < string_compare t s"
  by (induction s t rule: string_compare.induct) auto

lemma string_compare_trans:
  "string_compare s t \<le> 0 \<Longrightarrow> string_compare t u \<le> 0 \<Longrightarrow> string_compare s u \<le> 0"
proof (induction s t arbitrary: u rule: string_compare.induct)
  case (1 u)
  then show ?case by simp
next
  case (2 b bs u)
  then show ?case by (cases u) auto
next
  case (3 a as u)
  then show ?case by simp
next
  case (4 a as b bs u)
  show ?case
  proof (cases u)
    case Nil
    with "4.prems" show ?thesis by simp
  next
    case (Cons c cs)
    with "4.prems" "4.IH" [of cs] show ?thesis by (auto split: if_splits)
  qed
qed

lemma string_compare_zero [simp]: "string_compare s t = 0 \<longleftrightarrow> s = t"
  by (induction s t rule: string_compare.induct) auto

interpretation strcmp: comparator string_compare
  by unfold_locales (simp_all add: string_compare_swap, rule string_compare_trans)

end
