(* ===== verification/Skiplist.thy ===== *)
theory Skiplist
  imports Prelude
begin

text \<open>
  The skip list of leveldb's memtable (\<open>leveldb-library/db/skiplist.h\<close>).

  Nodes live in an arena and are never freed, so a pointer is an index into the list of
  allocated nodes and \<open>None\<close> is \<open>nullptr\<close>. A node carries its key and its array of
  next pointers; a slot that was allocated but not yet written is \<open>None\<close>, a written
  slot is \<open>Some p\<close>. Every operation has an option result: \<open>None\<close> stands for no result,
  that is, for a read or write outside a node's array, a read of a slot that was never
  written, a failed \<open>assert\<close>, or a search that does not end. The lemmas show
  \<open>Some\<close> results on every well-formed list.

  The comparator and the pseudo random generator are parameters. The atomic loads and
  stores are modelled as plain reads and writes: one thread of execution.
\<close>

section \<open>Nodes and lists\<close>

type_synonym ptr = "nat option"

record 'k node =
  node_key :: 'k
  node_next :: "ptr option list"

record ('k, 'r) skiplist =
  arena :: "'k node list"
  sl_head :: nat
  sl_max_height :: nat
  sl_rnd :: 'r

definition kMaxHeight :: nat where
  "kMaxHeight = 12"

definition GetMaxHeight :: "('k, 'r) skiplist \<Rightarrow> nat" where
  "GetMaxHeight sl = sl_max_height sl"

text \<open>\<open>Node::Next\<close> and \<open>Node::NoBarrier_Next\<close>; \<open>Node::SetNext\<close> and \<open>Node::NoBarrier_SetNext\<close>.\<close>

definition Next :: "('k, 'r) skiplist \<Rightarrow> nat \<Rightarrow> nat \<Rightarrow> ptr option" where
  "Next sl x n =
     (if x < length (arena sl) \<and> n < length (node_next (arena sl ! x))
      then node_next (arena sl ! x) ! n else None)"

definition SetNext :: "('k, 'r) skiplist \<Rightarrow> nat \<Rightarrow> nat \<Rightarrow> ptr \<Rightarrow> ('k, 'r) skiplist option" where
  "SetNext sl x n p =
     (if x < length (arena sl) \<and> n < length (node_next (arena sl ! x))
      then Some (sl\<lparr>arena := (arena sl)[x := (arena sl ! x)
             \<lparr>node_next := (node_next (arena sl ! x))[n := Some p]\<rparr>]\<rparr>)
      else None)"

definition node_key_at :: "('k, 'r) skiplist \<Rightarrow> nat \<Rightarrow> 'k option" where
  "node_key_at sl x = (if x < length (arena sl) then Some (node_key (arena sl ! x)) else None)"

text \<open>\<open>NewNode\<close> allocates room for \<open>height\<close> pointers and leaves them unwritten.\<close>

definition NewNode :: "('k, 'r) skiplist \<Rightarrow> 'k \<Rightarrow> nat \<Rightarrow> ('k, 'r) skiplist \<times> nat" where
  "NewNode sl key height =
     (sl\<lparr>arena := arena sl @ [\<lparr>node_key = key, node_next = replicate height None\<rparr>]\<rparr>,
      length (arena sl))"

definition Equal :: "('k \<Rightarrow> 'k \<Rightarrow> int) \<Rightarrow> 'k \<Rightarrow> 'k \<Rightarrow> bool" where
  "Equal cmp a b \<longleftrightarrow> cmp a b = 0"

text \<open>The constructor: a head node of full height, all its pointers set to \<open>nullptr\<close>.\<close>

fun set_null_from :: "nat \<Rightarrow> nat \<Rightarrow> nat \<Rightarrow> ('k, 'r) skiplist \<Rightarrow> ('k, 'r) skiplist option" where
  "set_null_from x i 0 sl = Some sl"
| "set_null_from x i (Suc n) sl =
     do { sl' \<leftarrow> SetNext sl x i None; set_null_from x (Suc i) n sl' }"

definition SkipList :: "'k \<Rightarrow> 'r \<Rightarrow> ('k, 'r) skiplist option" where
  "SkipList any_key seed =
     (let (sl, h) = NewNode \<lparr>arena = [], sl_head = 0, sl_max_height = 1, sl_rnd = seed\<rparr> any_key kMaxHeight
      in set_null_from h 0 kMaxHeight (sl\<lparr>sl_head := h\<rparr>))"

section \<open>Searching\<close>

definition KeyIsAfterNode ::
    "('k \<Rightarrow> 'k \<Rightarrow> int) \<Rightarrow> ('k, 'r) skiplist \<Rightarrow> 'k \<Rightarrow> ptr \<Rightarrow> bool option" where
  "KeyIsAfterNode cmp sl key n =
     (case n of None \<Rightarrow> Some False
      | Some a \<Rightarrow> do { k \<leftarrow> node_key_at sl a; Some (cmp k key < 0) })"

text \<open>The level a search starts at; \<open>max_height - 1\<close> is no level of an empty tower.\<close>

definition top_level :: "('k, 'r) skiplist \<Rightarrow> nat option" where
  "top_level sl = (if GetMaxHeight sl = 0 then None else Some (GetMaxHeight sl - 1))"

text \<open>\<open>prev\<close> is the caller's array of unwritten slots, or \<open>None\<close> when the caller passes \<open>nullptr\<close>.\<close>

type_synonym prevs = "nat option list option"

definition set_prev :: "prevs \<Rightarrow> nat \<Rightarrow> nat \<Rightarrow> prevs option" where
  "set_prev prev level x =
     (case prev of None \<Rightarrow> Some None
      | Some ps \<Rightarrow> if level < length ps then Some (Some (ps[level := Some x])) else None)"

partial_function (option) find_ge_loop ::
    "('k \<Rightarrow> 'k \<Rightarrow> int) \<Rightarrow> ('k, 'r) skiplist \<Rightarrow> 'k \<Rightarrow> nat \<Rightarrow> nat \<Rightarrow> prevs \<Rightarrow> (ptr \<times> prevs) option" where
  "find_ge_loop cmp sl key x level prev =
     do { nxt \<leftarrow> Next sl x level;
          after \<leftarrow> KeyIsAfterNode cmp sl key nxt;
          if after then find_ge_loop cmp sl key (the nxt) level prev
          else do { prev' \<leftarrow> set_prev prev level x;
                    if level = 0 then Some (nxt, prev')
                    else find_ge_loop cmp sl key x (level - 1) prev' } }"

definition FindGreaterOrEqual ::
    "('k \<Rightarrow> 'k \<Rightarrow> int) \<Rightarrow> ('k, 'r) skiplist \<Rightarrow> 'k \<Rightarrow> prevs \<Rightarrow> (ptr \<times> prevs) option" where
  "FindGreaterOrEqual cmp sl key prev =
     do { level \<leftarrow> top_level sl; find_ge_loop cmp sl key (sl_head sl) level prev }"

partial_function (option) find_lt_loop ::
    "('k \<Rightarrow> 'k \<Rightarrow> int) \<Rightarrow> ('k, 'r) skiplist \<Rightarrow> 'k \<Rightarrow> nat \<Rightarrow> nat \<Rightarrow> nat option" where
  "find_lt_loop cmp sl key x level =
     do { kx \<leftarrow> node_key_at sl x;
          if x \<noteq> sl_head sl \<and> \<not> cmp kx key < 0 then None
          else do { nxt \<leftarrow> Next sl x level;
                    stop \<leftarrow> (case nxt of None \<Rightarrow> Some True
                             | Some a \<Rightarrow> do { k \<leftarrow> node_key_at sl a; Some (0 \<le> cmp k key) });
                    if stop then (if level = 0 then Some x
                                  else find_lt_loop cmp sl key x (level - 1))
                    else find_lt_loop cmp sl key (the nxt) level } }"

definition FindLessThan :: "('k \<Rightarrow> 'k \<Rightarrow> int) \<Rightarrow> ('k, 'r) skiplist \<Rightarrow> 'k \<Rightarrow> nat option" where
  "FindLessThan cmp sl key =
     do { level \<leftarrow> top_level sl; find_lt_loop cmp sl key (sl_head sl) level }"

partial_function (option) find_last_loop :: "('k, 'r) skiplist \<Rightarrow> nat \<Rightarrow> nat \<Rightarrow> nat option" where
  "find_last_loop sl x level =
     do { nxt \<leftarrow> Next sl x level;
          case nxt of
            None \<Rightarrow> (if level = 0 then Some x else find_last_loop sl x (level - 1))
          | Some a \<Rightarrow> find_last_loop sl a level }"

definition FindLast :: "('k, 'r) skiplist \<Rightarrow> nat option" where
  "FindLast sl = do { level \<leftarrow> top_level sl; find_last_loop sl (sl_head sl) level }"

section \<open>Insert and Contains\<close>

text \<open>\<open>rnd_.Next()\<close> is the parameter \<open>next_rnd\<close>: a 32 bit value and the next generator state.\<close>

function random_height_loop :: "('r \<Rightarrow> 32 word \<times> 'r) \<Rightarrow> nat \<Rightarrow> 'r \<Rightarrow> nat \<times> 'r" where
  "random_height_loop next_rnd height r =
     (if height < kMaxHeight then
        (let (v, r') = next_rnd r
         in if unat v mod 4 = 0 then random_height_loop next_rnd (Suc height) r' else (height, r'))
      else (height, r))"
  by pat_completeness auto
termination
  by (relation "measure (\<lambda>(f, h, r). kMaxHeight - h)") auto

declare random_height_loop.simps [simp del]

definition RandomHeight :: "('r \<Rightarrow> 32 word \<times> 'r) \<Rightarrow> 'r \<Rightarrow> nat \<times> 'r" where
  "RandomHeight next_rnd r = random_height_loop next_rnd 1 r"

text \<open>The loop that makes \<open>sl_head\<close> the predecessor at the levels the list did not have.\<close>

fun fill_prev :: "nat \<Rightarrow> nat \<Rightarrow> nat \<Rightarrow> nat option list \<Rightarrow> nat option list option" where
  "fill_prev h i 0 ps = Some ps"
| "fill_prev h i (Suc n) ps =
     (if i < length ps then fill_prev h (Suc i) n (ps[i := Some h]) else None)"

text \<open>The loop that links the new node into levels \<open>i, i + 1, \<dots>\<close> (\<open>n\<close> of them).\<close>

fun link_levels ::
    "nat \<Rightarrow> nat option list \<Rightarrow> nat \<Rightarrow> nat \<Rightarrow> ('k, 'r) skiplist \<Rightarrow> ('k, 'r) skiplist option" where
  "link_levels x ps i 0 sl = Some sl"
| "link_levels x ps i (Suc n) sl =
     (if i < length ps then
        do { p \<leftarrow> ps ! i;
             nxt \<leftarrow> Next sl p i;
             sl1 \<leftarrow> SetNext sl x i nxt;
             sl2 \<leftarrow> SetNext sl1 p i (Some x);
             link_levels x ps (Suc i) n sl2 }
      else None)"

definition Insert ::
    "('k \<Rightarrow> 'k \<Rightarrow> int) \<Rightarrow> ('r \<Rightarrow> 32 word \<times> 'r) \<Rightarrow> 'k \<Rightarrow> ('k, 'r) skiplist \<Rightarrow> ('k, 'r) skiplist option" where
  "Insert cmp next_rnd key sl =
     do { (x, prev) \<leftarrow> FindGreaterOrEqual cmp sl key (Some (replicate kMaxHeight None));
          ps \<leftarrow> prev;
          ok \<leftarrow> (case x of None \<Rightarrow> Some True
                | Some a \<Rightarrow> do { k \<leftarrow> node_key_at sl a; Some (\<not> Equal cmp key k) });
          if \<not> ok then None
          else let (height, r) = RandomHeight next_rnd (sl_rnd sl);
                   sl1 = sl\<lparr>sl_rnd := r\<rparr>
               in do { (ps', sl2) \<leftarrow>
                         (if GetMaxHeight sl1 < height
                          then do { ps' \<leftarrow> fill_prev (sl_head sl1) (GetMaxHeight sl1)
                                             (height - GetMaxHeight sl1) ps;
                                    Some (ps', sl1\<lparr>sl_max_height := height\<rparr>) }
                          else Some (ps, sl1));
                       let (sl3, n) = NewNode sl2 key height
                       in link_levels n ps' 0 height sl3 } }"

definition Contains :: "('k \<Rightarrow> 'k \<Rightarrow> int) \<Rightarrow> ('k, 'r) skiplist \<Rightarrow> 'k \<Rightarrow> bool option" where
  "Contains cmp sl key =
     do { (x, prev) \<leftarrow> FindGreaterOrEqual cmp sl key None;
          case x of None \<Rightarrow> Some False
          | Some a \<Rightarrow> do { k \<leftarrow> node_key_at sl a; Some (Equal cmp key k) } }"

section \<open>Iterators\<close>

record ('k, 'r) sl_iter =
  it_list :: "('k, 'r) skiplist"
  it_node :: ptr

definition Iterator :: "('k, 'r) skiplist \<Rightarrow> ('k, 'r) sl_iter" where
  "Iterator sl = \<lparr>it_list = sl, it_node = None\<rparr>"

definition Iterator_Valid :: "('k, 'r) sl_iter \<Rightarrow> bool" where
  "Iterator_Valid it \<longleftrightarrow> it_node it \<noteq> None"

definition Iterator_key :: "('k, 'r) sl_iter \<Rightarrow> 'k option" where
  "Iterator_key it = do { a \<leftarrow> it_node it; node_key_at (it_list it) a }"

definition Iterator_Next :: "('k, 'r) sl_iter \<Rightarrow> ('k, 'r) sl_iter option" where
  "Iterator_Next it =
     do { a \<leftarrow> it_node it; nxt \<leftarrow> Next (it_list it) a 0; Some (it\<lparr>it_node := nxt\<rparr>) }"

definition Iterator_Prev :: "('k \<Rightarrow> 'k \<Rightarrow> int) \<Rightarrow> ('k, 'r) sl_iter \<Rightarrow> ('k, 'r) sl_iter option" where
  "Iterator_Prev cmp it =
     do { a \<leftarrow> it_node it;
          k \<leftarrow> node_key_at (it_list it) a;
          p \<leftarrow> FindLessThan cmp (it_list it) k;
          Some (it\<lparr>it_node := (if p = sl_head (it_list it) then None else Some p)\<rparr>) }"

definition Iterator_Seek :: "('k \<Rightarrow> 'k \<Rightarrow> int) \<Rightarrow> 'k \<Rightarrow> ('k, 'r) sl_iter \<Rightarrow> ('k, 'r) sl_iter option" where
  "Iterator_Seek cmp target it =
     do { (x, prev) \<leftarrow> FindGreaterOrEqual cmp (it_list it) target None; Some (it\<lparr>it_node := x\<rparr>) }"

definition Iterator_SeekToFirst :: "('k, 'r) sl_iter \<Rightarrow> ('k, 'r) sl_iter option" where
  "Iterator_SeekToFirst it =
     do { nxt \<leftarrow> Next (it_list it) (sl_head (it_list it)) 0; Some (it\<lparr>it_node := nxt\<rparr>) }"

definition Iterator_SeekToLast :: "('k, 'r) sl_iter \<Rightarrow> ('k, 'r) sl_iter option" where
  "Iterator_SeekToLast it =
     do { p \<leftarrow> FindLast (it_list it);
          Some (it\<lparr>it_node := (if p = sl_head (it_list it) then None else Some p)\<rparr>) }"

section \<open>Well-formed lists\<close>

text \<open>
  \<open>chain sl l x ys\<close>: following the level \<open>l\<close> pointers from \<open>x\<close> visits \<open>ys\<close> and ends at
  \<open>nullptr\<close>. A list is well formed, with nodes \<open>as\<close> in key order, when the keys ascend
  strictly and the chain of every level is the part of \<open>as\<close> tall enough for it.
\<close>

definition height_of :: "('k, 'r) skiplist \<Rightarrow> nat \<Rightarrow> nat" where
  "height_of sl a = length (node_next (arena sl ! a))"

definition key_of :: "('k, 'r) skiplist \<Rightarrow> nat \<Rightarrow> 'k" where
  "key_of sl a = node_key (arena sl ! a)"

fun chain :: "('k, 'r) skiplist \<Rightarrow> nat \<Rightarrow> nat \<Rightarrow> nat list \<Rightarrow> bool" where
  "chain sl l x [] \<longleftrightarrow> Next sl x l = Some None"
| "chain sl l x (y # ys) \<longleftrightarrow> Next sl x l = Some (Some y) \<and> chain sl l y ys"

definition level_nodes :: "('k, 'r) skiplist \<Rightarrow> nat list \<Rightarrow> nat \<Rightarrow> nat list" where
  "level_nodes sl as l = filter (\<lambda>a. l < height_of sl a) as"

definition sl_wf :: "('k \<Rightarrow> 'k \<Rightarrow> int) \<Rightarrow> ('k, 'r) skiplist \<Rightarrow> nat list \<Rightarrow> bool" where
  "sl_wf cmp sl as \<longleftrightarrow>
     sl_head sl = 0 \<and> arena sl \<noteq> [] \<and> height_of sl 0 = kMaxHeight \<and>
     1 \<le> sl_max_height sl \<and> sl_max_height sl \<le> kMaxHeight \<and>
     distinct as \<and> set as = {1..<length (arena sl)} \<and>
     (\<forall>a \<in> set as. 1 \<le> height_of sl a \<and> height_of sl a \<le> sl_max_height sl) \<and>
     sorted_wrt (\<lambda>a b. cmp (key_of sl a) (key_of sl b) < 0) as \<and>
     (\<forall>l < kMaxHeight. chain sl l 0 (level_nodes sl as l))"

text \<open>The abstract value of a list: its keys in order.\<close>

definition sl_rep :: "('k \<Rightarrow> 'k \<Rightarrow> int) \<Rightarrow> ('k, 'r) skiplist \<Rightarrow> 'k list \<Rightarrow> bool" where
  "sl_rep cmp sl ks \<longleftrightarrow> (\<exists>as. sl_wf cmp sl as \<and> ks = map (key_of sl) as)"

abbreviation before :: "('k \<Rightarrow> 'k \<Rightarrow> int) \<Rightarrow> ('k, 'r) skiplist \<Rightarrow> 'k \<Rightarrow> nat \<Rightarrow> bool" where
  "before cmp sl key a \<equiv> cmp (key_of sl a) key < 0"

text \<open>The last node of level \<open>l\<close> before \<open>key\<close> (the head if there is none).\<close>

definition pred_at :: "('k \<Rightarrow> 'k \<Rightarrow> int) \<Rightarrow> ('k, 'r) skiplist \<Rightarrow> nat list \<Rightarrow> 'k \<Rightarrow> nat \<Rightarrow> nat" where
  "pred_at cmp sl as key l = last (0 # takeWhile (before cmp sl key) (level_nodes sl as l))"

definition first_opt :: "'a list \<Rightarrow> 'a option" where
  "first_opt xs = (case xs of [] \<Rightarrow> None | x # _ \<Rightarrow> Some x)"

lemma first_opt_simps [simp]: "first_opt [] = None" "first_opt (x # xs) = Some x"
  by (simp_all add: first_opt_def)

lemma chain_suffix [path_lemmas]: "chain sl l x (us @ y # vs) \<Longrightarrow> chain sl l y vs"
  by (induction us arbitrary: x) auto

lemma KeyIsAfterNode_simps [simp]:
  "KeyIsAfterNode cmp sl key None = Some False"
  "a < length (arena sl) \<Longrightarrow> KeyIsAfterNode cmp sl key (Some a) = Some (before cmp sl key a)"
  by (simp_all add: KeyIsAfterNode_def node_key_at_def key_of_def)

text \<open>What a search does within one level.\<close>

lemma find_ge_level:
  assumes "chain sl l x zs" and "\<forall>a \<in> set zs. a < length (arena sl)"
  shows "find_ge_loop cmp sl key x l prev =
    do { prev' \<leftarrow> set_prev prev l (last (x # takeWhile (before cmp sl key) zs));
         if l = 0 then Some (first_opt (dropWhile (before cmp sl key) zs), prev')
         else find_ge_loop cmp sl key (last (x # takeWhile (before cmp sl key) zs)) (l - 1) prev' }"
  using assms
proof (induction zs arbitrary: x)
  case Nil
  then show ?case by (subst find_ge_loop.simps) (simp cong: if_cong)
next
  case (Cons z zs)
  show ?case
  proof (cases "before cmp sl key z")
    case True
    with Cons.prems have "find_ge_loop cmp sl key x l prev = find_ge_loop cmp sl key z l prev"
      by (subst find_ge_loop.simps) simp
    with Cons True show ?thesis by (simp cong: if_cong)
  next
    case False
    with Cons.prems show ?thesis by (subst find_ge_loop.simps) (simp cong: if_cong)
  qed
qed

lemma sl_wf_nodes:
  assumes "sl_wf cmp sl as"
  shows "a \<in> set as \<Longrightarrow> a < length (arena sl)" and "0 < length (arena sl)"
    and "a \<in> set as \<Longrightarrow> a \<noteq> 0" and "sl_head sl = 0"
    and "a \<in> set (level_nodes sl as l) \<Longrightarrow> a \<in> set as"
  using assms by (auto simp: sl_wf_def level_nodes_def)

lemma sl_wfD:
  assumes "sl_wf cmp sl as"
  shows "distinct as" and "set as = {1..<length (arena sl)}"
    and "a \<in> set as \<Longrightarrow> 1 \<le> height_of sl a" and "a \<in> set as \<Longrightarrow> height_of sl a \<le> sl_max_height sl"
    and "sorted_wrt (\<lambda>a b. cmp (key_of sl a) (key_of sl b) < 0) as"
    and "1 \<le> sl_max_height sl" and "sl_max_height sl \<le> kMaxHeight" and "height_of sl 0 = kMaxHeight"
  using assms by (simp_all add: sl_wf_def)

lemma level_nodes_0: "sl_wf cmp sl as \<Longrightarrow> level_nodes sl as 0 = as"
  by (auto simp: sl_wf_def level_nodes_def intro!: filter_True)

lemma level_nodes_mono: "l' \<le> l \<Longrightarrow> a \<in> set (level_nodes sl as l) \<Longrightarrow> a \<in> set (level_nodes sl as l')"
  by (auto simp: level_nodes_def)

lemma level_nodes_sorted:
  "sl_wf cmp sl as \<Longrightarrow> sorted_wrt (\<lambda>a b. cmp (key_of sl a) (key_of sl b) < 0) (level_nodes sl as l)"
  by (auto simp: sl_wf_def level_nodes_def intro: sorted_wrt_filter)

lemma level_chain: "sl_wf cmp sl as \<Longrightarrow> l < kMaxHeight \<Longrightarrow> chain sl l 0 (level_nodes sl as l)"
  by (simp add: sl_wf_def)

lemma find_lt_level:
  assumes "chain sl l x zs" and "\<forall>a \<in> set zs. a < length (arena sl) \<and> a \<noteq> sl_head sl"
    and "x < length (arena sl)" and "x = sl_head sl \<or> before cmp sl key x"
  shows "find_lt_loop cmp sl key x l =
    (if l = 0 then Some (last (x # takeWhile (before cmp sl key) zs))
     else find_lt_loop cmp sl key (last (x # takeWhile (before cmp sl key) zs)) (l - 1))"
  using assms
proof (induction zs arbitrary: x)
  case Nil
  then show ?case
    by (subst find_lt_loop.simps) (auto simp: node_key_at_def key_of_def)
next
  case (Cons z zs)
  show ?case
  proof (cases "before cmp sl key z")
    case True
    with Cons.prems have "find_lt_loop cmp sl key x l = find_lt_loop cmp sl key z l"
      by (subst find_lt_loop.simps) (auto simp: node_key_at_def key_of_def)
    with Cons True show ?thesis by simp
  next
    case False
    with Cons.prems show ?thesis
      by (subst find_lt_loop.simps) (auto simp: node_key_at_def key_of_def)
  qed
qed

lemma find_last_level:
  "chain sl l x zs \<Longrightarrow> find_last_loop sl x l =
    (if l = 0 then Some (last (x # zs)) else find_last_loop sl (last (x # zs)) (l - 1))"
proof (induction zs arbitrary: x)
  case Nil
  then show ?case by (subst find_last_loop.simps) simp
next
  case (Cons z zs)
  then have "find_last_loop sl x l = find_last_loop sl z l"
    by (subst find_last_loop.simps) simp
  with Cons show ?case by simp
qed

lemma find_last_loop_wf:
  assumes wf: "sl_wf cmp sl as"
  shows "l < kMaxHeight \<Longrightarrow> x = 0 \<or> x \<in> set (level_nodes sl as l) \<Longrightarrow>
    find_last_loop sl x l = Some (last (0 # as))"
proof (induction l arbitrary: x rule: less_induct)
  case (less l)
  let ?M = "level_nodes sl as l"
  obtain zs where zs: "chain sl l x zs" and last: "last (x # zs) = last (0 # ?M)"
  proof (cases "x = 0")
    case True
    with level_chain [OF wf less.prems(1)] show ?thesis by (intro that [of ?M]) simp_all
  next
    case False
    with less.prems(2) have "x \<in> set ?M" by simp
    from split_list [OF this] obtain us vs where M: "?M = us @ x # vs" by blast
    with level_chain [OF wf less.prems(1)] have "chain sl l x vs" by (auto intro: path_lemmas)
    with M show ?thesis by (intro that [of vs]) simp_all
  qed
  note step = find_last_level [OF zs, unfolded last]
  show ?case
  proof (cases l)
    case 0
    with step show ?thesis by (simp add: level_nodes_0 [OF wf])
  next
    case (Suc l')
    have "last (0 # ?M) = 0 \<or> last (0 # ?M) \<in> set (level_nodes sl as l')"
      using level_nodes_mono [of l' l _ sl as] Suc last_in_set [of ?M] by (cases ?M) auto
    with less.IH [of l' "last (0 # ?M)"] less.prems Suc step show ?thesis by simp
  qed
qed

context comparator
begin

lemma takeWhile_before_split:
  assumes "sorted_wrt (\<lambda>a b. cmp (key_of sl a) (key_of sl b) < 0) (us @ x # vs)"
    and "before cmp sl key x"
  shows "takeWhile (before cmp sl key) (us @ x # vs) = us @ x # takeWhile (before cmp sl key) vs"
    and "dropWhile (before cmp sl key) (us @ x # vs) = dropWhile (before cmp sl key) vs"
proof -
  from assms have "\<forall>u \<in> set us. before cmp sl key u"
    by (auto simp: sorted_wrt_append intro: cmp_less_trans)
  with assms(2) show "takeWhile (before cmp sl key) (us @ x # vs) = us @ x # takeWhile (before cmp sl key) vs"
    and "dropWhile (before cmp sl key) (us @ x # vs) = dropWhile (before cmp sl key) vs"
    by (auto simp: takeWhile_append dropWhile_append)
qed

text \<open>
  A search enters level \<open>l\<close> at the head or at a node before the key: what is left of the
  level from there has the same last node before the key, and the same rest.
\<close>

lemma enter_level:
  assumes wf: "sl_wf cmp sl as" and l: "l < kMaxHeight"
    and x: "x = 0 \<or> x \<in> set (level_nodes sl as l) \<and> before cmp sl key x"
  obtains zs where "chain sl l x zs" and "\<forall>a \<in> set zs. a < length (arena sl) \<and> a \<noteq> 0"
    and "last (x # takeWhile (before cmp sl key) zs) = pred_at cmp sl as key l"
    and "dropWhile (before cmp sl key) zs = dropWhile (before cmp sl key) (level_nodes sl as l)"
proof -
  let ?M = "level_nodes sl as l" and ?B = "before cmp sl key"
  have bound: "\<forall>a \<in> set ?M. a < length (arena sl) \<and> a \<noteq> 0"
    using sl_wf_nodes [OF wf] by blast
  have ch: "chain sl l 0 ?M" by (rule level_chain [OF wf l])
  show ?thesis
  proof (cases "x = 0")
    case True
    with ch bound show ?thesis by (intro that [of ?M]) (auto simp: pred_at_def)
  next
    case False
    with x have b: "?B x" and "x \<in> set ?M" by auto
    from split_list [OF this(2)] obtain us vs where M: "?M = us @ x # vs" by blast
    have "sorted_wrt (\<lambda>a b. cmp (key_of sl a) (key_of sl b) < 0) (us @ x # vs)"
      using level_nodes_sorted [OF wf, of l] M by simp
    note sp = takeWhile_before_split [OF this b]
    from ch M have "chain sl l x vs" by (auto intro: path_lemmas)
    then show ?thesis using sp bound by (intro that [of vs]) (auto simp: pred_at_def M)
  qed
qed

lemma find_ge_enter:
  assumes wf: "sl_wf cmp sl as" and "l < kMaxHeight"
    and "x = 0 \<or> x \<in> set (level_nodes sl as l) \<and> before cmp sl key x"
  shows "find_ge_loop cmp sl key x l prev =
    do { prev' \<leftarrow> set_prev prev l (pred_at cmp sl as key l);
         if l = 0 then Some (first_opt (dropWhile (before cmp sl key) as), prev')
         else find_ge_loop cmp sl key (pred_at cmp sl as key l) (l - 1) prev' }"
proof -
  from enter_level [OF assms] obtain zs where zs: "chain sl l x zs" "\<forall>a \<in> set zs. a < length (arena sl) \<and> a \<noteq> 0"
    "last (x # takeWhile (before cmp sl key) zs) = pred_at cmp sl as key l"
    "dropWhile (before cmp sl key) zs = dropWhile (before cmp sl key) (level_nodes sl as l)" .
  from zs(2) have "\<forall>a \<in> set zs. a < length (arena sl)" by blast
  from find_ge_level [OF zs(1) this, of cmp key prev] show ?thesis
    unfolding zs(3,4) by (cases "l = 0") (simp_all add: level_nodes_0 [OF wf])
qed

lemma pred_at_next_level:
  assumes "sl_wf cmp sl as"
  shows "pred_at cmp sl as key (Suc l) = 0 \<or>
    pred_at cmp sl as key (Suc l) \<in> set (level_nodes sl as l) \<and> before cmp sl key (pred_at cmp sl as key (Suc l))"
proof (cases "takeWhile (before cmp sl key) (level_nodes sl as (Suc l))")
  case Nil
  then show ?thesis by (simp add: pred_at_def)
next
  case (Cons y ys)
  then have "pred_at cmp sl as key (Suc l) \<in> set (takeWhile (before cmp sl key) (level_nodes sl as (Suc l)))"
    using last_in_set [of "y # ys"] by (simp add: pred_at_def)
  then show ?thesis using level_nodes_mono [of l "Suc l"] by (auto dest: set_takeWhileD)
qed

text \<open>The search without a \<open>prev\<close> array, and with one.\<close>

lemma find_ge_loop_none:
  assumes wf: "sl_wf cmp sl as"
  shows "l < kMaxHeight \<Longrightarrow> x = 0 \<or> x \<in> set (level_nodes sl as l) \<and> before cmp sl key x \<Longrightarrow>
    find_ge_loop cmp sl key x l None = Some (first_opt (dropWhile (before cmp sl key) as), None)"
proof (induction l arbitrary: x)
  case 0
  then show ?case by (subst find_ge_enter [OF wf]) (auto simp: set_prev_def)
next
  case (Suc l)
  have "find_ge_loop cmp sl key x (Suc l) None = find_ge_loop cmp sl key (pred_at cmp sl as key (Suc l)) l None"
    by (subst find_ge_enter [OF wf Suc.prems]) (simp add: set_prev_def)
  with Suc.IH [OF _ pred_at_next_level [OF wf]] Suc.prems show ?case by simp
qed

lemma find_ge_loop_prev:
  assumes wf: "sl_wf cmp sl as"
  shows "l < kMaxHeight \<Longrightarrow> x = 0 \<or> x \<in> set (level_nodes sl as l) \<and> before cmp sl key x \<Longrightarrow>
    length ps = kMaxHeight \<Longrightarrow>
    \<exists>ps'. find_ge_loop cmp sl key x l (Some ps) = Some (first_opt (dropWhile (before cmp sl key) as), Some ps')
      \<and> length ps' = kMaxHeight \<and> (\<forall>i \<le> l. ps' ! i = Some (pred_at cmp sl as key i))
      \<and> (\<forall>i. l < i \<longrightarrow> i < kMaxHeight \<longrightarrow> ps' ! i = ps ! i)"
proof (induction l arbitrary: x ps)
  case 0
  then show ?case
    by (subst find_ge_enter [OF wf]) (auto simp: set_prev_def)
next
  case (Suc l)
  let ?ps = "ps[Suc l := Some (pred_at cmp sl as key (Suc l))]"
  have "find_ge_loop cmp sl key x (Suc l) (Some ps)
      = find_ge_loop cmp sl key (pred_at cmp sl as key (Suc l)) l (Some ?ps)"
    using Suc.prems by (subst find_ge_enter [OF wf Suc.prems(1,2)]) (simp add: set_prev_def)
  moreover from Suc.IH [OF _ pred_at_next_level [OF wf], of ?ps] Suc.prems
  obtain ps' where "find_ge_loop cmp sl key (pred_at cmp sl as key (Suc l)) l (Some ?ps)
       = Some (first_opt (dropWhile (before cmp sl key) as), Some ps')"
    and "length ps' = kMaxHeight" "\<forall>i \<le> l. ps' ! i = Some (pred_at cmp sl as key i)"
    and rest: "\<forall>i. l < i \<longrightarrow> i < kMaxHeight \<longrightarrow> ps' ! i = ?ps ! i" by auto
  moreover have "ps' ! Suc l = Some (pred_at cmp sl as key (Suc l))"
    using rest Suc.prems by simp
  ultimately show ?case using Suc.prems by (auto simp: le_Suc_eq nth_list_update)
qed

lemma find_lt_loop_wf:
  assumes wf: "sl_wf cmp sl as"
  shows "l < kMaxHeight \<Longrightarrow> x = 0 \<or> x \<in> set (level_nodes sl as l) \<and> before cmp sl key x \<Longrightarrow>
    find_lt_loop cmp sl key x l = Some (pred_at cmp sl as key 0)"
proof (induction l arbitrary: x rule: less_induct)
  case (less l)
  from enter_level [OF wf less.prems] obtain zs where zs: "chain sl l x zs"
    "\<forall>a \<in> set zs. a < length (arena sl) \<and> a \<noteq> 0"
    "last (x # takeWhile (before cmp sl key) zs) = pred_at cmp sl as key l"
    "dropWhile (before cmp sl key) zs = dropWhile (before cmp sl key) (level_nodes sl as l)" .
  have zb: "\<forall>a \<in> set zs. a < length (arena sl) \<and> a \<noteq> sl_head sl"
    using zs(2) sl_wf_nodes(4) [OF wf] by simp
  have "x < length (arena sl)" "x = sl_head sl \<or> before cmp sl key x"
    using less.prems(2) sl_wf_nodes [OF wf] by auto
  note step = find_lt_level [where cmp = cmp and key = key, OF zs(1) zb this, unfolded zs(3)]
  show ?case
  proof (cases l)
    case 0
    with step show ?thesis by simp
  next
    case (Suc l')
    with less.IH [OF _ _ pred_at_next_level [OF wf]] less.prems step show ?thesis by simp
  qed
qed

text \<open>The four searches on a well-formed list.\<close>

lemma FindGreaterOrEqual_none:
  assumes "sl_wf cmp sl as"
  shows "FindGreaterOrEqual cmp sl key None = Some (first_opt (dropWhile (before cmp sl key) as), None)"
proof -
  have "top_level sl = Some (sl_max_height sl - 1)" "sl_max_height sl - 1 < kMaxHeight"
    using assms by (auto simp: top_level_def GetMaxHeight_def sl_wf_def)
  then show ?thesis
    by (simp add: FindGreaterOrEqual_def find_ge_loop_none [OF assms] sl_wf_nodes(4) [OF assms])
qed

lemma FindGreaterOrEqual_prev:
  assumes wf: "sl_wf cmp sl as" and "length ps = kMaxHeight"
  obtains ps' where "FindGreaterOrEqual cmp sl key (Some ps)
      = Some (first_opt (dropWhile (before cmp sl key) as), Some ps')"
    and "length ps' = kMaxHeight" and "\<forall>i < sl_max_height sl. ps' ! i = Some (pred_at cmp sl as key i)"
proof -
  have top: "top_level sl = Some (sl_max_height sl - 1)" and lt: "sl_max_height sl - 1 < kMaxHeight"
    and pos: "0 < sl_max_height sl"
    using wf by (auto simp: top_level_def GetMaxHeight_def sl_wf_def)
  from find_ge_loop_prev [OF wf lt _ assms(2), of 0 key]
  obtain ps' where 1: "find_ge_loop cmp sl key 0 (sl_max_height sl - 1) (Some ps)
      = Some (first_opt (dropWhile (before cmp sl key) as), Some ps')"
    "length ps' = kMaxHeight" "\<forall>i \<le> sl_max_height sl - 1. ps' ! i = Some (pred_at cmp sl as key i)"
    by auto
  show ?thesis
  proof (rule that)
    show "FindGreaterOrEqual cmp sl key (Some ps)
      = Some (first_opt (dropWhile (before cmp sl key) as), Some ps')"
      using 1(1) by (simp add: FindGreaterOrEqual_def top sl_wf_nodes(4) [OF wf])
    show "\<forall>i < sl_max_height sl. ps' ! i = Some (pred_at cmp sl as key i)" using 1(3) pos by auto
  qed (rule 1(2))
qed

lemma FindLessThan_wf:
  assumes "sl_wf cmp sl as"
  shows "FindLessThan cmp sl key = Some (last (0 # takeWhile (before cmp sl key) as))"
proof -
  have "top_level sl = Some (sl_max_height sl - 1)" "sl_max_height sl - 1 < kMaxHeight"
    using assms by (auto simp: top_level_def GetMaxHeight_def sl_wf_def)
  then show ?thesis
    by (simp add: FindLessThan_def find_lt_loop_wf [OF assms] sl_wf_nodes(4) [OF assms]
        pred_at_def level_nodes_0 [OF assms])
qed

end

lemma FindLast_wf:
  assumes "sl_wf cmp sl as"
  shows "FindLast sl = Some (last (0 # as))"
proof -
  have "top_level sl = Some (sl_max_height sl - 1)" "sl_max_height sl - 1 < kMaxHeight"
    using assms by (auto simp: top_level_def GetMaxHeight_def sl_wf_def)
  then show ?thesis
    by (simp add: FindLast_def find_last_loop_wf [OF assms] sl_wf_nodes(4) [OF assms])
qed

end
