(* ===== verification/Iterators.thy ===== *)
theory Iterators
  imports Prelude
begin

text \<open>
  The iterator interface that leveldb's components hand to each other
  (\<open>leveldb::Iterator\<close>: \<open>Valid\<close>, \<open>key\<close>, \<open>value\<close>, \<open>Next\<close>, \<open>Prev\<close>, \<open>Seek\<close>, \<open>SeekToFirst\<close>,
  \<open>SeekToLast\<close>) as a record of operations, and the contract of an iterator over a sorted
  sequence of entries as a locale. An operation whose result is \<open>None\<close> has no result
  (a failed \<open>assert(Valid())\<close>, or a search that does not end).
\<close>

record ('it, 'k, 'v) iter_ops =
  iValid :: "'it \<Rightarrow> bool"
  iKey :: "'it \<Rightarrow> 'k option"
  iValue :: "'it \<Rightarrow> 'v option"
  iNext :: "'it \<Rightarrow> 'it option"
  iPrev :: "'it \<Rightarrow> 'it option"
  iSeek :: "'k \<Rightarrow> 'it \<Rightarrow> 'it option"
  iSeekToFirst :: "'it \<Rightarrow> 'it option"
  iSeekToLast :: "'it \<Rightarrow> 'it option"

text \<open>The usual client loop: collect the entries from the current position to the end.\<close>

fun collect :: "('it, 'k, 'v) iter_ops \<Rightarrow> nat \<Rightarrow> 'it \<Rightarrow> ('k \<times> 'v) list option" where
  "collect ops 0 it = (if iValid ops it then None else Some [])"
| "collect ops (Suc n) it =
     (if iValid ops it
      then do { k \<leftarrow> iKey ops it; v \<leftarrow> iValue ops it; it' \<leftarrow> iNext ops it;
                rest \<leftarrow> collect ops n it'; Some ((k, v) # rest) }
      else Some [])"

text \<open>
  \<open>repr it es p\<close>: the iterator \<open>it\<close> runs over the entries \<open>es\<close> and stands at position
  \<open>p\<close> (\<open>None\<close>: not valid).
\<close>

definition pos_of :: "'e list \<Rightarrow> nat \<Rightarrow> nat option" where
  "pos_of es n = (if n < length es then Some n else None)"

text \<open>
  A client is a sequence of moves. \<open>cursor_move\<close> is the abstract iterator: a position in the sorted entries;
  moving on from no position is the failed assertion.
\<close>

datatype 'k move = MFirst | MLast | MNext | MPrev | MSeek 'k

fun do_move :: "('it, 'k, 'v) iter_ops \<Rightarrow> 'k move \<Rightarrow> 'it \<Rightarrow> 'it option" where
  "do_move ops MFirst it = iSeekToFirst ops it"
| "do_move ops MLast it = iSeekToLast ops it"
| "do_move ops MNext it = iNext ops it"
| "do_move ops MPrev it = iPrev ops it"
| "do_move ops (MSeek t) it = iSeek ops t it"

fun cursor_move :: "('k \<Rightarrow> 'k \<Rightarrow> int) \<Rightarrow> ('k \<times> 'v) list \<Rightarrow> 'k move \<Rightarrow> nat option \<Rightarrow> nat option option" where
  "cursor_move icmp es MFirst p = Some (pos_of es 0)"
| "cursor_move icmp es MLast p = Some (if es = [] then None else Some (length es - 1))"
| "cursor_move icmp es MNext p = do { i \<leftarrow> p; Some (pos_of es (Suc i)) }"
| "cursor_move icmp es MPrev p = do { i \<leftarrow> p; Some (if i = 0 then None else Some (i - 1)) }"
| "cursor_move icmp es (MSeek t) p = Some (pos_of es (length (takeWhile (\<lambda>e. icmp (fst e) t < 0) es)))"

primrec moves :: "('m \<Rightarrow> 's \<Rightarrow> 's option) \<Rightarrow> 'm list \<Rightarrow> 's \<Rightarrow> 's option" where
  "moves f [] s = Some s"
| "moves f (m # ms) s = do { s' \<leftarrow> f m s; moves f ms s' }"

locale entry_iterator =
  fixes ops :: "('it, 'k, 'v) iter_ops"
    and icmp :: "'k \<Rightarrow> 'k \<Rightarrow> int"
    and repr :: "'it \<Rightarrow> ('k \<times> 'v) list \<Rightarrow> nat option \<Rightarrow> bool"
  assumes repr_sorted: "repr it es p \<Longrightarrow> sorted_wrt (\<lambda>a b. icmp (fst a) (fst b) < 0) es"
    and repr_bound: "repr it es (Some i) \<Longrightarrow> i < length es"
    and valid_iff: "repr it es p \<Longrightarrow> iValid ops it \<longleftrightarrow> p \<noteq> None"
    and key_at: "repr it es (Some i) \<Longrightarrow> iKey ops it = Some (fst (es ! i))"
    and value_at: "repr it es (Some i) \<Longrightarrow> iValue ops it = Some (snd (es ! i))"
    and next_at: "repr it es (Some i) \<Longrightarrow> \<exists>it'. iNext ops it = Some it' \<and> repr it' es (pos_of es (Suc i))"
    and prev_at: "repr it es (Some i) \<Longrightarrow>
        \<exists>it'. iPrev ops it = Some it' \<and> repr it' es (if i = 0 then None else Some (i - 1))"
    and seek_first: "repr it es p \<Longrightarrow> \<exists>it'. iSeekToFirst ops it = Some it' \<and> repr it' es (pos_of es 0)"
    and seek_last: "repr it es p \<Longrightarrow> \<exists>it'. iSeekToLast ops it = Some it' \<and>
        repr it' es (if es = [] then None else Some (length es - 1))"
    and seek_at: "repr it es p \<Longrightarrow> \<exists>it'. iSeek ops t it = Some it' \<and>
        repr it' es (pos_of es (length (takeWhile (\<lambda>e. icmp (fst e) t < 0) es)))"
begin

text \<open>Every move, hence every client, is simulated by the cursor.\<close>

lemma move_simulates:
  assumes "repr it es p" and "cursor_move icmp es m p = Some p'"
  shows "\<exists>it'. do_move ops m it = Some it' \<and> repr it' es p'"
  using assms next_at prev_at seek_first seek_last seek_at
  by (cases m; cases p) auto

lemma moves_simulate:
  "repr it es p \<Longrightarrow> moves (cursor_move icmp es) ms p = Some p' \<Longrightarrow>
    \<exists>it'. moves (do_move ops) ms it = Some it' \<and> repr it' es p'"
proof (induction ms arbitrary: it p)
  case (Cons m ms)
  then obtain q where q: "cursor_move icmp es m p = Some q" "moves (cursor_move icmp es) ms q = Some p'"
    by (auto simp: bind_eq_Some_conv)
  from move_simulates [OF Cons.prems(1) q(1)] obtain it' where "do_move ops m it = Some it'" "repr it' es q" by blast
  with Cons.IH [OF _ q(2)] show ?case by simp
qed simp

text \<open>A forward scan visits exactly the remaining entries, in order.\<close>

lemma collect_from:
  "repr it es (pos_of es i) \<Longrightarrow> length es - i \<le> n \<Longrightarrow> collect ops n it = Some (drop i es)"
proof (induction n arbitrary: it i)
  case 0
  then show ?case using valid_iff [OF "0.prems"(1)] by (auto simp: pos_of_def)
next
  case (Suc n)
  show ?case
  proof (cases "i < length es")
    case True
    with Suc.prems have r: "repr it es (Some i)" by (simp add: pos_of_def)
    from next_at [OF r] obtain it' where it': "iNext ops it = Some it'" "repr it' es (pos_of es (Suc i))"
      by blast
    from Suc.IH [OF it'(2)] Suc.prems(2) have "collect ops n it' = Some (drop (Suc i) es)" by simp
    with it'(1) valid_iff [OF r] key_at [OF r] value_at [OF r] True show ?thesis
      by (simp flip: Cons_nth_drop_Suc)
  next
    case False
    with valid_iff [OF Suc.prems(1)] show ?thesis by (simp add: pos_of_def)
  qed
qed

lemma scan_all:
  assumes "repr it es p" and "length es \<le> n"
  shows "\<exists>it'. iSeekToFirst ops it = Some it' \<and> collect ops n it' = Some es"
  using seek_first [OF assms(1)] collect_from [of _ es 0 n] assms(2) by auto

lemma scan_from:
  assumes "repr it es p" and "length es \<le> n"
  shows "\<exists>it'. iSeek ops t it = Some it' \<and>
    collect ops n it' = Some (dropWhile (\<lambda>e. icmp (fst e) t < 0) es)"
proof -
  from seek_at [OF assms(1)] obtain it' where "iSeek ops t it = Some it'"
    "repr it' es (pos_of es (length (takeWhile (\<lambda>e. icmp (fst e) t < 0) es)))" by blast
  with collect_from [OF this(2), of n] assms(2) show ?thesis by (simp add: dropWhile_eq_drop)
qed

end

end
