(* ===== verification/Skiplist_Insert.thy ===== *)
theory Skiplist_Insert
  imports Skiplist Iterators
begin

text \<open>
  Insertion into the skip list: the effect of pointer writes, the search's predecessor
  array, the links of the new node, and what the whole of \<open>Insert\<close> does to the list's keys.
\<close>

section \<open>Writes\<close>

text \<open>\<open>same_shape\<close>: same nodes, keys and heights; only next pointers may differ.\<close>

definition same_shape :: "('k, 'r) skiplist \<Rightarrow> ('k, 'r) skiplist \<Rightarrow> bool" where
  "same_shape sl sl' \<longleftrightarrow> length (arena sl') = length (arena sl) \<and> sl_head sl' = sl_head sl \<and>
     sl_max_height sl' = sl_max_height sl \<and> sl_rnd sl' = sl_rnd sl \<and>
     (\<forall>a. height_of sl' a = height_of sl a \<and> key_of sl' a = key_of sl a)"

lemma same_shape_refl [simp]: "same_shape sl sl"
  by (simp add: same_shape_def)

lemma same_shape_trans: "same_shape sl sl1 \<Longrightarrow> same_shape sl1 sl2 \<Longrightarrow> same_shape sl sl2"
  by (simp add: same_shape_def)

lemma SetNext_ok:
  assumes "x < length (arena sl)" and "n < height_of sl x"
  obtains sl' where "SetNext sl x n p = Some sl'" and "same_shape sl sl'"
    and "\<And>a l. Next sl' a l = (if a = x \<and> l = n then Some p else Next sl a l)"
proof
  let ?sl = "sl\<lparr>arena := (arena sl)[x := (arena sl ! x)\<lparr>node_next := (node_next (arena sl ! x))[n := Some p]\<rparr>]\<rparr>"
  show "SetNext sl x n p = Some ?sl"
    using assms by (simp add: SetNext_def height_of_def)
  show "same_shape sl ?sl"
    using assms by (auto simp: same_shape_def height_of_def key_of_def nth_list_update)
  show "Next ?sl a l = (if a = x \<and> l = n then Some p else Next sl a l)" for a l
    using assms by (auto simp: Next_def height_of_def nth_list_update)
qed

lemma Next_Some_bounds: "Next sl x l = Some p \<Longrightarrow> x < length (arena sl) \<and> l < height_of sl x"
  by (simp add: Next_def height_of_def split: if_splits)

lemma chain_cong: "(\<And>a. a \<in> set (x # ys) \<Longrightarrow> Next sl' a l = Next sl a l) \<Longrightarrow> chain sl' l x ys = chain sl l x ys"
  by (induction ys arbitrary: x) auto

lemma chain_at_last: "chain sl l x (us @ vs) \<Longrightarrow> Next sl (last (x # us)) l = Some (first_opt vs)"
proof (induction us arbitrary: x)
  case Nil
  then show ?case by (cases vs) auto
qed auto

lemma chain_insert:
  assumes "chain sl l x (us @ vs)" and "distinct (x # us @ vs)" and "n \<notin> set (x # us @ vs)"
    and "\<And>a. Next sl' a l = (if a = last (x # us) then Some (Some n)
                            else if a = n then Some (first_opt vs) else Next sl a l)"
  shows "chain sl' l x (us @ n # vs)"
  using assms
proof (induction us arbitrary: x)
  case Nil
  have "chain sl' l n vs"
  proof (cases vs)
    case Nil
    with Nil.prems show ?thesis by auto
  next
    case (Cons v vs')
    with Nil.prems have "chain sl l v vs'" by simp
    moreover have "chain sl' l v vs' = chain sl l v vs'"
      using Nil.prems Cons by (intro chain_cong) auto
    ultimately show ?thesis using Nil.prems Cons by auto
  qed
  with Nil.prems show ?case by simp
next
  case (Cons u us)
  have "chain sl' l u (us @ n # vs)"
    using Cons.prems by (intro Cons.IH) auto
  moreover have "Next sl' x l = Some (Some u)"
    using Cons.prems by (auto dest: last_in_set split: if_splits)
  ultimately show ?case by simp
qed

section \<open>Insert\<close>

lemma link_levels_ok:
  assumes "i + k \<le> length ps" and "x < length (arena sl)" and "i + k \<le> height_of sl x"
    and "\<And>j. i \<le> j \<Longrightarrow> j < i + k \<Longrightarrow> ps ! j = Some (last (0 # U j)) \<and> chain sl j 0 (U j @ V j)
           \<and> distinct (0 # U j @ V j) \<and> x \<notin> set (0 # U j @ V j)"
  shows "\<exists>sl'. link_levels x ps i k sl = Some sl' \<and> same_shape sl sl'
    \<and> (\<forall>j. i \<le> j \<and> j < i + k \<longrightarrow> chain sl' j 0 (U j @ x # V j))
    \<and> (\<forall>j a. j < i \<or> i + k \<le> j \<longrightarrow> Next sl' a j = Next sl a j)"
  using assms
proof (induction k arbitrary: i sl)
  case 0
  then show ?case by auto
next
  case (Suc k)
  let ?p = "last (0 # U i)"
  have i: "ps ! i = Some ?p" "chain sl i 0 (U i @ V i)" "distinct (0 # U i @ V i)"
    "x \<notin> set (0 # U i @ V i)" using Suc.prems(4) [of i] by auto
  have nx: "Next sl ?p i = Some (first_opt (V i))" by (rule chain_at_last [OF i(2)])
  have px: "?p \<noteq> x" using i(4) last_in_set [of "0 # U i"] by auto
  have "i < height_of sl x" using Suc.prems(3) by simp
  from SetNext_ok [OF Suc.prems(2) this] obtain sl1 where sl1: "SetNext sl x i (first_opt (V i)) = Some sl1"
    "same_shape sl sl1" "\<And>a l. Next sl1 a l = (if a = x \<and> l = i then Some (first_opt (V i)) else Next sl a l)"
    by metis
  have "?p < length (arena sl1)" "i < height_of sl1 ?p"
    using Next_Some_bounds [OF nx] sl1(2) by (auto simp: same_shape_def)
  from SetNext_ok [OF this] obtain sl2 where sl2: "SetNext sl1 ?p i (Some x) = Some sl2" "same_shape sl1 sl2"
    "\<And>a l. Next sl2 a l = (if a = ?p \<and> l = i then Some (Some x) else Next sl1 a l)"
    by metis
  have shape: "same_shape sl sl2" using sl1(2) sl2(2) by (rule same_shape_trans)
  have other: "Next sl2 a j = Next sl a j" if "j \<noteq> i" for a j
    using that by (simp add: sl1(3) sl2(3))
  have chi: "chain sl2 i 0 (U i @ x # V i)"
    by (rule chain_insert [OF i(2-4)]) (simp add: sl1(3) sl2(3))
  have pre: "i + k + 1 \<le> length ps" "x < length (arena sl2)" "Suc i + k \<le> height_of sl2 x"
    using Suc.prems(1-3) shape by (auto simp: same_shape_def)
  have "\<exists>sl'. link_levels x ps (Suc i) k sl2 = Some sl' \<and> same_shape sl2 sl'
    \<and> (\<forall>j. Suc i \<le> j \<and> j < Suc i + k \<longrightarrow> chain sl' j 0 (U j @ x # V j))
    \<and> (\<forall>j a. j < Suc i \<or> Suc i + k \<le> j \<longrightarrow> Next sl' a j = Next sl2 a j)"
  proof (rule Suc.IH)
    fix j assume "Suc i \<le> j" "j < Suc i + k"
    then have "chain sl2 j 0 (U j @ V j) = chain sl j 0 (U j @ V j)"
      using other by (intro chain_cong) auto
    then show "ps ! j = Some (last (0 # U j)) \<and> chain sl2 j 0 (U j @ V j)
           \<and> distinct (0 # U j @ V j) \<and> x \<notin> set (0 # U j @ V j)"
      using Suc.prems(4) [of j] \<open>Suc i \<le> j\<close> \<open>j < Suc i + k\<close> by auto
  qed (use pre in auto)
  then obtain sl' where sl': "link_levels x ps (Suc i) k sl2 = Some sl'" "same_shape sl2 sl'"
    "\<forall>j. Suc i \<le> j \<and> j < Suc i + k \<longrightarrow> chain sl' j 0 (U j @ x # V j)"
    "\<forall>j a. j < Suc i \<or> Suc i + k \<le> j \<longrightarrow> Next sl' a j = Next sl2 a j" by metis
  have "chain sl' i 0 (U i @ x # V i)"
    using chi chain_cong [of 0 "U i @ x # V i" sl' i sl2] sl'(4) by auto
  then have "\<forall>j. i \<le> j \<and> j < i + Suc k \<longrightarrow> chain sl' j 0 (U j @ x # V j)"
    using sl'(3) by (metis Suc_leI add_Suc_shift le_neq_implies_less)
  moreover have "\<forall>j a. j < i \<or> i + Suc k \<le> j \<longrightarrow> Next sl' a j = Next sl a j"
    using sl'(4) other by auto
  moreover have "link_levels x ps i (Suc k) sl = Some sl'"
    using Suc.prems(1) by (simp add: i(1) nx sl1(1) sl2(1) sl'(1) del: last.simps)
  ultimately show ?case using same_shape_trans [OF shape sl'(2)] by blast
qed

lemma fill_prev_ok:
  "i + k \<le> length ps \<Longrightarrow> \<exists>ps'. fill_prev h i k ps = Some ps' \<and> length ps' = length ps
     \<and> (\<forall>j < length ps. ps' ! j = (if i \<le> j \<and> j < i + k then Some h else ps ! j))"
proof (induction k arbitrary: i ps)
  case 0
  then show ?case by auto
next
  case (Suc k)
  from Suc.IH [of "Suc i" "ps[i := Some h]"] Suc.prems
  obtain ps' where "fill_prev h (Suc i) k (ps[i := Some h]) = Some ps'" "length ps' = length ps"
    "\<forall>j < length ps. ps' ! j = (if Suc i \<le> j \<and> j < Suc i + k then Some h else ps[i := Some h] ! j)"
    by auto
  with Suc.prems show ?case by (auto simp: nth_list_update)
qed

lemma random_height_loop_bounds:
  "height \<le> kMaxHeight \<Longrightarrow> height \<le> fst (random_height_loop f height r) \<and> fst (random_height_loop f height r) \<le> kMaxHeight"
proof (induction f height r rule: random_height_loop.induct)
  case (1 f height r)
  obtain v r' where fr: "f r = (v, r')" by fastforce
  show ?case
  proof (cases "height < kMaxHeight \<and> unat v mod 4 = 0")
    case True
    with "1.IH" [of "(v, r')" v r'] have "Suc height \<le> fst (random_height_loop f (Suc height) r')
      \<and> fst (random_height_loop f (Suc height) r') \<le> kMaxHeight" using fr by simp
    with True fr show ?thesis by (simp add: random_height_loop.simps [of f height r])
  next
    case False
    with fr "1.prems" show ?thesis by (auto simp: random_height_loop.simps [of f height r])
  qed
qed

lemma RandomHeight_bounds:
  "1 \<le> fst (RandomHeight f r)" "fst (RandomHeight f r) \<le> kMaxHeight"
  using random_height_loop_bounds [of 1 f r] by (simp_all add: RandomHeight_def kMaxHeight_def)

lemma pred_at_above:
  assumes "sl_wf cmp sl as" and "sl_max_height sl \<le> l"
  shows "pred_at cmp sl as key l = 0"
proof -
  have "level_nodes sl as l = []"
    using sl_wfD(4) [OF assms(1)] assms(2) by (fastforce simp: level_nodes_def filter_empty_conv)
  then show ?thesis by (simp add: pred_at_def)
qed

text \<open>\<open>grow_prev\<close> names the step of \<open>Insert\<close> that raises the list's height.\<close>

lemma grow_prev:
  assumes wf: "sl_wf cmp sl as" and len: "length ps = kMaxHeight" and h: "height \<le> kMaxHeight"
    and ps: "\<forall>i < sl_max_height sl. ps ! i = Some (pred_at cmp sl as key i)"
  obtains ps' where "(if GetMaxHeight sl < height
      then do { ps' \<leftarrow> fill_prev (sl_head sl) (GetMaxHeight sl) (height - GetMaxHeight sl) ps;
                Some (ps', sl\<lparr>sl_max_height := height\<rparr>) }
      else Some (ps, sl)) = Some (ps', sl\<lparr>sl_max_height := max (sl_max_height sl) height\<rparr>)"
    and "length ps' = kMaxHeight" and "\<forall>i < height. ps' ! i = Some (pred_at cmp sl as key i)"
proof (cases "sl_max_height sl < height")
  case True
  have "\<exists>ps'. fill_prev (sl_head sl) (sl_max_height sl) (height - sl_max_height sl) ps = Some ps'
      \<and> length ps' = length ps \<and> (\<forall>j < length ps. ps' ! j =
        (if sl_max_height sl \<le> j \<and> j < sl_max_height sl + (height - sl_max_height sl) then Some (sl_head sl) else ps ! j))"
    by (rule fill_prev_ok) (use True len h in simp)
  then obtain ps' where ps': "fill_prev (sl_head sl) (sl_max_height sl) (height - sl_max_height sl) ps = Some ps'"
    "length ps' = length ps" "\<forall>j < length ps. ps' ! j =
        (if sl_max_height sl \<le> j \<and> j < sl_max_height sl + (height - sl_max_height sl) then Some (sl_head sl) else ps ! j)"
    by blast
  have "\<forall>i < height. ps' ! i = Some (pred_at cmp sl as key i)"
    using ps'(3) ps pred_at_above [OF wf] sl_wf_nodes(4) [OF wf] len h True by (auto simp: not_le)
  with True ps'(1,2) len show ?thesis by (intro that [of ps']) (auto simp: GetMaxHeight_def max_def)
next
  case False
  with ps len show ?thesis by (intro that [of ps]) (auto simp: GetMaxHeight_def max_def)
qed

lemma NewNode_frame:
  assumes "NewNode sl key h = (sl', n)"
  shows "n = length (arena sl)" and "length (arena sl') = Suc n" and "sl_head sl' = sl_head sl"
    and "sl_max_height sl' = sl_max_height sl" and "height_of sl' n = h" and "key_of sl' n = key"
    and "a < n \<Longrightarrow> height_of sl' a = height_of sl a" and "a < n \<Longrightarrow> key_of sl' a = key_of sl a"
    and "a < n \<Longrightarrow> Next sl' a l = Next sl a l"
  using assms by (auto simp: NewNode_def height_of_def key_of_def Next_def nth_append)

context comparator
begin

lemma before_takeWhile:
  "sorted_wrt (\<lambda>a b. cmp (key_of sl a) (key_of sl b) < 0) xs \<Longrightarrow>
     takeWhile (before cmp sl key) xs = filter (before cmp sl key) xs"
  by (erule filter_takeWhile_of_sorted [symmetric]) (rule cmp_less_trans)

lemma before_dropWhile:
  "sorted_wrt (\<lambda>a b. cmp (key_of sl a) (key_of sl b) < 0) xs \<Longrightarrow>
     dropWhile (before cmp sl key) xs = filter (\<lambda>a. \<not> before cmp sl key a) xs"
  by (erule filter_dropWhile_of_sorted [symmetric]) (rule cmp_less_trans)

lemma before_filter:
  assumes "sorted_wrt (\<lambda>a b. cmp (key_of sl a) (key_of sl b) < 0) xs"
  shows "takeWhile (before cmp sl key) (filter P xs) = filter P (takeWhile (before cmp sl key) xs)"
    and "dropWhile (before cmp sl key) (filter P xs) = filter P (dropWhile (before cmp sl key) xs)"
proof -
  have s: "sorted_wrt (\<lambda>a b. cmp (key_of sl a) (key_of sl b) < 0) (filter P xs)"
    using assms by (rule sorted_wrt_filter)
  show "takeWhile (before cmp sl key) (filter P xs) = filter P (takeWhile (before cmp sl key) xs)"
    unfolding before_takeWhile [OF s] before_takeWhile [OF assms] filter_filter by (simp add: conj_commute)
  show "dropWhile (before cmp sl key) (filter P xs) = filter P (dropWhile (before cmp sl key) xs)"
    unfolding before_dropWhile [OF s] before_dropWhile [OF assms] filter_filter by (simp add: conj_commute)
qed

text \<open>The keys stay strictly ascending when a new key is put at its place.\<close>

lemma insert_position_sorted:
  assumes sorted: "sorted_wrt (\<lambda>a b. cmp (key_of sl a) (key_of sl b) < 0) as"
    and new: "\<forall>a \<in> set as. cmp (key_of sl a) key \<noteq> 0"
    and ks: "key_of sl' n = key" "\<And>a. a \<in> set as \<Longrightarrow> key_of sl' a = key_of sl a"
  shows "sorted_wrt (\<lambda>a b. cmp (key_of sl' a) (key_of sl' b) < 0)
     (takeWhile (before cmp sl key) as @ n # dropWhile (before cmp sl key) as)"
proof -
  let ?B = "before cmp sl key"
  have "sorted_wrt (\<lambda>a b. cmp (key_of sl' a) (key_of sl' b) < 0) as"
    by (rule sorted_wrt_mono_rel [OF _ sorted]) (simp add: ks)
  then have "sorted_wrt (\<lambda>a b. cmp (key_of sl' a) (key_of sl' b) < 0) (filter ?B as @ filter (\<lambda>a. \<not> ?B a) as)"
    by (simp add: sorted flip: before_takeWhile before_dropWhile)
  moreover have "\<forall>b \<in> set (filter (\<lambda>a. \<not> ?B a) as). cmp key (key_of sl' b) < 0"
  proof
    fix b assume "b \<in> set (filter (\<lambda>a. \<not> ?B a) as)"
    then have "0 < cmp (key_of sl b) key" "b \<in> set as" using new by force+
    then show "cmp key (key_of sl' b) < 0" by (simp add: ks cmp_swap)
  qed
  ultimately show ?thesis
    unfolding before_takeWhile [OF sorted] before_dropWhile [OF sorted] by (auto simp: sorted_wrt_append ks)
qed

text \<open>Linking the new node turns the chains of the old nodes into chains of the new order.\<close>

lemma Insert_links:
  assumes wf: "sl_wf cmp sl as" and h: "1 \<le> h" "h \<le> kMaxHeight"
    and new: "\<forall>a \<in> set as. cmp (key_of sl a) key \<noteq> 0"
    and sl2: "sl2 = sl\<lparr>sl_rnd := r, sl_max_height := max (sl_max_height sl) h\<rparr>"
    and ps: "length ps = kMaxHeight" "\<forall>i < h. ps ! i = Some (pred_at cmp sl as key i)"
    and nn: "NewNode sl2 key h = (sl3, n)"
  shows "\<exists>sl'. link_levels n ps 0 h sl3 = Some sl' \<and> key_of sl' n = key \<and> (\<forall>a < n. key_of sl' a = key_of sl a)
    \<and> sl_wf cmp sl' (takeWhile (before cmp sl key) as @ n # dropWhile (before cmp sl key) as)"
proof -
  let ?B = "before cmp sl key"
  let ?as' = "takeWhile ?B as @ n # dropWhile ?B as"
  let ?U = "\<lambda>j. takeWhile ?B (level_nodes sl as j)" and ?V = "\<lambda>j. dropWhile ?B (level_nodes sl as j)"
  note fr = NewNode_frame [OF nn]
  have sl_sl2: "arena sl2 = arena sl" "sl_head sl2 = 0" "height_of sl2 = height_of sl" "key_of sl2 = key_of sl"
    "Next sl2 = Next sl"
    using sl_wf_nodes(4) [OF wf] by (simp_all add: sl2 height_of_def key_of_def Next_def fun_eq_iff)
  have n: "n = length (arena sl)" using fr(1) sl_sl2 by simp
  have nodes: "a \<in> set as \<Longrightarrow> a < n" "0 < n" "a \<in> set as \<Longrightarrow> 0 < a" for a
    using sl_wf_nodes [OF wf] by (auto simp: n)
  have old: "a < n \<Longrightarrow> Next sl3 a l = Next sl a l" "a < n \<Longrightarrow> height_of sl3 a = height_of sl a"
    "a < n \<Longrightarrow> key_of sl3 a = key_of sl a" for a l
    using fr(7-9) sl_sl2 by auto
  have lev: "?U j @ ?V j = level_nodes sl as j" for j by simp
  have in_as: "a \<in> set (level_nodes sl as j) \<Longrightarrow> a \<in> set as" for a j by (simp add: level_nodes_def)
  have "\<exists>sl'. link_levels n ps 0 h sl3 = Some sl' \<and> same_shape sl3 sl'
    \<and> (\<forall>j. 0 \<le> j \<and> j < 0 + h \<longrightarrow> chain sl' j 0 (?U j @ n # ?V j))
    \<and> (\<forall>j a. j < 0 \<or> 0 + h \<le> j \<longrightarrow> Next sl' a j = Next sl3 a j)"
  proof (rule link_levels_ok)
    fix j assume j: "0 \<le> j" "j < 0 + h"
    have "chain sl3 j 0 (level_nodes sl as j) = chain sl j 0 (level_nodes sl as j)"
      by (rule chain_cong) (use nodes in_as old in auto)
    then have "chain sl3 j 0 (?U j @ ?V j)" using level_chain [OF wf, of j] j h lev by simp
    moreover have "distinct (level_nodes sl as j)"
      using sl_wfD(1) [OF wf] by (simp add: level_nodes_def)
    moreover have "0 \<notin> set (level_nodes sl as j)" "n \<notin> set (level_nodes sl as j)" "n \<noteq> 0"
      using in_as [of 0 j] in_as [of n j] nodes(3) [of 0] nodes(1) [of n] nodes(2) by auto
    ultimately have "chain sl3 j 0 (?U j @ ?V j)" "distinct (0 # ?U j @ ?V j)" "n \<notin> set (0 # ?U j @ ?V j)"
      unfolding lev by simp_all
    then show "ps ! j = Some (last (0 # ?U j)) \<and> chain sl3 j 0 (?U j @ ?V j)
      \<and> distinct (0 # ?U j @ ?V j) \<and> n \<notin> set (0 # ?U j @ ?V j)"
      using ps(2) j by (simp add: pred_at_def)
  qed (use fr h ps in auto)
  then obtain sl' where ll: "link_levels n ps 0 h sl3 = Some sl'" and sh: "same_shape sl3 sl'"
    and ch: "\<And>j. j < h \<Longrightarrow> chain sl' j 0 (?U j @ n # ?V j)"
    and hi: "\<And>j a. h \<le> j \<Longrightarrow> Next sl' a j = Next sl3 a j" by auto
  have hs: "height_of sl' n = h" "a < n \<Longrightarrow> height_of sl' a = height_of sl a" for a
    using sh fr(5) old by (auto simp: same_shape_def)
  have ks: "key_of sl' n = key" "a < n \<Longrightarrow> key_of sl' a = key_of sl a" for a
    using sh fr(6) old by (auto simp: same_shape_def)
  have sorted: "sorted_wrt (\<lambda>a b. cmp (key_of sl a) (key_of sl b) < 0) as" by (rule sl_wfD(5) [OF wf])
  have levels: "level_nodes sl' ?as' j = (if j < h then ?U j @ n # ?V j else level_nodes sl as j)" for j
  proof -
    have "filter (\<lambda>a. j < height_of sl' a) xs = filter (\<lambda>a. j < height_of sl a) xs" if "set xs \<subseteq> set as" for xs
      using that hs nodes by (intro filter_cong) auto
    from this [OF set_takeWhile_sub] this [OF set_dropWhile_sub]
    have "level_nodes sl' ?as' j = filter (\<lambda>a. j < height_of sl a) (takeWhile ?B as) @
        (if j < h then [n] else []) @ filter (\<lambda>a. j < height_of sl a) (dropWhile ?B as)"
      by (simp add: level_nodes_def hs(1))
    then show ?thesis using before_filter [OF sorted, of key "\<lambda>a. j < height_of sl a"]
      by (simp add: level_nodes_def flip: filter_append)
  qed
  have chains: "chain sl' j 0 (level_nodes sl' ?as' j)" if "j < kMaxHeight" for j
  proof (cases "j < h")
    case True
    with ch levels show ?thesis by simp
  next
    case False
    have "chain sl' j 0 (level_nodes sl as j) = chain sl j 0 (level_nodes sl as j)"
      by (rule chain_cong) (use False hi old nodes in_as in auto)
    with False levels level_chain [OF wf that] show ?thesis by simp
  qed
  have sorted': "sorted_wrt (\<lambda>a b. cmp (key_of sl' a) (key_of sl' b) < 0) ?as'"
    by (rule insert_position_sorted [OF sorted new ks(1)]) (use ks nodes in auto)
  have "set as = set (takeWhile ?B as) \<union> set (dropWhile ?B as)"
    by (metis set_append takeWhile_dropWhile_id)
  then have set': "set ?as' = insert n (set as)" by simp
  have len: "length (arena sl') = Suc n" using fr(2) sh by (simp add: same_shape_def)
  have "{1..<Suc n} = insert n {1..<n}" using nodes(2) by auto
  with set' len have set'': "set ?as' = {1..<length (arena sl')}" using sl_wfD(2) [OF wf] by (simp only: n)
  have dist: "distinct ?as'"
    using sl_wfD(1) [OF wf] nodes(1) [of n] distinct_append [of "takeWhile ?B as" "dropWhile ?B as"]
      set_takeWhile_sub [of ?B as] set_dropWhile_sub [of ?B as] by auto
  have heights: "\<forall>a \<in> set ?as'. 1 \<le> height_of sl' a \<and> height_of sl' a \<le> sl_max_height sl'"
    unfolding set' using sl_wfD(3,4) [OF wf] hs nodes h fr(4) sh
    by (auto simp: same_shape_def sl2 le_max_iff_disj)
  have "sl_head sl' = 0" "arena sl' \<noteq> []" "height_of sl' 0 = kMaxHeight"
    "1 \<le> sl_max_height sl'" "sl_max_height sl' \<le> kMaxHeight"
    using sl_wfD(6-8) [OF wf] sh fr(3,4) h hs(2) [OF nodes(2)] sl_sl2 len by (auto simp: same_shape_def sl2)
  with chains sorted' set'' dist heights have "sl_wf cmp sl' ?as'" by (simp only: sl_wf_def) blast
  with ll ks show ?thesis by blast
qed

lemma Insert_wf:
  assumes wf: "sl_wf cmp sl as" and new: "\<forall>a \<in> set as. cmp (key_of sl a) key \<noteq> 0"
  obtains sl' where "Insert cmp f key sl = Some sl'" and "key_of sl' (length (arena sl)) = key"
    and "\<forall>a < length (arena sl). key_of sl' a = key_of sl a"
    and "sl_wf cmp sl' (takeWhile (before cmp sl key) as @ length (arena sl) # dropWhile (before cmp sl key) as)"
proof -
  obtain height r where hr: "RandomHeight f (sl_rnd sl) = (height, r)" by fastforce
  with RandomHeight_bounds [of f "sl_rnd sl"] have h: "1 \<le> height" "height \<le> kMaxHeight" by auto
  let ?sl1 = "sl\<lparr>sl_rnd := r\<rparr>"
  obtain ps where fge: "FindGreaterOrEqual cmp sl key (Some (replicate kMaxHeight None))
      = Some (first_opt (dropWhile (before cmp sl key) as), Some ps)"
    and ps: "length ps = kMaxHeight" "\<forall>i < sl_max_height sl. ps ! i = Some (pred_at cmp sl as key i)"
    by (rule FindGreaterOrEqual_prev [OF wf, of "replicate kMaxHeight None" key]) simp
  have wf1: "sl_wf cmp ?sl1 as" and pred1: "pred_at cmp ?sl1 as key i = pred_at cmp sl as key i" for i
    using wf by (simp_all add: sl_wf_def pred_at_def level_nodes_def height_of_def key_of_def Next_def
        chain_cong [of _ _ ?sl1 _ sl])
  have "\<forall>i < sl_max_height ?sl1. ps ! i = Some (pred_at cmp ?sl1 as key i)" using ps(2) pred1 by simp
  from grow_prev [OF wf1 ps(1) h(2) this] obtain ps' where
    grow: "(if GetMaxHeight ?sl1 < height
      then do { ps' \<leftarrow> fill_prev (sl_head ?sl1) (GetMaxHeight ?sl1) (height - GetMaxHeight ?sl1) ps;
                Some (ps', ?sl1\<lparr>sl_max_height := height\<rparr>) }
      else Some (ps, ?sl1)) = Some (ps', ?sl1\<lparr>sl_max_height := max (sl_max_height ?sl1) height\<rparr>)"
    and ps': "length ps' = kMaxHeight" "\<forall>i < height. ps' ! i = Some (pred_at cmp ?sl1 as key i)" .
  let ?sl2 = "sl\<lparr>sl_rnd := r, sl_max_height := max (sl_max_height sl) height\<rparr>"
  obtain sl3 n where nn: "NewNode ?sl2 key height = (sl3, n)" by fastforce
  have n: "n = length (arena sl)" using NewNode_frame(1) [OF nn] by simp
  from Insert_links [OF wf h new refl ps'(1) _ nn] ps'(2) pred1
  obtain sl' where sl': "link_levels n ps' 0 height sl3 = Some sl'" "key_of sl' n = key"
    "\<forall>a < n. key_of sl' a = key_of sl a"
    "sl_wf cmp sl' (takeWhile (before cmp sl key) as @ n # dropWhile (before cmp sl key) as)" by auto
  have "(case first_opt (dropWhile (before cmp sl key) as) of None \<Rightarrow> Some True
      | Some a \<Rightarrow> do { k \<leftarrow> node_key_at sl a; Some (\<not> Equal cmp key k) }) = Some True"
  proof (cases "dropWhile (before cmp sl key) as")
    case Nil
    then show ?thesis by (simp only: first_opt_simps option.case)
  next
    case (Cons a xs)
    then have "a \<in> set as" using set_dropWhile_sub [of "before cmp sl key" as] by simp
    with Cons new sl_wf_nodes(1) [OF wf this] show ?thesis
      by (simp add: node_key_at_def Equal_def key_of_def cmp_zero_sym)
  qed
  then have "Insert cmp f key sl = Some sl'"
    using grow nn sl'(1) by (simp add: Insert_def fge hr Let_def cong: if_cong)
  then show ?thesis using sl'(2-4) unfolding n by (rule that)
qed

end

section \<open>The list as a sorted sequence of keys\<close>

lemma set_null_from_ok:
  assumes "x < length (arena sl)" and "i + k \<le> height_of sl x"
  shows "\<exists>sl'. set_null_from x i k sl = Some sl' \<and> same_shape sl sl' \<and>
     (\<forall>a l. Next sl' a l = (if a = x \<and> i \<le> l \<and> l < i + k then Some None else Next sl a l))"
  using assms
proof (induction k arbitrary: i sl)
  case 0
  then show ?case by auto
next
  case (Suc k)
  then have "i < height_of sl x" by simp
  from SetNext_ok [OF Suc.prems(1) this] obtain sl1 where sl1: "SetNext sl x i None = Some sl1"
    "same_shape sl sl1" "\<And>a l. Next sl1 a l = (if a = x \<and> l = i then Some None else Next sl a l)"
    by metis
  have "x < length (arena sl1)" "Suc i + k \<le> height_of sl1 x"
    using Suc.prems sl1(2) by (auto simp: same_shape_def)
  from Suc.IH [OF this] obtain sl' where "set_null_from x (Suc i) k sl1 = Some sl'" "same_shape sl1 sl'"
     "\<forall>a l. Next sl' a l = (if a = x \<and> Suc i \<le> l \<and> l < Suc i + k then Some None else Next sl1 a l)" by blast
  with sl1 show ?case by (auto intro: same_shape_trans)
qed

lemma SkipList_wf: "\<exists>sl. SkipList k0 seed = Some sl \<and> sl_wf cmp sl []"
proof -
  obtain sl1 h where nn: "NewNode \<lparr>arena = [], sl_head = 0, sl_max_height = 1, sl_rnd = seed\<rparr> k0 kMaxHeight = (sl1, h)"
    by fastforce
  note fr = NewNode_frame [OF nn]
  have h: "h = 0" using fr(1) by simp
  let ?sl = "sl1\<lparr>sl_head := h\<rparr>"
  have "h < length (arena ?sl)" "0 + kMaxHeight \<le> height_of ?sl h"
    using fr(2,5) by (auto simp: height_of_def)
  from set_null_from_ok [OF this] obtain sl' where sl': "set_null_from h 0 kMaxHeight ?sl = Some sl'"
    "same_shape ?sl sl'" "\<forall>a l. Next sl' a l = (if a = h \<and> l < kMaxHeight then Some None else Next ?sl a l)"
    by auto
  have "sl_wf cmp sl' []"
    using sl'(2,3) fr(2,4,5) h by (auto simp: sl_wf_def same_shape_def level_nodes_def kMaxHeight_def height_of_def)
  with sl'(1) nn show ?thesis by (simp add: SkipList_def)
qed

end
