(* ===== verification/Skiplist_Spec.thy ===== *)
theory Skiplist_Spec
  imports Skiplist_Insert
begin

text \<open>
  What the skip list promises its client, the memtable: it holds a strictly ascending
  sequence of keys, \<open>Insert\<close> puts a new key at its place, \<open>Contains\<close> decides membership,
  and its iterators satisfy the iterator contract over that sequence.
\<close>

section \<open>Operations on the key sequence\<close>

context comparator
begin

lemma sl_rep_Insert:
  assumes "sl_rep cmp sl ks" and "\<forall>x \<in> set ks. cmp x key \<noteq> 0"
  shows "\<exists>sl'. Insert cmp f key sl = Some sl' \<and>
    sl_rep cmp sl' (filter (\<lambda>x. cmp x key < 0) ks @ key # filter (\<lambda>x. \<not> cmp x key < 0) ks)"
proof -
  from assms obtain as where wf: "sl_wf cmp sl as" and ks: "ks = map (key_of sl) as"
    and new: "\<forall>a \<in> set as. cmp (key_of sl a) key \<noteq> 0" by (auto simp: sl_rep_def)
  from Insert_wf [OF wf new, of f] obtain sl' where sl': "Insert cmp f key sl = Some sl'"
    "key_of sl' (length (arena sl)) = key" "\<forall>a < length (arena sl). key_of sl' a = key_of sl a"
    "sl_wf cmp sl' (takeWhile (before cmp sl key) as @ length (arena sl) # dropWhile (before cmp sl key) as)" .
  have same: "map (key_of sl') (filter P as) = map (key_of sl) (filter P as)" for P
    using sl'(3) sl_wf_nodes(1) [OF wf] by auto
  have "sl_rep cmp sl' (map (key_of sl') (filter (before cmp sl key) as) @ key #
      map (key_of sl') (filter (\<lambda>a. \<not> before cmp sl key a) as))"
    using sl'(2,4) unfolding before_takeWhile [OF sl_wfD(5) [OF wf]] before_dropWhile [OF sl_wfD(5) [OF wf]]
      sl_rep_def by (intro exI conjI) auto
  then show ?thesis using sl'(1) unfolding same by (auto simp: ks filter_map comp_def)
qed

lemma sl_rep_sorted: "sl_rep cmp sl ks \<Longrightarrow> sorted_wrt (\<lambda>a b. cmp a b < 0) ks"
  by (auto simp: sl_rep_def sorted_wrt_map dest: sl_wfD(5))

lemma sl_rep_Contains:
  assumes "sl_rep cmp sl ks"
  shows "Contains cmp sl key = Some (\<exists>x \<in> set ks. cmp key x = 0)"
proof -
  from assms obtain as where wf: "sl_wf cmp sl as" and ks: "ks = map (key_of sl) as"
    by (auto simp: sl_rep_def)
  note sorted = sl_wfD(5) [OF wf]
  show ?thesis
  proof (cases "dropWhile (before cmp sl key) as")
    case Nil
    then have "\<forall>a \<in> set as. before cmp sl key a" by simp
    then have "\<not> (\<exists>x \<in> set ks. cmp key x = 0)"
      using cmp_zero_sym [of key] by (force simp: ks)
    with Nil show ?thesis by (simp add: Contains_def FindGreaterOrEqual_none [OF wf] del: dropWhile_eq_Nil_conv)
  next
    case (Cons a xs)
    then have rest: "filter (\<lambda>a. \<not> before cmp sl key a) as = a # xs"
      using before_dropWhile [OF sorted] by simp
    have mem: "b \<in> set (a # xs) \<longleftrightarrow> b \<in> set as \<and> \<not> before cmp sl key b" for b
      by (simp flip: rest)
    then have "a \<in> set as" by auto
    have "\<forall>b \<in> set xs. cmp (key_of sl a) (key_of sl b) < 0"
      using sorted_wrt_filter [OF sorted, of "\<lambda>a. \<not> before cmp sl key a"] rest by simp
    moreover have "\<not> before cmp sl key a" using mem [of a] by simp
    ultimately have "cmp key (key_of sl b) \<noteq> 0" if "b \<in> set xs" for b
      using that cmp_le_less_trans [of key "key_of sl a" "key_of sl b"] cmp_swap [of "key_of sl a" key]
      by (metis cmp_le_swap linorder_not_less order_less_irrefl)
    moreover have "cmp key (key_of sl b) \<noteq> 0" if "before cmp sl key b" for b
      using that cmp_zero_sym [of key] by auto
    moreover have "b \<in> set as \<Longrightarrow> \<not> before cmp sl key b \<Longrightarrow> b = a \<or> b \<in> set xs" for b
      using mem by auto
    ultimately have "(\<exists>x \<in> set ks. cmp key x = 0) \<longleftrightarrow> cmp key (key_of sl a) = 0"
      using \<open>a \<in> set as\<close> by (auto simp: ks)
    with Cons sl_wf_nodes(1) [OF wf \<open>a \<in> set as\<close>] show ?thesis
      by (simp add: Contains_def FindGreaterOrEqual_none [OF wf] node_key_at_def Equal_def key_of_def)
  qed
qed

end

lemma sl_rep_SkipList: "\<exists>sl. SkipList k0 seed = Some sl \<and> sl_rep cmp sl []"
  using SkipList_wf [of k0 seed cmp] by (auto simp: sl_rep_def)

section \<open>Iterators\<close>

text \<open>The memtable keeps entries, key and value together, ordered by their key.\<close>

definition entry_cmp :: "('k \<Rightarrow> 'k \<Rightarrow> int) \<Rightarrow> 'k \<times> 'v \<Rightarrow> 'k \<times> 'v \<Rightarrow> int" where
  "entry_cmp icmp a b = icmp (fst a) (fst b)"

definition sl_iter_ops ::
    "('k \<Rightarrow> 'k \<Rightarrow> int) \<Rightarrow> 'v \<Rightarrow> (('k \<times> 'v, 'r) sl_iter, 'k, 'v) iter_ops" where
  "sl_iter_ops icmp v0 =
     \<lparr>iValid = Iterator_Valid,
      iKey = (\<lambda>it. map_option fst (Iterator_key it)),
      iValue = (\<lambda>it. map_option snd (Iterator_key it)),
      iNext = Iterator_Next,
      iPrev = Iterator_Prev (entry_cmp icmp),
      iSeek = (\<lambda>t. Iterator_Seek (entry_cmp icmp) (t, v0)),
      iSeekToFirst = Iterator_SeekToFirst,
      iSeekToLast = Iterator_SeekToLast\<rparr>"

definition sl_iter_repr ::
    "('k \<Rightarrow> 'k \<Rightarrow> int) \<Rightarrow> ('k \<times> 'v, 'r) sl_iter \<Rightarrow> ('k \<times> 'v) list \<Rightarrow> nat option \<Rightarrow> bool" where
  "sl_iter_repr icmp it es p \<longleftrightarrow> (\<exists>as. sl_wf (entry_cmp icmp) (it_list it) as \<and>
     es = map (key_of (it_list it)) as \<and>
     (case p of None \<Rightarrow> it_node it = None | Some i \<Rightarrow> i < length as \<and> it_node it = Some (as ! i)))"

lemma Next_nth:
  assumes "chain sl l x as" and "i < length as"
  shows "Next sl (as ! i) l = Some (if Suc i < length as then Some (as ! Suc i) else None)"
proof -
  have "chain sl l x (take (Suc i) as @ drop (Suc i) as)" using assms(1) by simp
  from chain_at_last [OF this] have "Next sl (last (x # take (Suc i) as)) l = Some (first_opt (drop (Suc i) as))" .
  moreover have "last (x # take (Suc i) as) = as ! i" using assms(2) by (simp add: take_Suc_conv_app_nth)
  moreover have "first_opt (drop (Suc i) as) = (if Suc i < length as then Some (as ! Suc i) else None)"
    by (cases "Suc i < length as") (simp_all flip: Cons_nth_drop_Suc)
  ultimately show ?thesis by simp
qed

lemma entry_cmp_comparator: "comparator icmp \<Longrightarrow> comparator (entry_cmp icmp)"
  unfolding comparator_def entry_cmp_def by blast

context comparator
begin

lemma takeWhile_before_nth:
  assumes "sorted_wrt (\<lambda>a b. cmp (key_of sl a) (key_of sl b) < 0) as" and "i < length as"
  shows "takeWhile (before cmp sl (key_of sl (as ! i))) as = take i as"
proof (rule takeWhile_eq_take_P_nth)
  show "before cmp sl (key_of sl (as ! i)) (as ! j)" if "j < i" "j < length as" for j
    using sorted_wrt_nth_less [OF assms(1) that(1) assms(2)] .
qed (simp add: cmp_refl)

end

lemma sl_iter_reprD:
  assumes "sl_iter_repr icmp it es p"
  obtains as where "sl_wf (entry_cmp icmp) (it_list it) as" and "es = map (key_of (it_list it)) as"
    and "case p of None \<Rightarrow> it_node it = None | Some i \<Rightarrow> i < length as \<and> it_node it = Some (as ! i)"
  using assms by (auto simp: sl_iter_repr_def)

lemma sl_iter_repr_node:
  "sl_wf (entry_cmp icmp) (it_list it) as \<Longrightarrow> es = map (key_of (it_list it)) as \<Longrightarrow>
     sl_iter_repr icmp (it\<lparr>it_node := (if i < length as then Some (as ! i) else None)\<rparr>) es (pos_of es i)"
  by (auto simp: sl_iter_repr_def pos_of_def)

text \<open>Moves to a position given by the whole list: both ends and the sought key.\<close>

lemma sl_iter_seeks:
  fixes v0 :: 'v
  assumes "comparator icmp" and "sl_iter_repr icmp it es p"
  shows "\<exists>it'. iSeekToFirst (sl_iter_ops icmp v0) it = Some it' \<and> sl_iter_repr icmp it' es (pos_of es 0)"
    and "\<exists>it'. iSeekToLast (sl_iter_ops icmp v0) it = Some it' \<and>
      sl_iter_repr icmp it' es (if es = [] then None else Some (length es - 1))"
    and "\<exists>it'. iSeek (sl_iter_ops icmp v0) t it = Some it' \<and>
      sl_iter_repr icmp it' es (pos_of es (length (takeWhile (\<lambda>e. icmp (fst e) t < 0) es)))"
proof -
  let ?sl = "it_list it" and ?cmp = "entry_cmp icmp :: 'a \<times> 'v \<Rightarrow> 'a \<times> 'v \<Rightarrow> int"
  have c: "comparator ?cmp" by (rule entry_cmp_comparator [OF assms(1)])
  obtain as where wf: "sl_wf ?cmp ?sl as" and es: "es = map (key_of ?sl) as"
    using sl_iter_reprD [OF assms(2)] by blast
  have hd: "sl_head ?sl = 0" by (rule sl_wf_nodes(4) [OF wf])
  have first_drop: "first_opt (drop n as) = (if n < length as then Some (as ! n) else None)" for n
    by (cases "n < length as") (simp_all flip: Cons_nth_drop_Suc)
  have "Next ?sl 0 0 = Some (first_opt as)"
    using chain_at_last [of ?sl 0 0 "[]" as] level_chain [OF wf, of 0] level_nodes_0 [OF wf]
    by (simp add: kMaxHeight_def)
  then show "\<exists>it'. iSeekToFirst (sl_iter_ops icmp v0) it = Some it' \<and> sl_iter_repr icmp it' es (pos_of es 0)"
    using sl_iter_repr_node [OF wf es, of 0] first_drop [of 0]
    by (auto simp: sl_iter_ops_def Iterator_SeekToFirst_def hd)
  have "0 < as ! (length as - 1)" if "as \<noteq> []"
    using sl_wf_nodes(3) [OF wf, of "as ! (length as - 1)"] that by simp
  then show "\<exists>it'. iSeekToLast (sl_iter_ops icmp v0) it = Some it' \<and>
      sl_iter_repr icmp it' es (if es = [] then None else Some (length es - 1))"
    using wf es FindLast_wf [OF wf] hd
    by (cases "as = []") (auto simp: sl_iter_ops_def Iterator_SeekToLast_def sl_iter_repr_def last_conv_nth)
  let ?B = "before ?cmp ?sl (t, v0)"
  have n: "length (takeWhile (\<lambda>e. icmp (fst e) t < 0) es) = length (takeWhile ?B as)"
    by (simp add: es takeWhile_map entry_cmp_def comp_def)
  show "\<exists>it'. iSeek (sl_iter_ops icmp v0) t it = Some it' \<and>
      sl_iter_repr icmp it' es (pos_of es (length (takeWhile (\<lambda>e. icmp (fst e) t < 0) es)))"
    using sl_iter_repr_node [OF wf es, of "length (takeWhile ?B as)"] first_drop [of "length (takeWhile ?B as)"]
    unfolding n by (simp add: sl_iter_ops_def Iterator_Seek_def comparator.FindGreaterOrEqual_none [OF c wf]
        dropWhile_eq_drop)
qed

lemma sl_iter_sorted: "sl_iter_repr icmp it es p \<Longrightarrow> sorted_wrt (\<lambda>a b. icmp (fst a) (fst b) < 0) es"
  by (erule sl_iter_reprD) (drule sl_wfD(5), simp add: sorted_wrt_map entry_cmp_def)

lemma sl_iter_valid: "sl_iter_repr icmp it es p \<Longrightarrow> iValid (sl_iter_ops icmp v0) it \<longleftrightarrow> p \<noteq> None"
  by (erule sl_iter_reprD) (cases p; simp add: sl_iter_ops_def Iterator_Valid_def)

text \<open>Reads and moves at a valid position.\<close>

lemma sl_iter_moves:
  fixes v0 :: 'v
  assumes "comparator icmp" and "sl_iter_repr icmp it es (Some i)"
  shows "i < length es" and "iKey (sl_iter_ops icmp v0) it = Some (fst (es ! i))"
    and "iValue (sl_iter_ops icmp v0) it = Some (snd (es ! i))"
    and "\<exists>it'. iNext (sl_iter_ops icmp v0) it = Some it' \<and> sl_iter_repr icmp it' es (pos_of es (Suc i))"
    and "\<exists>it'. iPrev (sl_iter_ops icmp v0) it = Some it' \<and>
      sl_iter_repr icmp it' es (if i = 0 then None else Some (i - 1))"
proof -
  let ?sl = "it_list it" and ?cmp = "entry_cmp icmp :: 'a \<times> 'v \<Rightarrow> 'a \<times> 'v \<Rightarrow> int"
  have c: "comparator ?cmp" by (rule entry_cmp_comparator [OF assms(1)])
  obtain as where wf: "sl_wf ?cmp ?sl as" and es: "es = map (key_of ?sl) as"
    and i: "i < length as" "it_node it = Some (as ! i)" using sl_iter_reprD [OF assms(2)] by auto
  show "i < length es" using i es by simp
  have "as ! i < length (arena ?sl)" using sl_wf_nodes(1) [OF wf] i by simp
  then have key: "node_key_at ?sl (as ! i) = Some (es ! i)" "key_of ?sl (as ! i) = es ! i"
    using i es by (simp_all add: node_key_at_def key_of_def)
  then show "iKey (sl_iter_ops icmp v0) it = Some (fst (es ! i))"
    and "iValue (sl_iter_ops icmp v0) it = Some (snd (es ! i))"
    using i by (simp_all add: sl_iter_ops_def Iterator_key_def)
  have "chain ?sl 0 0 as" using level_chain [OF wf, of 0] level_nodes_0 [OF wf] by (simp add: kMaxHeight_def)
  from Next_nth [OF this i(1)] show "\<exists>it'. iNext (sl_iter_ops icmp v0) it = Some it' \<and>
      sl_iter_repr icmp it' es (pos_of es (Suc i))"
    using sl_iter_repr_node [OF wf es, of "Suc i"] i by (auto simp: sl_iter_ops_def Iterator_Next_def)
  have "FindLessThan ?cmp ?sl (es ! i) = Some (last (0 # take i as))"
    using comparator.FindLessThan_wf [OF c wf, of "es ! i"]
      comparator.takeWhile_before_nth [OF c sl_wfD(5) [OF wf] i(1)] key(2) by simp
  moreover have "last (0 # take i as) = (if i = 0 then 0 else as ! (i - 1))"
    using i(1) by (cases i) (simp_all add: take_Suc_conv_app_nth)
  moreover have "as ! (i - 1) \<noteq> 0" using sl_wf_nodes(3) [OF wf] i(1) by (simp add: less_imp_diff_less)
  ultimately show "\<exists>it'. iPrev (sl_iter_ops icmp v0) it = Some it' \<and>
      sl_iter_repr icmp it' es (if i = 0 then None else Some (i - 1))"
    using wf es i key(1) sl_wf_nodes(4) [OF wf]
    by (auto simp: sl_iter_ops_def Iterator_Prev_def sl_iter_repr_def simp del: last.simps)
qed

text \<open>The skip list's iterators satisfy the iterator contract.\<close>

lemma sl_entry_iterator:
  assumes c: "comparator icmp"
  shows "entry_iterator (sl_iter_ops icmp v0) icmp (sl_iter_repr icmp)"
  by unfold_locales (erule sl_iter_sorted sl_iter_valid sl_iter_moves [OF c] sl_iter_seeks [OF c])+

interpretation strlist: entry_iterator "sl_iter_ops string_compare ([] :: string)" string_compare "sl_iter_repr string_compare"
  by (rule sl_entry_iterator) (rule strcmp.comparator_axioms)

section \<open>Properties\<close>

text \<open>
  C2: inserting a key that no key of the list equals succeeds and puts it between the
  smaller and the larger keys, whatever height the generator draws.
\<close>

theorem skiplist_insert:
  assumes "comparator cmp" and "sl_rep cmp sl ks" and "\<forall>x \<in> set ks. cmp x key \<noteq> 0"
  shows "\<exists>sl'. Insert cmp next_rnd key sl = Some sl' \<and>
    sl_rep cmp sl' (filter (\<lambda>x. cmp x key < 0) ks @ key # filter (\<lambda>x. \<not> cmp x key < 0) ks)"
  by (rule comparator.sl_rep_Insert [OF assms])

theorem skiplist_insert_witness:
  "\<exists>sl sl'. SkipList '''' (7 :: nat) = Some sl \<and>
     Insert string_compare (\<lambda>r. (of_nat r, Suc r)) ''note'' sl = Some sl' \<and> sl_rep string_compare sl' [''note'']"
proof -
  from sl_rep_SkipList [of "''''" "7 :: nat" string_compare] obtain sl where sl: "SkipList '''' (7 :: nat) = Some sl" "sl_rep string_compare sl []"
    by blast
  from skiplist_insert [OF strcmp.comparator_axioms sl(2), of "''note''" "\<lambda>r. (of_nat r, Suc r)"] sl(1)
  show ?thesis by simp
qed

text \<open>
  \<open>Contains\<close> always returns, and returns true exactly for the keys that compare equal
  to a key of the list.
\<close>

theorem skiplist_contains:
  assumes "comparator cmp" and "sl_rep cmp sl ks"
  shows "Contains cmp sl key = Some (\<exists>x \<in> set ks. cmp key x = 0)"
  by (rule comparator.sl_rep_Contains [OF assms])

theorem skiplist_contains_witness:
  "\<exists>sl. SkipList '''' (7 :: nat) = Some sl \<and> Contains string_compare sl ''note'' = Some False"
proof -
  from sl_rep_SkipList [of "''''" "7 :: nat" string_compare] obtain sl where sl: "SkipList '''' (7 :: nat) = Some sl" "sl_rep string_compare sl []"
    by blast
  from skiplist_contains [OF strcmp.comparator_axioms sl(2), of "''note''"] sl(1) show ?thesis by simp
qed

text \<open>The memtable's use of the list: one insertion after another.\<close>

fun insert_all ::
    "('k \<Rightarrow> 'k \<Rightarrow> int) \<Rightarrow> ('r \<Rightarrow> 32 word \<times> 'r) \<Rightarrow> 'k list \<Rightarrow> ('k, 'r) skiplist \<Rightarrow> ('k, 'r) skiplist option" where
  "insert_all cmp next_rnd [] sl = Some sl"
| "insert_all cmp next_rnd (k # ks) sl = do { sl' \<leftarrow> Insert cmp next_rnd k sl; insert_all cmp next_rnd ks sl' }"

context comparator
begin

lemma sl_rep_insert_all:
  assumes "sl_rep cmp sl ks" and "sorted_wrt (\<lambda>a b. cmp a b \<noteq> 0) keys" and "\<forall>x \<in> set ks. \<forall>k \<in> set keys. cmp x k \<noteq> 0"
  shows "\<exists>sl' ks'. insert_all cmp f keys sl = Some sl' \<and> sl_rep cmp sl' ks' \<and> mset ks' = mset ks + mset keys"
  using assms
proof (induction keys arbitrary: sl ks)
  case (Cons k keys)
  let ?ks = "filter (\<lambda>x. cmp x k < 0) ks @ k # filter (\<lambda>x. \<not> cmp x k < 0) ks"
  from sl_rep_Insert [OF Cons.prems(1), of k f] Cons.prems(3) obtain sl1
    where sl1: "Insert cmp f k sl = Some sl1" "sl_rep cmp sl1 ?ks" by auto
  have m: "mset ?ks = mset ks + {#k#}" using multiset_partition [of "mset ks" "\<lambda>x. cmp x k < 0"] by (simp add: mset_filter)
  have "\<forall>x \<in> set ?ks. \<forall>k' \<in> set keys. cmp x k' \<noteq> 0" using Cons.prems(2,3) by auto
  from Cons.IH [OF sl1(2) _ this] Cons.prems(2) sl1(1) m show ?case by auto
qed auto

end

text \<open>
  C1: a list built from nothing by inserting pairwise different keys in any order holds
  exactly these keys in ascending order, and membership in it is membership among them.
\<close>

theorem skiplist_built:
  assumes "comparator cmp" and "sorted_wrt (\<lambda>a b. cmp a b \<noteq> 0) keys"
  shows "\<exists>sl0 sl ks. SkipList k0 seed = Some sl0 \<and> insert_all cmp next_rnd keys sl0 = Some sl \<and>
    sl_rep cmp sl ks \<and> mset ks = mset keys \<and> sorted_wrt (\<lambda>a b. cmp a b < 0) ks \<and>
    (\<forall>q. Contains cmp sl q = Some (\<exists>x \<in> set keys. cmp q x = 0))"
proof -
  obtain sl0 where sl0: "SkipList k0 seed = Some sl0" "sl_rep cmp sl0 []"
    using sl_rep_SkipList [of k0 seed cmp] by blast
  with comparator.sl_rep_insert_all [OF assms(1) sl0(2) assms(2), of next_rnd]
  obtain sl ks where sl: "insert_all cmp next_rnd keys sl0 = Some sl" "sl_rep cmp sl ks" "mset ks = mset keys"
    by auto
  with sl0(1) comparator.sl_rep_sorted [OF assms(1) sl(2)] comparator.sl_rep_Contains [OF assms(1) sl(2)]
    mset_eq_setD [OF sl(3)] show ?thesis by auto
qed

theorem skiplist_built_witness:
  "\<exists>sl0 sl. SkipList '''' (1 :: nat) = Some sl0 \<and>
     insert_all string_compare (\<lambda>r. (of_nat r, Suc r)) [''b'', ''c'', ''a''] sl0 = Some sl \<and>
     Contains string_compare sl ''a'' = Some True \<and> Contains string_compare sl ''d'' = Some False"
proof -
  have "sorted_wrt (\<lambda>a b. string_compare a b \<noteq> 0) [''b'', ''c'', ''a'']" by (simp add: string_compare.simps)
  from skiplist_built [OF strcmp.comparator_axioms this, of "''''" "1 :: nat" "\<lambda>r. (of_nat r, Suc r)"]
  show ?thesis by (force simp: string_compare.simps)
qed

text \<open>
  An iterator made over a list and positioned by \<open>SeekToFirst\<close> or \<open>Seek\<close> walks, by
  \<open>Next\<close>, over all the entries, or over those not before the sought key, in order, and ends.
\<close>

theorem skiplist_scan:
  assumes "comparator icmp" and "sl_rep (entry_cmp icmp) sl es" and "length es \<le> n"
  shows "(\<exists>it. Iterator_SeekToFirst (Iterator sl) = Some it \<and> collect (sl_iter_ops icmp v0) n it = Some es) \<and>
    (\<exists>it. Iterator_Seek (entry_cmp icmp) (t, v0) (Iterator sl) = Some it \<and>
      collect (sl_iter_ops icmp v0) n it = Some (dropWhile (\<lambda>e. icmp (fst e) t < 0) es))"
proof -
  have r: "sl_iter_repr icmp (Iterator sl) es None"
    using assms(2) by (auto simp: sl_rep_def sl_iter_repr_def Iterator_def)
  have it: "entry_iterator (sl_iter_ops icmp v0) icmp (sl_iter_repr icmp)" by (rule sl_entry_iterator [OF assms(1)])
  from entry_iterator.scan_all [OF it r assms(3)] entry_iterator.scan_from [OF it r assms(3), of t]
  show ?thesis by (simp add: sl_iter_ops_def)
qed

theorem skiplist_scan_witness:
  "\<exists>sl0 sl it. SkipList ('''', 0 :: int) (7 :: nat) = Some sl0 \<and>
     Insert (entry_cmp string_compare) (\<lambda>r. (of_nat r, Suc r)) (''note'', 5) sl0 = Some sl \<and>
     Iterator_SeekToFirst (Iterator sl) = Some it \<and>
     collect (sl_iter_ops string_compare 0) 1 it = Some [(''note'', 5)]"
proof -
  let ?cmp = "entry_cmp string_compare :: string \<times> int \<Rightarrow> _"
  from sl_rep_SkipList [of "('''', 0 :: int)" "7 :: nat" ?cmp] obtain sl0
    where sl0: "SkipList ('''', 0 :: int) (7 :: nat) = Some sl0" "sl_rep ?cmp sl0 []" by blast
  from comparator.sl_rep_Insert [OF entry_cmp_comparator [OF strcmp.comparator_axioms] sl0(2),
      of "(''note'', 5)" "\<lambda>r. (of_nat r, Suc r)"] obtain sl
    where sl: "Insert ?cmp (\<lambda>r. (of_nat r, Suc r)) (''note'', 5) sl0 = Some sl" "sl_rep ?cmp sl [(''note'', 5)]"
    by auto
  from skiplist_scan [OF strcmp.comparator_axioms sl(2), of 1 0] sl0(1) sl(1) show ?thesis by auto
qed

end
