(* ===== verification/Remote.thy ===== *)
theory Remote
  imports Prelude Complex_Main
begin

text \<open>
  The state machines the Firestore client keeps towards the backend: the generators of
  target identifiers (\<open>core/target_id_generator\<close>), the exponential backoff between
  stream attempts (\<open>remote/exponential_backoff\<close>) and the tracker of the online state
  (\<open>remote/online_state_tracker\<close>).
\<close>

unbundle bit_operations_syntax

section \<open>Target identifiers\<close>

text \<open>
  A \<open>TargetId\<close> is an \<open>int32_t\<close>; an addition that leaves its range is a signed overflow
  and has no result.
\<close>

datatype TargetIdGeneratorId = TargetCache | SyncEngine

definition generator_number :: "TargetIdGeneratorId \<Rightarrow> int" where
  "generator_number i = (case i of TargetCache \<Rightarrow> 0 | SyncEngine \<Rightarrow> 1)"

record target_id_generator =
  generator_id :: TargetIdGeneratorId
  next_id :: int

definition kReservedBits :: nat where
  "kReservedBits = 1"

definition seek :: "int \<Rightarrow> target_id_generator \<Rightarrow> target_id_generator result" where
  "seek target_id g =
     (let generator = generator_number (generator_id g)
      in hard_assert (target_id AND generator = generator) (Inr (g\<lparr>next_id := target_id\<rparr>)))"

definition TargetIdGenerator :: "TargetIdGeneratorId \<Rightarrow> int \<Rightarrow> target_id_generator result" where
  "TargetIdGenerator i seed = seek seed \<lparr>generator_id = i, next_id = 0\<rparr>"

definition NextId :: "target_id_generator \<Rightarrow> (int \<times> target_id_generator) result" where
  "NextId g =
     (let n = next_id g; n' = n + push_bit kReservedBits 1
      in if n' < 2 ^ 31 then Inr (n, g\<lparr>next_id := n'\<rparr>) else Inl Signed_overflow)"

definition TargetCacheTargetIdGenerator :: "int \<Rightarrow> target_id_generator result" where
  "TargetCacheTargetIdGenerator after =
     bind_result (TargetIdGenerator TargetCache after) (\<lambda>g.
     bind_result (NextId g) (\<lambda>(_, g'). Inr g'))"

definition SyncEngineTargetIdGenerator :: "target_id_generator result" where
  "SyncEngineTargetIdGenerator = TargetIdGenerator SyncEngine 1"

fun next_ids :: "nat \<Rightarrow> target_id_generator \<Rightarrow> (int list \<times> target_id_generator) result" where
  "next_ids 0 g = Inr ([], g)"
| "next_ids (Suc n) g =
     bind_result (NextId g) (\<lambda>(i, g').
     bind_result (next_ids n g') (\<lambda>(is, g''). Inr (i # is, g'')))"

lemma and_one_self: "(x :: int) AND 1 = 1 \<longleftrightarrow> odd x"
  by (simp add: and_one_eq odd_iff_mod_2_eq_one)

lemma next_ids_ok:
  "next_id g + 2 * int n < 2 ^ 31 \<Longrightarrow>
     next_ids n g = Inr (map (\<lambda>i. next_id g + 2 * int i) [0..<n], g\<lparr>next_id := next_id g + 2 * int n\<rparr>)"
proof (induction n arbitrary: g)
  case (Suc n)
  have "map (\<lambda>i. next_id g + 2 * int i) [0..<Suc n] =
      next_id g # map (\<lambda>i. next_id g + 2 + 2 * int i) [0..<n]"
    by (simp add: upt_conv_Cons map_Suc_upt [symmetric] comp_def del: upt_Suc)
  moreover have "next_id g + 2 < 2 ^ 31" using Suc.prems by simp
  ultimately show ?case
    using Suc.IH [of "g\<lparr>next_id := next_id g + 2\<rparr>"] Suc.prems
    by (simp add: NextId_def Let_def kReservedBits_def push_bit_eq_mult algebra_simps)
qed auto

lemma target_cache_generator:
  "after + 2 < 2 ^ 31 \<Longrightarrow>
     TargetCacheTargetIdGenerator after = Inr \<lparr>generator_id = TargetCache, next_id = after + 2\<rparr>"
  by (simp add: TargetCacheTargetIdGenerator_def TargetIdGenerator_def seek_def generator_number_def
      NextId_def kReservedBits_def push_bit_eq_mult)

lemma sync_engine_generator:
  "SyncEngineTargetIdGenerator = Inr \<lparr>generator_id = SyncEngine, next_id = 1\<rparr>"
  by (simp add: SyncEngineTargetIdGenerator_def TargetIdGenerator_def seek_def generator_number_def)

text \<open>
  C18: started after an even identifier, the target cache's generator and the sync engine's
  generator produce ascending identifiers that never overlap, up to the end of \<open>int32_t\<close>.
\<close>

theorem target_ids_disjoint:
  assumes "even after" and "after + 2 * (int n + 1) < 2 ^ 31" and "2 * int m + 1 < 2 ^ 31"
  shows "\<exists>g g' xs s s' ys. TargetCacheTargetIdGenerator after = Inr g \<and> next_ids n g = Inr (xs, g') \<and>
    SyncEngineTargetIdGenerator = Inr s \<and> next_ids m s = Inr (ys, s') \<and>
    length xs = n \<and> length ys = m \<and>
    sorted_wrt (<) (after # xs) \<and> sorted_wrt (<) ys \<and> set xs \<inter> set ys = {}"
proof -
  let ?xs = "map (\<lambda>i. after + 2 + 2 * int i) [0..<n]" and ?ys = "map (\<lambda>i. 1 + 2 * int i) [0..<m]"
  have asc: "sorted_wrt (<) (map (\<lambda>i. a + 2 * int i) [0..<k])" for a k
    by (auto simp: sorted_wrt_map intro: sorted_wrt_mono_rel [OF _ sorted_wrt_upt])
  have "even x" if "x \<in> set ?xs" for x using that assms(1) by auto
  moreover have "odd y" if "y \<in> set ?ys" for y using that by auto
  ultimately have "set ?xs \<inter> set ?ys = {}" by blast
  then show ?thesis
    using next_ids_ok [of "\<lparr>generator_id = TargetCache, next_id = after + 2\<rparr>" n] assms(2,3)
      next_ids_ok [of "\<lparr>generator_id = SyncEngine, next_id = 1\<rparr>" m] asc [of "after + 2" n] asc [of 1 m]
    by (force simp: target_cache_generator sync_engine_generator)
qed

theorem target_ids_disjoint_witness:
  "\<exists>g g' xs s s' ys. TargetCacheTargetIdGenerator 6 = Inr g \<and> next_ids 3 g = Inr (xs, g') \<and>
     SyncEngineTargetIdGenerator = Inr s \<and> next_ids 4 s = Inr (ys, s') \<and>
     length xs = 3 \<and> length ys = 4 \<and> set xs \<inter> set ys = {}"
  using target_ids_disjoint [of 6 3 4] by simp blast

text \<open>
  The check in \<open>seek\<close> refuses nothing for the target cache's generator: started after an
  odd identifier it is accepted and hands out an identifier of the sync engine's generator.
\<close>

theorem target_cache_accepts_odd_seed:
  "\<exists>g g' s s' ids. TargetCacheTargetIdGenerator 1 = Inr g \<and> NextId g = Inr (3, g') \<and>
     SyncEngineTargetIdGenerator = Inr s \<and> next_ids 2 s = Inr (ids, s') \<and> 3 \<in> set ids"
proof -
  have "next_ids 2 \<lparr>generator_id = SyncEngine, next_id = 1\<rparr> = Inr ([1, 3], \<lparr>generator_id = SyncEngine, next_id = 5\<rparr>)"
    by (subst next_ids_ok) (simp_all add: upt_rec)
  then show ?thesis
    by (simp add: target_cache_generator sync_engine_generator NextId_def kReservedBits_def push_bit_eq_mult)
qed

section \<open>Exponential backoff\<close>

text \<open>
  Delays are in milliseconds, points of the steady clock in nanoseconds. The two
  computations on doubles are parameters: \<open>mul base factor\<close> is
  \<open>duration_cast<Milliseconds>(base * factor)\<close> and \<open>jit r base\<close> is
  \<open>duration_cast<Milliseconds>((r - 0.5) * base)\<close>. What the queue is told to do is kept
  in \<open>eb_log\<close>, newest first.
\<close>

datatype 'op queue_cmd = Cancel_delayed | Enqueue_after int 'op

record 'op backoff =
  backoff_factor :: real
  current_base :: int
  initial_delay :: int
  max_delay :: int
  last_attempt_time :: int
  eb_log :: "'op queue_cmd list"

definition kDefaultBackoffInitialDelay :: int where
  "kDefaultBackoffInitialDelay = 1000"

definition kDefaultBackoffFactor :: real where
  "kDefaultBackoffFactor = 1.5"

definition kDefaultBackoffMaxDelay :: int where
  "kDefaultBackoffMaxDelay = 60 * 1000"

definition ExponentialBackoff :: "bool \<Rightarrow> real \<Rightarrow> int \<Rightarrow> int \<Rightarrow> int \<Rightarrow> 'op backoff result" where
  "ExponentialBackoff queue factor initial maxd now =
     hard_assert queue (hard_assert (factor \<ge> 1) (hard_assert (initial \<ge> 0) (hard_assert (maxd \<ge> 0)
     (hard_assert (initial \<le> maxd)
       (Inr \<lparr>backoff_factor = factor, current_base = 0, initial_delay = initial, max_delay = maxd,
             last_attempt_time = now, eb_log = []\<rparr>)))))"

definition ExponentialBackoff_default :: "bool \<Rightarrow> int \<Rightarrow> 'op backoff result" where
  "ExponentialBackoff_default queue now =
     ExponentialBackoff queue kDefaultBackoffFactor kDefaultBackoffInitialDelay kDefaultBackoffMaxDelay now"





























section \<open>Online state\<close>

text \<open>
  \<open>util::DelayedOperation\<close> and the queue that schedules it are a parameter: what
  \<open>EnqueueAfterDelay\<close> returns, \<open>Cancel\<close>, the empty operation, and the conversion to \<open>bool\<close>.
  The calls of \<open>online_state_handler\<close> and the log are kept, newest first.
\<close>

datatype OnlineState = Unknown | Online | Offline

datatype offline_reason = Not_responding int | Connection_failed int string

datatype log_entry = Log_warn offline_reason | Log_debug offline_reason

record 't timer_api =
  timer_none :: 't
  timer_enqueue :: "int \<Rightarrow> 't"
  timer_cancel :: "'t \<Rightarrow> 't"
  timer_pending :: "'t \<Rightarrow> bool"

definition timer_laws :: "'t timer_api \<Rightarrow> bool" where
  "timer_laws api \<longleftrightarrow> \<not> timer_pending api (timer_none api) \<and> (\<forall>d. timer_pending api (timer_enqueue api d)) \<and>
     (\<forall>t. \<not> timer_pending api (timer_cancel api t))"

record 't tracker =
  online_state :: OnlineState
  watch_stream_failures :: int
  online_state_timer :: 't
  should_warn_client_is_offline :: bool
  broadcasts :: "OnlineState list"
  tracker_log :: "log_entry list"

definition kMaxWatchStreamFailures :: int where
  "kMaxWatchStreamFailures = 1"

definition kOnlineStateTimeout :: int where
  "kOnlineStateTimeout = 10 * 1000"

definition OnlineStateTracker :: "'t timer_api \<Rightarrow> 't tracker" where
  "OnlineStateTracker api =
     \<lparr>online_state = Unknown, watch_stream_failures = 0, online_state_timer = timer_none api,
      should_warn_client_is_offline = True, broadcasts = [], tracker_log = []\<rparr>"

definition SetAndBroadcast :: "OnlineState \<Rightarrow> 't tracker \<Rightarrow> 't tracker" where
  "SetAndBroadcast new_state t =
     (if new_state \<noteq> online_state t
      then t\<lparr>online_state := new_state, broadcasts := new_state # broadcasts t\<rparr>
      else t)"

definition LogClientOfflineWarningIfNecessary :: "offline_reason \<Rightarrow> 't tracker \<Rightarrow> 't tracker" where
  "LogClientOfflineWarningIfNecessary reason t =
     (if should_warn_client_is_offline t
      then t\<lparr>tracker_log := Log_warn reason # tracker_log t, should_warn_client_is_offline := False\<rparr>
      else t\<lparr>tracker_log := Log_debug reason # tracker_log t\<rparr>)"

definition ClearOnlineStateTimer :: "'t timer_api \<Rightarrow> 't tracker \<Rightarrow> 't tracker" where
  "ClearOnlineStateTimer api t = t\<lparr>online_state_timer := timer_cancel api (online_state_timer t)\<rparr>"

definition HandleWatchStreamStart :: "'t timer_api \<Rightarrow> 't tracker \<Rightarrow> 't tracker result" where
  "HandleWatchStreamStart api t =
     (if watch_stream_failures t \<noteq> 0 then Inr t
      else let t = SetAndBroadcast Unknown t
           in hard_assert (\<not> timer_pending api (online_state_timer t))
                (Inr (t\<lparr>online_state_timer := timer_enqueue api kOnlineStateTimeout\<rparr>)))"

text \<open>The operation scheduled there, when the queue runs it.\<close>

definition OnlineStateTimeout :: "'t timer_api \<Rightarrow> 't tracker \<Rightarrow> 't tracker result" where
  "OnlineStateTimeout api t0 =
     (let t = t0\<lparr>online_state_timer := timer_none api\<rparr>
      in hard_assert (online_state t = Unknown)
           (Inr (SetAndBroadcast Offline
             (LogClientOfflineWarningIfNecessary (Not_responding (kOnlineStateTimeout div 1000)) t))))"

definition HandleWatchStreamFailure :: "'t timer_api \<Rightarrow> string \<Rightarrow> 't tracker \<Rightarrow> 't tracker result" where
  "HandleWatchStreamFailure api error t =
     (if online_state t = Online
      then let t = SetAndBroadcast Unknown t
           in hard_assert (watch_stream_failures t = 0)
                (hard_assert (\<not> timer_pending api (online_state_timer t)) (Inr t))
      else let t = t\<lparr>watch_stream_failures := watch_stream_failures t + 1\<rparr>
           in if watch_stream_failures t \<ge> kMaxWatchStreamFailures
              then Inr (SetAndBroadcast Offline
                (LogClientOfflineWarningIfNecessary (Connection_failed kMaxWatchStreamFailures error)
                  (ClearOnlineStateTimer api t)))
              else Inr t)"

definition UpdateState :: "'t timer_api \<Rightarrow> OnlineState \<Rightarrow> 't tracker \<Rightarrow> 't tracker" where
  "UpdateState api new_state t0 =
     (let t = (ClearOnlineStateTimer api t0)\<lparr>watch_stream_failures := 0\<rparr>;
          t = (if new_state = Online then t\<lparr>should_warn_client_is_offline := False\<rparr> else t)
      in SetAndBroadcast new_state t)"

text \<open>
  The queue runs the tracker's operations one at a time; the timeout runs only while it is
  scheduled. A step is an operation that returns.
\<close>

inductive tracker_reach :: "'t timer_api \<Rightarrow> 't tracker \<Rightarrow> bool" for api where
  reach_init: "tracker_reach api (OnlineStateTracker api)"
| reach_start: "tracker_reach api t \<Longrightarrow> HandleWatchStreamStart api t = Inr t' \<Longrightarrow> tracker_reach api t'"
| reach_failure: "tracker_reach api t \<Longrightarrow> HandleWatchStreamFailure api e t = Inr t' \<Longrightarrow> tracker_reach api t'"
| reach_update: "tracker_reach api t \<Longrightarrow> tracker_reach api (UpdateState api s t)"
| reach_timeout: "tracker_reach api t \<Longrightarrow> timer_pending api (online_state_timer t) \<Longrightarrow>
    OnlineStateTimeout api t = Inr t' \<Longrightarrow> tracker_reach api t'"

fun is_warning :: "log_entry \<Rightarrow> bool" where
  "is_warning (Log_warn r) = True"
| "is_warning (Log_debug r) = False"

definition tracker_inv :: "'t timer_api \<Rightarrow> 't tracker \<Rightarrow> bool" where
  "tracker_inv api t \<longleftrightarrow>
     (timer_pending api (online_state_timer t) \<longrightarrow> online_state t = Unknown \<and> watch_stream_failures t = 0) \<and>
     (online_state t = Online \<longrightarrow> watch_stream_failures t = 0) \<and> 0 \<le> watch_stream_failures t \<and>
     hd (broadcasts t @ [Unknown]) = online_state t \<and> distinct_adj (broadcasts t @ [Unknown]) \<and>
     length (filter is_warning (tracker_log t)) + (if should_warn_client_is_offline t then 1 else 0) \<le> 1"

lemmas tracker_defs = SetAndBroadcast_def LogClientOfflineWarningIfNecessary_def ClearOnlineStateTimer_def
  HandleWatchStreamStart_def OnlineStateTimeout_def HandleWatchStreamFailure_def UpdateState_def
  kMaxWatchStreamFailures_def Let_def

lemma broadcasts_grow:
  "s \<noteq> hd (bs @ [Unknown]) \<Longrightarrow> distinct_adj (bs @ [Unknown]) \<Longrightarrow> distinct_adj (s # bs @ [Unknown])"
  by (cases bs) simp_all

lemma SetAndBroadcast_inv:
  "hd (broadcasts t @ [Unknown]) = online_state t \<Longrightarrow> distinct_adj (broadcasts t @ [Unknown]) \<Longrightarrow>
   hd (broadcasts (SetAndBroadcast s t) @ [Unknown]) = s \<and> distinct_adj (broadcasts (SetAndBroadcast s t) @ [Unknown])"
  using broadcasts_grow [of s "broadcasts t"] by (simp add: SetAndBroadcast_def)

lemma SetAndBroadcast_simps [simp]:
  "online_state (SetAndBroadcast s t) = s"
  "watch_stream_failures (SetAndBroadcast s t) = watch_stream_failures t"
  "online_state_timer (SetAndBroadcast s t) = online_state_timer t"
  "should_warn_client_is_offline (SetAndBroadcast s t) = should_warn_client_is_offline t"
  "tracker_log (SetAndBroadcast s t) = tracker_log t"
  by (simp_all add: SetAndBroadcast_def)

lemma LogClientOfflineWarning_simps [simp]:
  "online_state (LogClientOfflineWarningIfNecessary r t) = online_state t"
  "watch_stream_failures (LogClientOfflineWarningIfNecessary r t) = watch_stream_failures t"
  "online_state_timer (LogClientOfflineWarningIfNecessary r t) = online_state_timer t"
  "broadcasts (LogClientOfflineWarningIfNecessary r t) = broadcasts t"
  by (simp_all add: LogClientOfflineWarningIfNecessary_def)

lemma tracker_inv_reach:
  assumes "timer_laws api" and "tracker_reach api t"
  shows "tracker_inv api t"
  using assms(2)
proof induction
  case reach_init
  show ?case using assms(1) by (simp add: tracker_inv_def OnlineStateTracker_def timer_laws_def)
next
  case (reach_start t t')
  with SetAndBroadcast_inv [of t Unknown] show ?case
    by (auto simp: tracker_inv_def HandleWatchStreamStart_def Let_def split: if_splits)
next
  case (reach_failure t e t')
  have ?case if "online_state t = Online"
    using reach_failure that SetAndBroadcast_inv [of t Unknown]
    by (auto simp: tracker_inv_def HandleWatchStreamFailure_def Let_def)
  moreover have ?case if "online_state t \<noteq> Online"
  proof -
    let ?t = "LogClientOfflineWarningIfNecessary (Connection_failed kMaxWatchStreamFailures e)
      (ClearOnlineStateTimer api (t\<lparr>watch_stream_failures := watch_stream_failures t + 1\<rparr>))"
    have "t' = SetAndBroadcast Offline ?t"
      using reach_failure that by (simp add: HandleWatchStreamFailure_def Let_def kMaxWatchStreamFailures_def tracker_inv_def)
    then show ?thesis using reach_failure.IH SetAndBroadcast_inv [of ?t Offline] assms(1)
      by (auto simp: tracker_inv_def ClearOnlineStateTimer_def timer_laws_def LogClientOfflineWarningIfNecessary_def)
  qed
  ultimately show ?case by blast
next
  case (reach_update t s)
  let ?t = "(ClearOnlineStateTimer api t)\<lparr>watch_stream_failures := 0\<rparr>"
  let ?u = "if s = Online then ?t\<lparr>should_warn_client_is_offline := False\<rparr> else ?t"
  have "UpdateState api s t = SetAndBroadcast s ?u" by (simp add: UpdateState_def Let_def)
  then show ?case using reach_update.IH SetAndBroadcast_inv [of ?u s] assms(1)
    by (auto simp: tracker_inv_def ClearOnlineStateTimer_def timer_laws_def split: if_splits)
next
  case (reach_timeout t t')
  let ?t = "LogClientOfflineWarningIfNecessary (Not_responding (kOnlineStateTimeout div 1000))
    (t\<lparr>online_state_timer := timer_none api\<rparr>)"
  have "t' = SetAndBroadcast Offline ?t" using reach_timeout by (simp add: OnlineStateTimeout_def Let_def)
  then show ?case using reach_timeout.IH SetAndBroadcast_inv [of ?t Offline] assms(1)
    by (auto simp: tracker_inv_def timer_laws_def LogClientOfflineWarningIfNecessary_def split: if_splits)
qed

text \<open>
  C21: in every reachable state the assertions of the failure handler and of the timeout hold;
  a failure takes an online client to unknown and any other one to offline with no timer left;
  the start handler's assertion fails exactly when the timer of the first attempt still runs.
\<close>

theorem tracker_assertions_hold:
  assumes "timer_laws api" and "tracker_reach api t"
  shows "(\<exists>t'. HandleWatchStreamFailure api e t = Inr t' \<and>
      online_state t' = (if online_state t = Online then Unknown else Offline) \<and>
      \<not> timer_pending api (online_state_timer t')) \<and>
    (timer_pending api (online_state_timer t) \<longrightarrow>
      (\<exists>t'. OnlineStateTimeout api t = Inr t' \<and> online_state t' = Offline)) \<and>
    (HandleWatchStreamStart api t = Inl Assert_failed \<longleftrightarrow>
      watch_stream_failures t = 0 \<and> timer_pending api (online_state_timer t))"
  using tracker_inv_reach [OF assms] assms(1)
  by (auto simp: tracker_inv_def HandleWatchStreamFailure_def OnlineStateTimeout_def HandleWatchStreamStart_def
      ClearOnlineStateTimer_def kMaxWatchStreamFailures_def timer_laws_def Let_def hard_assert_def)

theorem tracker_assertions_hold_witness:
  "let api = \<lparr>timer_none = False, timer_enqueue = (\<lambda>d. True), timer_cancel = (\<lambda>t. False), timer_pending = (\<lambda>t. t)\<rparr>
   in \<exists>t'. HandleWatchStreamFailure api ''reset'' (UpdateState api Online (OnlineStateTracker api)) = Inr t' \<and>
        online_state t' = Unknown"
proof -
  let ?api = "\<lparr>timer_none = False, timer_enqueue = (\<lambda>d. True), timer_cancel = (\<lambda>t. False), timer_pending = (\<lambda>t. t)\<rparr>"
  have "timer_laws ?api" by (simp add: timer_laws_def)
  moreover have "tracker_reach ?api (UpdateState ?api Online (OnlineStateTracker ?api))"
    by (intro tracker_reach.reach_update tracker_reach.reach_init)
  ultimately show ?thesis
    using tracker_assertions_hold [of ?api "UpdateState ?api Online (OnlineStateTracker ?api)" "''reset''"]
    by (auto simp: UpdateState_def Let_def)
qed

text \<open>
  C22: the handler is told every change of the state and nothing else: the state is the one last
  broadcast, no state is broadcast twice in a row, and the developer is warned at most once.
\<close>

theorem tracker_broadcasts:
  assumes "timer_laws api" and "tracker_reach api t"
  shows "online_state t = hd (broadcasts t @ [Unknown]) \<and> distinct_adj (broadcasts t @ [Unknown]) \<and>
    length (filter is_warning (tracker_log t)) \<le> 1"
  using tracker_inv_reach [OF assms] by (auto simp: tracker_inv_def split: if_splits)

theorem tracker_broadcasts_witness:
  "let api = \<lparr>timer_none = False, timer_enqueue = (\<lambda>d. True), timer_cancel = (\<lambda>t. False), timer_pending = (\<lambda>t. t)\<rparr>
   in distinct_adj (broadcasts (UpdateState api Offline (UpdateState api Online (OnlineStateTracker api))) @ [Unknown])"
proof -
  let ?api = "\<lparr>timer_none = False, timer_enqueue = (\<lambda>d. True), timer_cancel = (\<lambda>t. False), timer_pending = (\<lambda>t. t)\<rparr>"
  have "timer_laws ?api" by (simp add: timer_laws_def)
  moreover have "tracker_reach ?api (UpdateState ?api Offline (UpdateState ?api Online (OnlineStateTracker ?api)))"
    by (intro tracker_reach.reach_update tracker_reach.reach_init)
  ultimately show ?thesis using tracker_broadcasts [of ?api] unfolding Let_def by blast
qed

end
