(* ===== verification/String_Views.thy ===== *)
theory String_Views
  imports Prelude "HOL-Library.Sublist"
begin

text \<open>
  The searches and the padded output of \<open>absl::string_view\<close>
  (\<open>absl/strings/string_view.cc\<close>) and the successors of a string in byte order
  (\<open>util/string_util.cc\<close>), which the local store uses as the ends of key ranges.
\<close>

section \<open>Searches of string views\<close>

text \<open>
  \<open>npos\<close> is the result \<open>None\<close>. \<open>memmatch\<close> (\<open>memutil.h\<close>) is a parameter; \<open>memchr\<close> and
  \<open>std::find_end\<close> are those of the standard library.
\<close>

type_synonym lookup_table = "bool list"

definition Index :: "char \<Rightarrow> nat" where
  "Index c = of_char c"

definition LookupTable :: "string \<Rightarrow> lookup_table" where
  "LookupTable wanted = fold (\<lambda>c tbl. tbl[Index c := True]) wanted (replicate 256 False)"

definition lookup :: "lookup_table \<Rightarrow> char \<Rightarrow> bool" where
  "lookup tbl c = tbl ! Index c"

function up_from :: "(char \<Rightarrow> bool) \<Rightarrow> string \<Rightarrow> nat \<Rightarrow> nat option" where
  "up_from P v i = (if i < length v then if P (v ! i) then Some i else up_from P v (Suc i) else None)"
  by auto
termination by (relation "measure (\<lambda>(P, v, i). length v - i)") auto

declare up_from.simps [simp del]

fun down_from :: "(char \<Rightarrow> bool) \<Rightarrow> string \<Rightarrow> nat \<Rightarrow> nat option" where
  "down_from P v 0 = (if P (v ! 0) then Some 0 else None)"
| "down_from P v (Suc i) = (if P (v ! Suc i) then Some (Suc i) else down_from P v i)"

definition memchr :: "string \<Rightarrow> char \<Rightarrow> nat option" where
  "memchr s c = (let n = length (takeWhile (\<lambda>x. x \<noteq> c) s) in if n < length s then Some n else None)"

definition matches_at :: "string \<Rightarrow> string \<Rightarrow> nat \<Rightarrow> bool" where
  "matches_at v s i \<longleftrightarrow> i + length s \<le> length v \<and> take (length s) (drop i v) = s"

definition find_end :: "string \<Rightarrow> string \<Rightarrow> nat" where
  "find_end h n = (case rev (filter (matches_at h n) [0..<length h]) of [] \<Rightarrow> length h | i # _ \<Rightarrow> i)"

definition sv_find :: "(string \<Rightarrow> string \<Rightarrow> nat option) \<Rightarrow> string \<Rightarrow> string \<Rightarrow> nat \<Rightarrow> nat option" where
  "sv_find memmatch v s pos =
     (if v = [] \<or> pos > length v then if v = [] \<and> pos = 0 \<and> s = [] then Some 0 else None
      else map_option (\<lambda>r. pos + r) (memmatch (drop pos v) s))"

definition sv_find_char :: "string \<Rightarrow> char \<Rightarrow> nat \<Rightarrow> nat option" where
  "sv_find_char v c pos =
     (if v = [] \<or> pos \<ge> length v then None else map_option (\<lambda>r. pos + r) (memchr (drop pos v) c))"

definition rfind :: "string \<Rightarrow> string \<Rightarrow> nat \<Rightarrow> nat option" where
  "rfind v s pos =
     (if length v < length s then None
      else if s = [] then Some (min (length v) pos)
      else let last = min (length v - length s) pos + length s;
               result = find_end (take last v) s
           in if result \<noteq> last then Some result else None)"

definition rfind_char :: "string \<Rightarrow> char \<Rightarrow> nat \<Rightarrow> nat option" where
  "rfind_char v c pos = (if v = [] then None else down_from (\<lambda>x. x = c) v (min pos (length v - 1)))"

definition find_first_of :: "string \<Rightarrow> string \<Rightarrow> nat \<Rightarrow> nat option" where
  "find_first_of v s pos =
     (if v = [] \<or> s = [] then None
      else if length s = 1 then sv_find_char v (s ! 0) pos
      else let tbl = LookupTable s in up_from (lookup tbl) v pos)"

definition find_first_not_of_char :: "string \<Rightarrow> char \<Rightarrow> nat \<Rightarrow> nat option" where
  "find_first_not_of_char v c pos = (if v = [] then None else up_from (\<lambda>x. x \<noteq> c) v pos)"

definition find_first_not_of :: "string \<Rightarrow> string \<Rightarrow> nat \<Rightarrow> nat option" where
  "find_first_not_of v s pos =
     (if v = [] then None
      else if length s = 1 then find_first_not_of_char v (s ! 0) pos
      else let tbl = LookupTable s in up_from (\<lambda>c. \<not> lookup tbl c) v pos)"

definition find_last_of :: "string \<Rightarrow> string \<Rightarrow> nat \<Rightarrow> nat option" where
  "find_last_of v s pos =
     (if v = [] \<or> s = [] then None
      else if length s = 1 then rfind_char v (s ! 0) pos
      else let tbl = LookupTable s in down_from (lookup tbl) v (min pos (length v - 1)))"

definition find_last_not_of_char :: "string \<Rightarrow> char \<Rightarrow> nat \<Rightarrow> nat option" where
  "find_last_not_of_char v c pos =
     (if v = [] then None else down_from (\<lambda>x. x \<noteq> c) v (min pos (length v - 1)))"

definition find_last_not_of :: "string \<Rightarrow> string \<Rightarrow> nat \<Rightarrow> nat option" where
  "find_last_not_of v s pos =
     (if v = [] then None
      else let i = min pos (length v - 1)
           in if s = [] then Some i
              else if length s = 1 then find_last_not_of_char v (s ! 0) pos
              else let tbl = LookupTable s in down_from (\<lambda>c. \<not> lookup tbl c) v i)"

text \<open>Reference: the first and the last index with a property.\<close>

definition first_index :: "(nat \<Rightarrow> bool) \<Rightarrow> nat \<Rightarrow> nat option" where
  "first_index Q n = (case filter Q [0..<n] of [] \<Rightarrow> None | i # _ \<Rightarrow> Some i)"

definition last_index :: "(nat \<Rightarrow> bool) \<Rightarrow> nat \<Rightarrow> nat option" where
  "last_index Q n = (case rev (filter Q [0..<n]) of [] \<Rightarrow> None | i # _ \<Rightarrow> Some i)"

lemma upt_around: "i < n \<Longrightarrow> [0..<n] = [0..<i] @ i # [Suc i..<n]"
  using upt_add_eq_append [of 0 i "n - i"] by (simp add: upt_conv_Cons)

lemma first_index_eq: "i < n \<Longrightarrow> Q i \<Longrightarrow> \<forall>j < i. \<not> Q j \<Longrightarrow> first_index Q n = Some i"
proof -
  assume i: "i < n" "Q i" "\<forall>j < i. \<not> Q j"
  show ?thesis using i(2,3) by (simp add: upt_around [OF i(1)] first_index_def filter_empty_conv)
qed

lemma first_index_None: "(\<forall>i < n. \<not> Q i) \<Longrightarrow> first_index Q n = None"
  by (simp add: first_index_def filter_empty_conv split: list.splits)

lemma last_index_eq: "i < n \<Longrightarrow> Q i \<Longrightarrow> \<forall>j. i < j \<and> j < n \<longrightarrow> \<not> Q j \<Longrightarrow> last_index Q n = Some i"
proof -
  assume i: "i < n" "Q i" "\<forall>j. i < j \<and> j < n \<longrightarrow> \<not> Q j"
  have "filter Q [Suc i..<n] = []" using i(3) by (auto simp: filter_empty_conv)
  then show ?thesis using i(2) by (simp add: upt_around [OF i(1)] last_index_def)
qed

lemma last_index_None: "(\<forall>i < n. \<not> Q i) \<Longrightarrow> last_index Q n = None"
  by (simp add: last_index_def filter_empty_conv split: list.splits)

lemma LookupTable_lookup: "lookup (LookupTable s) c \<longleftrightarrow> c \<in> set s"
proof -
  have "lookup (fold (\<lambda>c tbl. tbl[Index c := True]) s tbl) c \<longleftrightarrow> c \<in> set s \<or> lookup tbl c" if "length tbl = 256" for tbl
    using that
  proof (induction s arbitrary: tbl)
    case (Cons x s)
    have "(of_char x :: nat) < 256" by (rule nat_of_char_less_256)
    then show ?case using Cons.IH [of "tbl[Index x := True]"] Cons.prems
      by (auto simp: lookup_def Index_def nth_list_update)
  qed simp
  moreover have "(of_char c :: nat) < 256" by (rule nat_of_char_less_256)
  ultimately show ?thesis by (simp add: LookupTable_def lookup_def Index_def)
qed

lemma up_from_first: "up_from P v pos = first_index (\<lambda>i. pos \<le> i \<and> P (v ! i)) (length v)"
proof (induction P v pos rule: up_from.induct)
  case (1 P v i)
  show ?case
  proof (cases "i < length v")
    case True
    show ?thesis
    proof (cases "P (v ! i)")
      case True
      then show ?thesis using \<open>i < length v\<close> by (subst up_from.simps) (simp add: first_index_eq)
    next
      case False
      then have "(\<lambda>j. Suc i \<le> j \<and> P (v ! j)) = (\<lambda>j. i \<le> j \<and> P (v ! j))"
        by (auto simp: fun_eq_iff Suc_le_eq le_less)
      then show ?thesis using "1.IH" True False by (subst up_from.simps) simp
    qed
  next
    case False
    then show ?thesis by (subst up_from.simps) (simp add: first_index_None)
  qed
qed

lemma down_from_last: "i < length v \<Longrightarrow> down_from P v i = last_index (\<lambda>j. j \<le> i \<and> P (v ! j)) (length v)"
proof (induction i)
  case 0
  then show ?case by (cases "P (v ! 0)") (auto intro!: last_index_eq [symmetric] last_index_None [symmetric])
next
  case (Suc i)
  show ?case
  proof (cases "P (v ! Suc i)")
    case True
    then show ?thesis using Suc.prems by (auto intro!: last_index_eq [symmetric])
  next
    case False
    then have "(\<lambda>j. j \<le> Suc i \<and> P (v ! j)) = (\<lambda>j. j \<le> i \<and> P (v ! j))" by (auto simp: fun_eq_iff le_Suc_eq)
    then show ?thesis using Suc False by simp
  qed
qed

lemma down_from_min:
  "v \<noteq> [] \<Longrightarrow> down_from P v (min pos (length v - 1)) = last_index (\<lambda>j. j \<le> pos \<and> P (v ! j)) (length v)"
proof -
  assume v: "v \<noteq> []"
  have "filter (\<lambda>j. j \<le> min pos (length v - 1) \<and> P (v ! j)) [0..<length v] =
      filter (\<lambda>j. j \<le> pos \<and> P (v ! j)) [0..<length v]" by (rule filter_cong) auto
  moreover have "min pos (length v - 1) < length v" using v by (cases v) auto
  ultimately show ?thesis using down_from_last [of "min pos (length v - 1)" v P] by (simp only: last_index_def)
qed

lemma sv_find_char_first: "sv_find_char v c pos = first_index (\<lambda>i. pos \<le> i \<and> v ! i = c) (length v)"
proof (cases "pos < length v")
  case True
  let ?n = "length (takeWhile (\<lambda>x. x \<noteq> c) (drop pos v))"
  have before: "v ! (pos + j) \<noteq> c" if "j < ?n" for j
  proof -
    have "takeWhile (\<lambda>x. x \<noteq> c) (drop pos v) ! j \<noteq> c" using nth_mem [OF that] set_takeWhileD by fast
    then show ?thesis using takeWhile_nth [OF that] True by simp
  qed
  have le: "?n \<le> length v - pos" using length_takeWhile_le [of "\<lambda>x. x \<noteq> c" "drop pos v"] by simp
  show ?thesis
  proof (cases "pos + ?n < length v")
    case True
    then have "v ! (pos + ?n) = c" using nth_length_takeWhile [of "\<lambda>x. x \<noteq> c" "drop pos v"] by simp
    moreover have "\<forall>j < pos + ?n. \<not> (pos \<le> j \<and> v ! j = c)"
      using before by (metis add_diff_inverse_nat linorder_not_less nat_add_left_cancel_less)
    ultimately show ?thesis using True \<open>pos < length v\<close>
      by (auto simp: sv_find_char_def memchr_def Let_def intro!: first_index_eq [symmetric])
  next
    case False
    then have "\<forall>j < length v. \<not> (pos \<le> j \<and> v ! j = c)"
      using before by (metis add_diff_inverse_nat add_less_cancel_left leD less_le_trans linorder_not_less)
    then show ?thesis using False \<open>pos < length v\<close> le
      by (auto simp: sv_find_char_def memchr_def Let_def first_index_None)
  qed
next
  case False
  then show ?thesis by (auto simp: sv_find_char_def first_index_None)
qed

text \<open>What \<open>memmatch\<close> is documented to return: the first place where the needle occurs.\<close>

definition memmatch_law :: "(string \<Rightarrow> string \<Rightarrow> nat option) \<Rightarrow> bool" where
  "memmatch_law memmatch \<longleftrightarrow> (\<forall>h n. memmatch h n = first_index (matches_at h n) (Suc (length h)))"

lemma first_indexD: "first_index Q n = Some i \<Longrightarrow> i < n \<and> Q i \<and> (\<forall>j < i. \<not> Q j)"
proof -
  assume "first_index Q n = Some i"
  then obtain r where f: "filter Q [0..<n] = i # r" by (auto simp: first_index_def split: list.splits)
  then have "i \<in> set (filter Q [0..<n])" by (simp only: list.set_intros)
  then have m: "i < n" "Q i" by simp_all
  have False if "j < i" "Q j" for j
  proof -
    have "filter Q [0..<n] = filter Q [0..<j] @ j # filter Q [Suc j..<n]"
      using upt_around [of j n] m that by simp
    moreover have "\<forall>k \<in> set (filter Q [0..<j]). k < j" by simp
    ultimately show False using f that(1) by (cases "filter Q [0..<j]") auto
  qed
  then show ?thesis using m by auto
qed

lemma first_index_NoneD: "first_index Q n = None \<Longrightarrow> i < n \<Longrightarrow> \<not> Q i"
  by (auto simp: first_index_def filter_empty_conv split: list.splits)

lemma matches_at_drop: "pos \<le> length v \<Longrightarrow> matches_at (drop pos v) s i \<longleftrightarrow> matches_at v s (pos + i)"
  by (auto simp: matches_at_def add.commute)

lemma sv_find_first:
  assumes "memmatch_law memmatch"
  shows "sv_find memmatch v s pos = first_index (\<lambda>i. pos \<le> i \<and> matches_at v s i) (Suc (length v))"
proof (cases "v = [] \<or> pos > length v")
  case True
  then show ?thesis
    by (auto simp: sv_find_def matches_at_def intro!: first_index_eq [symmetric] first_index_None [symmetric])
next
  case False
  then have "matches_at (drop pos v) s = (\<lambda>i. matches_at v s (pos + i))" by (auto simp: matches_at_drop)
  then have m: "memmatch (drop pos v) s = first_index (\<lambda>i. matches_at v s (pos + i)) (Suc (length v - pos))"
    using assms by (simp add: memmatch_law_def)
  show ?thesis
  proof (cases "memmatch (drop pos v) s")
    case None
    have "\<not> (pos \<le> j \<and> matches_at v s j)" if "j < Suc (length v)" for j
      using first_index_NoneD [OF None [unfolded m], of "j - pos"] that by (auto simp: less_Suc_eq_le diff_le_mono)
    then show ?thesis using None False by (simp add: sv_find_def first_index_None)
  next
    case (Some i)
    from first_indexD [OF Some [unfolded m]] False
    have "pos + i < Suc (length v)" "matches_at v s (pos + i)" "\<forall>j < i. \<not> matches_at v s (pos + j)" by auto
    moreover have "\<not> (pos \<le> j \<and> matches_at v s j)" if "j < pos + i" for j
      using calculation(3) that by (metis add_diff_inverse_nat linorder_not_less nat_add_left_cancel_less)
    ultimately show ?thesis using Some False
      by (auto simp: sv_find_def intro!: first_index_eq [symmetric])
  qed
qed

lemma rfind_last: "rfind v s pos = last_index (\<lambda>i. i \<le> pos \<and> matches_at v s i) (Suc (length v))"
proof (cases "length v < length s \<or> s = []")
  case True
  then show ?thesis
    by (auto simp: rfind_def matches_at_def min_def intro!: last_index_eq [symmetric] last_index_None [symmetric])
next
  case False
  define l where "l = min (length v - length s) pos + length s"
  have l: "length s \<le> l" "l \<le> length v" "0 < length s" using False by (auto simp: l_def)
  have m: "matches_at (take l v) s i \<longleftrightarrow> i \<le> pos \<and> matches_at v s i" for i
    using l False by (auto simp: matches_at_def l_def min_def drop_take take_all split: if_splits)
  have lt: "i < l" if "matches_at (take l v) s i" for i
    using that l(2) length_greater_0_conv [THEN iffD1, OF l(3)] by (cases s) (auto simp: matches_at_def)
  have F: "filter (matches_at (take l v) s) [0..<l] = filter (\<lambda>i. i \<le> pos \<and> matches_at v s i) [0..<Suc (length v)]"
  proof -
    have "[0..<Suc (length v)] = [0..<l] @ [l..<Suc (length v)]" using l(2) upt_add_eq_append [of 0 l "Suc (length v) - l"] by simp
    moreover have "filter (\<lambda>i. i \<le> pos \<and> matches_at v s i) [l..<Suc (length v)] = []"
      using lt unfolding m by (force simp: filter_empty_conv)
    moreover have "matches_at (take l v) s = (\<lambda>i. i \<le> pos \<and> matches_at v s i)" by (rule ext) (rule m)
    ultimately show ?thesis by (simp del: upt_Suc)
  qed
  let ?is = "rev (filter (matches_at (take l v) s) [0..<l])"
  have R: "rfind v s pos = (let r = find_end (take l v) s in if r \<noteq> l then Some r else None)"
    using False by (simp add: rfind_def l_def Let_def)
  have E: "find_end (take l v) s = (case ?is of [] \<Rightarrow> l | i # _ \<Rightarrow> i)"
  proof -
    have "length (take l v) = l" using l(2) by simp
    then show ?thesis by (simp only: find_end_def)
  qed
  have B: "i < l" if "?is = i # is" for i "is" using arg_cong [OF that, of set] lt by auto
  have "rfind v s pos = (case ?is of [] \<Rightarrow> None | i # _ \<Rightarrow> Some i)"
    unfolding R E by (cases ?is) (use B in \<open>auto simp: Let_def simp del: rev_is_Nil_conv rev_filter\<close>)
  then show ?thesis by (simp only: last_index_def F)
qed

text \<open>
  C24: every search of a string view returns the first (or, for the reverse ones, the last)
  index from the given position on (or up to it) at which the character, the set of characters
  or the string occurs, and \<open>npos\<close> when there is none; the single-character shortcuts and the
  lookup table change nothing.
\<close>

theorem string_view_searches:
  assumes "memmatch_law memmatch"
  shows "find_first_of v s pos = first_index (\<lambda>i. pos \<le> i \<and> v ! i \<in> set s) (length v)
   \<and> find_first_not_of v s pos = first_index (\<lambda>i. pos \<le> i \<and> v ! i \<notin> set s) (length v)
   \<and> find_last_of v s pos = last_index (\<lambda>i. i \<le> pos \<and> v ! i \<in> set s) (length v)
   \<and> find_last_not_of v s pos = last_index (\<lambda>i. i \<le> pos \<and> v ! i \<notin> set s) (length v)
   \<and> sv_find_char v c pos = first_index (\<lambda>i. pos \<le> i \<and> v ! i = c) (length v)
   \<and> rfind_char v c pos = last_index (\<lambda>i. i \<le> pos \<and> v ! i = c) (length v)
   \<and> sv_find memmatch v s pos = first_index (\<lambda>i. pos \<le> i \<and> matches_at v s i) (Suc (length v))
   \<and> rfind v s pos = last_index (\<lambda>i. i \<le> pos \<and> matches_at v s i) (Suc (length v))"
proof -
  have one: "set s = {s ! 0}" if "length s = 1" using that by (cases s) auto
  have none: "first_index Q 0 = None" "last_index Q 0 = None" for Q
    by (simp_all add: first_index_None last_index_None)
  have never: "first_index (\<lambda>i. False) n = None" "last_index (\<lambda>i. False) n = None" for n
    by (simp_all add: first_index_None last_index_None)
  have "find_first_of v s pos = first_index (\<lambda>i. pos \<le> i \<and> v ! i \<in> set s) (length v)"
    using one by (auto simp: find_first_of_def sv_find_char_first up_from_first LookupTable_lookup Let_def none never)
  moreover have "find_first_not_of v s pos = first_index (\<lambda>i. pos \<le> i \<and> v ! i \<notin> set s) (length v)"
    using one by (auto simp: find_first_not_of_def find_first_not_of_char_def up_from_first LookupTable_lookup Let_def none)
  moreover have "find_last_of v s pos = last_index (\<lambda>i. i \<le> pos \<and> v ! i \<in> set s) (length v)"
    using one by (auto simp: find_last_of_def rfind_char_def down_from_min [unfolded One_nat_def] LookupTable_lookup Let_def none never)
  moreover have "find_last_not_of v s pos = last_index (\<lambda>i. i \<le> pos \<and> v ! i \<notin> set s) (length v)"
  proof (cases "v = [] \<or> s \<noteq> []")
    case True
    then show ?thesis using one
      by (auto simp: find_last_not_of_def find_last_not_of_char_def down_from_min [unfolded One_nat_def] LookupTable_lookup Let_def none)
  next
    case False
    then show ?thesis by (auto simp: find_last_not_of_def min_def less_Suc_eq_le [symmetric]
        intro!: last_index_eq [symmetric])
  qed
  moreover have "rfind_char v c pos = last_index (\<lambda>i. i \<le> pos \<and> v ! i = c) (length v)"
    by (auto simp: rfind_char_def down_from_min [unfolded One_nat_def] none)
  ultimately show ?thesis using sv_find_char_first rfind_last sv_find_first [OF assms] by blast
qed

theorem string_view_searches_witness:
  "rfind ''a/b/c'' ''/'' 9 = Some 3 \<and>
   sv_find (\<lambda>h n. first_index (matches_at h n) (Suc (length h))) ''a/b/c'' ''/'' 2 = Some 3"
proof -
  have "memmatch_law (\<lambda>h n. first_index (matches_at h n) (Suc (length h)))" by (simp add: memmatch_law_def)
  from string_view_searches [OF this, of "''a/b/c''" "''/''" 2] string_view_searches [OF this, of "''a/b/c''" "''/''" 9]
  show ?thesis by (simp add: first_index_def last_index_def matches_at_def)
qed

section \<open>Padded output\<close>

text \<open>
  \<open>operator<<\<close> on a stream: the width, whether the field is adjusted to the left, the fill
  character, and what was written.
\<close>

record ostream =
  os_width :: nat
  os_left :: bool
  os_fill :: char
  os_out :: string

function WritePadding :: "nat \<Rightarrow> ostream \<Rightarrow> ostream" where
  "WritePadding pad os =
     (if pad \<noteq> 0
      then let n = min pad 32
           in WritePadding (pad - n) (os\<lparr>os_out := os_out os @ take n (replicate 32 (os_fill os))\<rparr>)
      else os)"
  by auto
termination by (relation "measure fst") auto

declare WritePadding.simps [simp del]

definition write_view :: "bool \<Rightarrow> string \<Rightarrow> ostream \<Rightarrow> ostream" where
  "write_view sentry piece os =
     (if sentry
      then let pad = os_width os - length piece;
               lpad = (if os_width os > length piece \<and> \<not> os_left os then pad else 0);
               rpad = (if os_width os > length piece \<and> os_left os then pad else 0);
               os = (if lpad \<noteq> 0 then WritePadding lpad os else os);
               os = os\<lparr>os_out := os_out os @ piece\<rparr>;
               os = (if rpad \<noteq> 0 then WritePadding rpad os else os)
           in os\<lparr>os_width := 0\<rparr>
      else os)"

lemma WritePadding_fills: "WritePadding pad os = os\<lparr>os_out := os_out os @ replicate pad (os_fill os)\<rparr>"
proof (induction pad os rule: WritePadding.induct)
  case (1 pad os)
  show ?case
  proof (cases "pad = 0")
    case False
    have "replicate pad (os_fill os) = replicate (min pad 32) (os_fill os) @ replicate (pad - min pad 32) (os_fill os)"
      by (simp flip: replicate_add)
    then show ?thesis using "1.IH" [OF False refl] False by (subst WritePadding.simps) (simp add: Let_def)
  qed (subst WritePadding.simps, simp)
qed

text \<open>
  A view is written whole, padded with the fill character up to the width of the stream on
  the side the adjustment asks for, whatever the number of chunks of the padding.
\<close>

theorem write_view_pads:
  "os_out (write_view True piece os) =
     os_out os @ (if os_left os then piece @ replicate (os_width os - length piece) (os_fill os)
                  else replicate (os_width os - length piece) (os_fill os) @ piece)"
  by (auto simp: write_view_def WritePadding_fills Let_def)

section \<open>Successors of strings\<close>

text \<open>
  The loop of \<open>PrefixSuccessor\<close> drops trailing bytes 255 and increments the last byte left.
\<close>

function PrefixSuccessor :: "string \<Rightarrow> string" where
  "PrefixSuccessor limit =
     (if limit \<noteq> []
      then let index = length limit - 1
           in if limit ! index = char_of (255 :: nat) then PrefixSuccessor (take index limit)
              else limit[index := char_of ((of_char (limit ! index) + 1 :: nat) mod 256)]
      else limit)"
  by auto
termination by (relation "measure length") auto

declare PrefixSuccessor.simps [simp del]

definition ImmediateSuccessor :: "string \<Rightarrow> string" where
  "ImmediateSuccessor s = s @ [CHR 0x00]"

lemma PrefixSuccessor_snoc:
  "PrefixSuccessor (s @ [c]) = (if c = char_of (255 :: nat) then PrefixSuccessor s
     else s @ [char_of ((of_char c + 1 :: nat) mod 256)])"
  by (subst PrefixSuccessor.simps) (simp add: Let_def)

lemma PrefixSuccessor_Nil: "PrefixSuccessor [] = []"
  by (subst PrefixSuccessor.simps) simp

lemma of_char_255: "c \<noteq> char_of (255 :: nat) \<Longrightarrow> (of_char c :: nat) < 255"
proof (rule ccontr)
  assume c: "c \<noteq> char_of (255 :: nat)" and "\<not> (of_char c :: nat) < 255"
  then have "of_char c = (255 :: nat)" using nat_of_char_less_256 [of c] by linarith
  then have "char_of (of_char c :: nat) = (char_of (255 :: nat) :: char)" by simp
  with c show False by simp
qed

lemma string_compare_append_same: "string_compare (p @ s) (p @ t) = string_compare s t"
  by (induction p) simp_all

lemma string_compare_Nil [simp]: "string_compare [] s \<le> 0"
  by (cases s) simp_all

lemma prefix_successor_upper:
  assumes "c \<noteq> char_of (255 :: nat)"
  shows "string_compare s (p @ [char_of ((of_char c + 1 :: nat) mod 256)]) < 0 \<and> string_compare (p @ [c]) s \<le> 0 \<longleftrightarrow>
    prefix (p @ [c]) s"
proof (induction p arbitrary: s)
  case Nil
  have c: "(of_char (char_of ((of_char c + 1 :: nat) mod 256) :: char) :: nat) = of_char c + 1"
    using of_char_255 [OF assms] by simp
  show ?case
  proof (cases s)
    case (Cons x xs)
    have "of_char x = (of_char c :: nat) \<longleftrightarrow> x = c" by simp
    then show ?thesis using Cons c by (cases xs) (auto split: if_splits)
  qed auto
next
  case (Cons a p)
  show ?case
  proof (cases s)
    case (Cons x xs)
    have "of_char x = (of_char a :: nat) \<longleftrightarrow> x = a" by simp
    then show ?thesis using Cons.IH [of xs] Cons by auto
  qed auto
qed

abbreviation c255 :: char where
  "c255 \<equiv> char_of (255 :: nat)"

lemma PrefixSuccessor_drop: "PrefixSuccessor (q @ replicate k c255) = PrefixSuccessor q"
proof (induction k)
  case (Suc k)
  have "q @ replicate (Suc k) c255 = (q @ replicate k c255) @ [c255]" by (simp add: replicate_append_same)
  then show ?case using Suc PrefixSuccessor_snoc [of "q @ replicate k c255" c255] by simp
qed simp

lemma top_bytes_le: "string_compare (replicate k c255) t \<le> 0 \<longleftrightarrow> prefix (replicate k c255) t"
proof (induction k arbitrary: t)
  case (Suc k)
  show ?case
  proof (cases t)
    case (Cons x xs)
    have "(of_char x :: nat) < 255 \<or> x = c255" using of_char_255 by blast
    then show ?thesis using Suc.IH [of xs] Cons by auto
  qed simp
qed simp

lemma drop_top_bytes: "\<exists>q k. p = q @ replicate k c255 \<and> (q = [] \<or> last q \<noteq> c255)"
proof (induction p rule: rev_induct)
  case (snoc c p)
  show ?case
  proof (cases "c = c255")
    case True
    from snoc obtain q k where "p = q @ replicate k c255" "q = [] \<or> last q \<noteq> c255" by blast
    then show ?thesis using True by (intro exI [of _ q] exI [of _ "Suc k"]) (simp add: replicate_append_same)
  next
    case False
    then show ?thesis by (intro exI [of _ "p @ [c]"] exI [of _ 0]) simp
  qed
qed simp

lemma string_compare_append_le: "string_compare (p @ s) t \<le> 0 \<Longrightarrow> string_compare p t \<le> 0"
  by (induction p t rule: string_compare.induct) (auto split: if_splits)

lemma prefix_imp_le: "prefix p s \<Longrightarrow> string_compare p s \<le> 0"
  using string_compare_append_same [of p "[]"] by (auto simp: prefix_def)

text \<open>
  The strings that start with a prefix are exactly the ones not before it and, where its
  prefix successor is not empty, before that successor; the immediate successor of a string is
  the least string after it.
\<close>

theorem string_successors:
  "(prefix p s \<longleftrightarrow> string_compare p s \<le> 0 \<and>
     (PrefixSuccessor p = [] \<or> string_compare s (PrefixSuccessor p) < 0)) \<and>
   (string_compare p s < 0 \<longleftrightarrow> string_compare (ImmediateSuccessor p) s \<le> 0)"
proof -
  obtain q k where p: "p = q @ replicate k c255" and q: "q = [] \<or> last q \<noteq> c255" using drop_top_bytes by blast
  have "prefix p s \<longleftrightarrow> string_compare p s \<le> 0 \<and> (PrefixSuccessor p = [] \<or> string_compare s (PrefixSuccessor p) < 0)"
  proof (cases "q = []")
    case True
    then show ?thesis using top_bytes_le [of k s] PrefixSuccessor_drop [of "[]" k] by (simp add: p PrefixSuccessor_Nil)
  next
    case False
    then obtain r c where r: "q = r @ [c]" "c \<noteq> c255" using q by (metis append_butlast_last_id)
    have succ: "PrefixSuccessor p = r @ [char_of ((of_char c + 1 :: nat) mod 256)]"
      using PrefixSuccessor_drop [of q k] PrefixSuccessor_snoc [of r c] r by (simp add: p)
    have "prefix p s" if "string_compare p s \<le> 0" "string_compare s (PrefixSuccessor p) < 0"
    proof -
      have "string_compare (r @ [c]) s \<le> 0" using that(1) string_compare_append_le [of q "replicate k c255" s]
        unfolding p r(1) by blast
      then have "prefix q s" using prefix_successor_upper [OF r(2), of s r] that(2) unfolding succ r(1) by blast
      then obtain t where "s = q @ t" by (auto simp: prefix_def)
      then show ?thesis using that(1) top_bytes_le [of k t] string_compare_append_same [of q "replicate k c255" t]
        by (simp add: p)
    qed
    moreover have "string_compare s (PrefixSuccessor p) < 0" if "prefix p s"
    proof -
      have "prefix q s" using that by (auto simp: p prefix_def)
      then show ?thesis using prefix_successor_upper [OF r(2), of s r] unfolding succ r(1) by blast
    qed
    moreover have "PrefixSuccessor p \<noteq> []" unfolding succ by simp
    ultimately show ?thesis using prefix_imp_le [of p s] by blast
  qed
  moreover have "string_compare p s < 0 \<longleftrightarrow> string_compare (ImmediateSuccessor p) s \<le> 0"
    unfolding ImmediateSuccessor_def
  proof (induction p s rule: string_compare.induct)
    case (2 b bs)
    show ?case by (cases bs) auto
  qed auto
  ultimately show ?thesis by blast
qed

end
