(* ===== verification/Strings.thy ===== *)
theory Strings
  imports Prelude
begin

text \<open>
  The string routines the Firestore client builds its paths with: the split iterator
  (\<open>absl/strings/internal/str_split_internal.h\<close>) and the join algorithms
  (\<open>str_join_internal.h\<close>). A byte is a \<open>char\<close>; a string view whose data pointer may be null
  is a \<open>string option\<close>.
\<close>

section \<open>Splitting\<close>

text \<open>
  A delimiter is the function \<open>Find\<close> of its class: for a text and a position it returns the
  offset of the delimiter found and its size (offset \<open>length text\<close>, size 0: none).
\<close>

type_synonym delimiter = "string \<Rightarrow> nat \<Rightarrow> nat \<times> nat"

datatype split_state = kInitState | kLastState | kEndState

record split_iter =
  sp_pos :: nat
  sp_state :: split_state
  sp_curr :: string

definition substr :: "string \<Rightarrow> nat \<Rightarrow> nat \<Rightarrow> string option" where
  "substr s pos n = (if pos \<le> length s then Some (take n (drop pos s)) else None)"

partial_function (option) split_advance ::
    "delimiter \<Rightarrow> (string \<Rightarrow> bool) \<Rightarrow> string \<Rightarrow> split_iter \<Rightarrow> split_iter option" where
  "split_advance delim predicate text it =
     (if sp_state it = kLastState then Some (it\<lparr>sp_state := kEndState\<rparr>)
      else
        let (d_data, d_size) = delim text (sp_pos it);
            state = (if d_data = length text then kLastState else sp_state it)
        in do {
             curr \<leftarrow> substr text (sp_pos it) (nat ((int d_data - int (sp_pos it)) mod 2 ^ 64));
             let it' = \<lparr>sp_pos = sp_pos it + length curr + d_size, sp_state = state, sp_curr = curr\<rparr>;
             if predicate curr then Some it' else split_advance delim predicate text it'
           })"

definition SplitIterator ::
    "delimiter \<Rightarrow> (string \<Rightarrow> bool) \<Rightarrow> split_state \<Rightarrow> string option \<Rightarrow> split_iter option" where
  "SplitIterator delim predicate state text =
     (case text of
        None \<Rightarrow> Some \<lparr>sp_pos = 0, sp_state = kEndState, sp_curr = []\<rparr>
      | Some t \<Rightarrow>
          if state = kEndState then Some \<lparr>sp_pos = length t, sp_state = state, sp_curr = []\<rparr>
          else split_advance delim predicate t \<lparr>sp_pos = 0, sp_state = state, sp_curr = []\<rparr>)"

definition at_end :: "split_iter \<Rightarrow> bool" where
  "at_end it \<longleftrightarrow> sp_state it = kEndState"

definition split_iter_eq :: "split_iter \<Rightarrow> split_iter \<Rightarrow> bool" where
  "split_iter_eq a b \<longleftrightarrow> sp_state a = sp_state b \<and> sp_pos a = sp_pos b"

text \<open>\<open>operator++\<close> on the text of the splitter; a null text behaves as an empty one.\<close>

definition split_text :: "string option \<Rightarrow> string" where
  "split_text text = (case text of None \<Rightarrow> [] | Some t \<Rightarrow> t)"

text \<open>The generic conversion: a range-based loop from \<open>begin()\<close> to \<open>end()\<close>.\<close>

partial_function (option) split_range ::
    "delimiter \<Rightarrow> (string \<Rightarrow> bool) \<Rightarrow> string option \<Rightarrow> split_iter \<Rightarrow> split_iter \<Rightarrow> string list \<Rightarrow> string list option" where
  "split_range delim predicate text it last_it c =
     (if split_iter_eq it last_it then Some c
      else do {
        it' \<leftarrow> split_advance delim predicate (split_text text) it;
        split_range delim predicate text it' last_it (c @ [sp_curr it])
      })"

definition ConvertToContainer :: "delimiter \<Rightarrow> (string \<Rightarrow> bool) \<Rightarrow> string option \<Rightarrow> string list option" where
  "ConvertToContainer delim predicate text = do {
     first \<leftarrow> SplitIterator delim predicate kInitState text;
     last_it \<leftarrow> SplitIterator delim predicate kEndState text;
     split_range delim predicate text first last_it []
   }"

text \<open>The conversion to a vector of views, which collects up to 16 pieces on the stack at a time.\<close>

partial_function (option) split_batch ::
    "delimiter \<Rightarrow> (string \<Rightarrow> bool) \<Rightarrow> string option \<Rightarrow> split_iter \<Rightarrow> string list \<Rightarrow> (string list \<times> split_iter) option" where
  "split_batch delim predicate text it ar = do {
     let ar' = ar @ [sp_curr it];
     it' \<leftarrow> split_advance delim predicate (split_text text) it;
     if length ar' \<noteq> 16 \<and> \<not> at_end it' then split_batch delim predicate text it' ar'
     else Some (ar', it')
   }"

partial_function (option) split_batches ::
    "delimiter \<Rightarrow> (string \<Rightarrow> bool) \<Rightarrow> string option \<Rightarrow> split_iter \<Rightarrow> string list \<Rightarrow> string list option" where
  "split_batches delim predicate text it v =
     (if at_end it then Some v
      else do {
        (ar, it') \<leftarrow> split_batch delim predicate text it [];
        split_batches delim predicate text it' (v @ ar)
      })"

definition ConvertToVector :: "delimiter \<Rightarrow> (string \<Rightarrow> bool) \<Rightarrow> string option \<Rightarrow> string list option" where
  "ConvertToVector delim predicate text = do {
     first \<leftarrow> SplitIterator delim predicate kInitState text;
     split_batches delim predicate text first []
   }"

text \<open>The conversion to a pair: the first two pieces.\<close>

definition ConvertToPair :: "delimiter \<Rightarrow> (string \<Rightarrow> bool) \<Rightarrow> string option \<Rightarrow> (string \<times> string) option" where
  "ConvertToPair delim predicate text = do {
     it \<leftarrow> SplitIterator delim predicate kInitState text;
     last_it \<leftarrow> SplitIterator delim predicate kEndState text;
     if split_iter_eq it last_it then Some ([], [])
     else do {
       it' \<leftarrow> split_advance delim predicate (split_text text) it;
       if split_iter_eq it' last_it then Some (sp_curr it, [])
       else Some (sp_curr it, sp_curr it')
     }
   }"

text \<open>
  What the documentation of \<open>absl::ByChar\<close> promises, and the pieces of a text between the
  occurrences of a character.
\<close>

definition by_char :: "char \<Rightarrow> delimiter \<Rightarrow> bool" where
  "by_char c delim \<longleftrightarrow> (\<forall>text pos. pos \<le> length text \<longrightarrow>
     (let n = length (takeWhile (\<lambda>x. x \<noteq> c) (drop pos text))
      in delim text pos = (pos + n, if pos + n < length text then 1 else 0)))"

function pieces :: "char \<Rightarrow> string \<Rightarrow> string list" where
  "pieces c s = takeWhile (\<lambda>x. x \<noteq> c) s #
     (case dropWhile (\<lambda>x. x \<noteq> c) s of [] \<Rightarrow> [] | _ # r \<Rightarrow> pieces c r)"
  by auto
termination
proof (relation "measure (length \<circ> snd)")
  fix c :: char and s r :: string and x
  assume "dropWhile (\<lambda>x. x \<noteq> c) s = x # r"
  then show "((c, r), (c, s)) \<in> measure (length \<circ> snd)"
    using length_dropWhile_le [of "\<lambda>x. x \<noteq> c" s] by simp
qed simp

declare pieces.simps [simp del]

text \<open>
  \<open>split_seq\<close>: what an iterator still has to deliver. While it is not at the end its current
  piece is the first one, and the pieces of the text after its position follow.
\<close>

definition split_at :: "char \<Rightarrow> string \<Rightarrow> split_iter \<Rightarrow> string list \<Rightarrow> bool" where
  "split_at c text it rs \<longleftrightarrow>
     (case sp_state it of
        kInitState \<Rightarrow> sp_pos it \<le> length text \<and> rs = pieces c (drop (sp_pos it) text)
      | kLastState \<Rightarrow> sp_pos it = length text \<and> rs = []
      | kEndState \<Rightarrow> False)"

definition split_seq :: "char \<Rightarrow> (string \<Rightarrow> bool) \<Rightarrow> string \<Rightarrow> split_iter \<Rightarrow> string list \<Rightarrow> bool" where
  "split_seq c predicate text it zs \<longleftrightarrow>
     (case zs of
        [] \<Rightarrow> sp_state it = kEndState \<and> sp_pos it = length text
      | z # zs' \<Rightarrow> sp_curr it = z \<and> (\<exists>rs. split_at c text it rs \<and> zs' = filter predicate rs))"

lemma split_step:
  assumes "by_char c delim" and "length text < 2 ^ 64" and "split_at c text it (r # rs)"
  shows "\<exists>it'. sp_curr it' = r \<and> split_at c text it' rs \<and>
    split_advance delim predicate text it = (if predicate r then Some it' else split_advance delim predicate text it')"
proof -
  let ?p = "sp_pos it" and ?s = "drop (sp_pos it) text"
  let ?n = "length (takeWhile (\<lambda>x. x \<noteq> c) ?s)"
  from assms(3) have st: "sp_state it = kInitState" "?p \<le> length text" "r # rs = pieces c ?s"
    by (auto simp: split_at_def split: split_state.splits)
  then have r: "r = takeWhile (\<lambda>x. x \<noteq> c) ?s"
    and rs: "rs = (case dropWhile (\<lambda>x. x \<noteq> c) ?s of [] \<Rightarrow> [] | _ # r \<Rightarrow> pieces c r)"
    using pieces.simps [of c ?s] by auto
  have split: "takeWhile (\<lambda>x. x \<noteq> c) ?s @ dropWhile (\<lambda>x. x \<noteq> c) ?s = ?s" by simp
  have rest: "dropWhile (\<lambda>x. x \<noteq> c) ?s = drop (?p + ?n) text" by (simp add: dropWhile_eq_drop add.commute)
  have len: "?p + ?n \<le> length text" using arg_cong [OF split, of length] st(2) by (simp del: takeWhile_dropWhile_id)
  have f: "delim text ?p = (?p + ?n, if ?p + ?n < length text then 1 else 0)"
    using assms(1) st(2) by (auto simp: by_char_def Let_def)
  have curr: "substr text ?p (nat ((int (?p + ?n) - int ?p) mod 2 ^ 64)) = Some r"
    using st(2) len assms(2) by (simp add: substr_def r takeWhile_eq_take [symmetric])
  let ?it = "\<lparr>sp_pos = ?p + ?n + (if ?p + ?n < length text then 1 else 0),
    sp_state = (if ?p + ?n = length text then kLastState else kInitState), sp_curr = r\<rparr>"
  have "split_at c text ?it rs"
  proof (cases "?p + ?n < length text")
    case True
    then have "dropWhile (\<lambda>x. x \<noteq> c) ?s = text ! (?p + ?n) # drop (Suc (?p + ?n)) text"
      using rest Cons_nth_drop_Suc [of "?p + ?n" "text"] by metis
    then have "rs = pieces c (drop (Suc (?p + ?n)) text)" unfolding rs by (simp del: dropWhile_eq_Cons_conv)
    with True show ?thesis by (simp add: split_at_def)
  next
    case False
    then show ?thesis using len by (simp add: split_at_def rs rest)
  qed
  moreover have "split_advance delim predicate text it =
      (if predicate r then Some ?it else split_advance delim predicate text ?it)"
    using curr len by (subst split_advance.simps) (simp add: st(1) f r [symmetric] Let_def)
  ultimately show ?thesis by (intro exI [of _ ?it]) simp
qed

lemma split_advance_at:
  assumes "by_char c delim" and "length text < 2 ^ 64"
  shows "split_at c text it rs \<Longrightarrow>
    \<exists>it'. split_advance delim predicate text it = Some it' \<and> split_seq c predicate text it' (filter predicate rs)"
proof (induction rs arbitrary: it)
  case Nil
  then have "sp_state it = kLastState" "sp_pos it = length text"
    by (auto simp: split_at_def pieces.simps [of c "drop _ _"] split: split_state.splits)
  then show ?case by (subst split_advance.simps) (simp add: split_seq_def)
next
  case (Cons r rs)
  from split_step [OF assms Cons.prems, of predicate] obtain it' where it': "sp_curr it' = r" "split_at c text it' rs"
    "split_advance delim predicate text it = (if predicate r then Some it' else split_advance delim predicate text it')"
    by blast
  then show ?case using Cons.IH [OF it'(2)] by (auto simp: split_seq_def)
qed

lemma split_seq_next:
  assumes "by_char c delim" and "length text < 2 ^ 64" and "split_seq c predicate text it (z # zs)"
  shows "sp_curr it = z" and "\<not> at_end it"
    and "\<exists>it'. split_advance delim predicate text it = Some it' \<and> split_seq c predicate text it' zs"
proof -
  from assms(3) obtain rs where rs: "sp_curr it = z" "split_at c text it rs" "zs = filter predicate rs"
    by (auto simp: split_seq_def)
  then show "sp_curr it = z" "\<not> at_end it" by (auto simp: split_at_def at_end_def)
  show "\<exists>it'. split_advance delim predicate text it = Some it' \<and> split_seq c predicate text it' zs"
    using split_advance_at [OF assms(1,2) rs(2), of predicate] rs(3) by simp
qed

lemma split_begin:
  assumes "by_char c delim" and "length text < 2 ^ 64"
  shows "\<exists>it. SplitIterator delim predicate kInitState (Some text) = Some it \<and>
    split_seq c predicate text it (filter predicate (pieces c text))"
  using split_advance_at [OF assms, of "\<lparr>sp_pos = 0, sp_state = kInitState, sp_curr = []\<rparr>" "pieces c text"]
  by (simp add: SplitIterator_def split_at_def)

lemma split_range_seq:
  assumes "by_char c delim" and "length text < 2 ^ 64"
  shows "split_seq c predicate text it zs \<Longrightarrow>
    split_range delim predicate (Some text) it \<lparr>sp_pos = length text, sp_state = kEndState, sp_curr = []\<rparr> v = Some (v @ zs)"
proof (induction zs arbitrary: it v)
  case Nil
  then show ?case by (subst split_range.simps) (simp add: split_seq_def split_iter_eq_def)
next
  case (Cons z zs)
  from split_seq_next [OF assms Cons.prems] obtain it' where "sp_curr it = z" "\<not> at_end it"
    "split_advance delim predicate text it = Some it'" "split_seq c predicate text it' zs" by blast
  then show ?case using Cons.IH [of it' "v @ [z]"]
    by (subst split_range.simps) (simp add: split_iter_eq_def at_end_def split_text_def)
qed

lemma split_batch_seq:
  assumes "by_char c delim" and "length text < 2 ^ 64"
  shows "split_seq c predicate text it (z # zs) \<Longrightarrow>
    \<exists>k it'. split_batch delim predicate (Some text) it ar = Some (ar @ take (Suc k) (z # zs), it') \<and>
      split_seq c predicate text it' (drop (Suc k) (z # zs))"
proof (induction zs arbitrary: it z ar)
  case Nil
  from split_seq_next [OF assms Nil.prems] obtain it' where "sp_curr it = z"
    "split_advance delim predicate text it = Some it'" "split_seq c predicate text it' []" by blast
  then show ?case by (subst split_batch.simps) (simp add: split_text_def at_end_def split_seq_def)
next
  case (Cons y zs)
  from split_seq_next [OF assms Cons.prems] obtain it' where n: "sp_curr it = z"
    "split_advance delim predicate text it = Some it'" "split_seq c predicate text it' (y # zs)" by blast
  show ?case
  proof (cases "length (ar @ [z]) \<noteq> 16 \<and> \<not> at_end it'")
    case True
    from Cons.IH [OF n(3), of "ar @ [z]"] obtain k it''
      where "split_batch delim predicate (Some text) it' (ar @ [z]) = Some ((ar @ [z]) @ take (Suc k) (y # zs), it'')"
        "split_seq c predicate text it'' (drop (Suc k) (y # zs))" by blast
    with True n(1,2) show ?thesis
      by (subst split_batch.simps) (auto simp: split_text_def intro!: exI [of _ "Suc k"])
  next
    case False
    with n show ?thesis by (subst split_batch.simps) (auto simp: split_text_def intro!: exI [of _ 0])
  qed
qed

lemma split_batches_seq:
  assumes "by_char c delim" and "length text < 2 ^ 64"
  shows "split_seq c predicate text it zs \<Longrightarrow> split_batches delim predicate (Some text) it v = Some (v @ zs)"
proof (induction "length zs" arbitrary: zs it v rule: less_induct)
  case less
  show ?case
  proof (cases zs)
    case Nil
    then show ?thesis using less.prems
      by (subst split_batches.simps) (simp add: split_seq_def at_end_def)
  next
    case (Cons z zs')
    from split_batch_seq [OF assms less.prems [unfolded Cons], of "[]"] obtain k it'
      where k: "split_batch delim predicate (Some text) it [] = Some (take (Suc k) zs, it')"
        "split_seq c predicate text it' (drop (Suc k) zs)" by (auto simp: Cons)
    have "split_batches delim predicate (Some text) it' (v @ take (Suc k) zs) = Some ((v @ take (Suc k) zs) @ drop (Suc k) zs)"
      using less.hyps [OF _ k(2)] Cons by simp
    then show ?thesis using split_seq_next(2) [OF assms less.prems [unfolded Cons]] k(1)
      by (subst split_batches.simps) (simp del: take_Suc_Cons drop_Suc_Cons)
  qed
qed

lemma split_vector:
  assumes "by_char c delim" and "length text < 2 ^ 64"
  shows "ConvertToVector delim predicate (Some text) = Some (filter predicate (pieces c text))"
  using split_begin [OF assms, of predicate] split_batches_seq [OF assms] by (auto simp: ConvertToVector_def)

text \<open>
  C23: splitting at a character returns, whichever container it is converted to, exactly the
  pieces between the occurrences of the character that satisfy the predicate, in order; the
  vector conversion's batches of 16 lose and repeat nothing.
\<close>

theorem split_pieces:
  assumes "by_char c delim" and "length text < 2 ^ 64"
  shows "ConvertToVector delim predicate (Some text) = Some (filter predicate (pieces c text)) \<and>
    ConvertToContainer delim predicate (Some text) = Some (filter predicate (pieces c text)) \<and>
    ConvertToPair delim predicate (Some text) =
      Some (case filter predicate (pieces c text) of [] \<Rightarrow> ([], []) | [x] \<Rightarrow> (x, []) | x # y # _ \<Rightarrow> (x, y))"
proof -
  let ?zs = "filter predicate (pieces c text)"
  let ?stop = "\<lparr>sp_pos = length text, sp_state = kEndState, sp_curr = []\<rparr>"
  from split_begin [OF assms] obtain it where it: "SplitIterator delim predicate kInitState (Some text) = Some it"
    "split_seq c predicate text it ?zs" by blast
  have last: "SplitIterator delim predicate kEndState (Some text) = Some ?stop" by (simp add: SplitIterator_def)
  have eq: "split_iter_eq jt ?stop \<longleftrightarrow> zs = []" if "split_seq c predicate text jt zs" for jt zs
    using that split_seq_next(2) [OF assms, of predicate jt] by (cases zs) (auto simp: split_iter_eq_def at_end_def split_seq_def)
  have "ConvertToPair delim predicate (Some text) =
      Some (case ?zs of [] \<Rightarrow> ([], []) | [x] \<Rightarrow> (x, []) | x # y # _ \<Rightarrow> (x, y))"
  proof (cases ?zs)
    case Nil
    then show ?thesis using it eq [OF it(2)] last by (simp add: ConvertToPair_def)
  next
    case (Cons x xs)
    with split_seq_next [OF assms, of predicate it x xs] it(2) obtain it' where
      n: "sp_curr it = x" "split_advance delim predicate text it = Some it'" "split_seq c predicate text it' xs" by auto
    then show ?thesis using it(1) eq [OF it(2)] eq [OF n(3)] last Cons
      by (cases xs) (auto simp: ConvertToPair_def split_text_def split_seq_def)
  qed
  then show ?thesis
    using it split_vector [OF assms] split_range_seq [OF assms it(2), of "[]"] last
    by (simp add: ConvertToContainer_def)
qed

text \<open>A delimiter that keeps the promise.\<close>

definition find_char :: "char \<Rightarrow> delimiter" where
  "find_char c s pos =
     (let n = length (takeWhile (\<lambda>x. x \<noteq> c) (drop pos s)) in (pos + n, if pos + n < length s then 1 else 0))"

lemma by_char_find_char: "by_char c (find_char c)"
  by (simp add: by_char_def find_char_def Let_def)

theorem split_pieces_witness:
  "ConvertToVector (find_char (CHR ''/'')) (\<lambda>s. s \<noteq> []) (Some ''/rooms/eros'') = Some [''rooms'', ''eros'']"
  using split_pieces [OF by_char_find_char, of "''/rooms/eros''" "CHR ''/''" "\<lambda>s. s \<noteq> []"]
  by (simp add: pieces.simps)

section \<open>Joining\<close>

text \<open>
  The general algorithm, with a formatter that appends to the output, and the one for strings,
  which sizes the output first and then copies every piece to its place. Memory that was not
  written yet holds \<open>junk\<close>; a copy outside of the buffer has no result.
\<close>

fun join_loop :: "('a \<Rightarrow> string \<Rightarrow> string) \<Rightarrow> string \<Rightarrow> string \<Rightarrow> 'a list \<Rightarrow> string \<Rightarrow> string" where
  "join_loop f s sep [] result = result"
| "join_loop f s sep (x # xs) result = join_loop f s s xs (f x (result @ sep))"

definition JoinAlgorithm :: "('a \<Rightarrow> string \<Rightarrow> string) \<Rightarrow> string \<Rightarrow> 'a list \<Rightarrow> string" where
  "JoinAlgorithm f s xs = join_loop f s [] xs []"

definition memcpy_at :: "string \<Rightarrow> nat \<Rightarrow> string \<Rightarrow> string option" where
  "memcpy_at buf off src =
     (if off + length src \<le> length buf then Some (take off buf @ src @ drop (off + length src) buf) else None)"

fun join_size :: "string \<Rightarrow> string list \<Rightarrow> nat \<Rightarrow> nat" where
  "join_size s [] n = n"
| "join_size s (x # xs) n = join_size s xs (n + length s + length x)"

fun join_copy :: "string \<Rightarrow> string list \<Rightarrow> nat \<Rightarrow> string \<Rightarrow> string option" where
  "join_copy s [] off buf = Some buf"
| "join_copy s (x # xs) off buf = do {
     buf \<leftarrow> memcpy_at buf off s;
     buf \<leftarrow> memcpy_at buf (off + length s) x;
     join_copy s xs (off + length s + length x) buf
   }"

definition JoinAlgorithm_NoFormatter :: "char \<Rightarrow> string \<Rightarrow> string list \<Rightarrow> string option" where
  "JoinAlgorithm_NoFormatter junk s xs =
     (case xs of
        [] \<Rightarrow> Some []
      | start # rest \<Rightarrow>
          let result_size = join_size s rest (length start)
          in if result_size > 0
             then do {
               buf \<leftarrow> memcpy_at (replicate result_size junk) 0 start;
               join_copy s rest (length start) buf
             }
             else Some [])"

fun JoinTupleLoop :: "('a \<Rightarrow> string \<Rightarrow> string) \<Rightarrow> string \<Rightarrow> nat \<Rightarrow> 'a list \<Rightarrow> string \<Rightarrow> string" where
  "JoinTupleLoop fmt sep i [] out = out"
| "JoinTupleLoop fmt sep i (x # xs) out =
     JoinTupleLoop fmt sep (Suc i) xs (fmt x (if i > 0 then out @ sep else out))"

definition JoinAlgorithm_tuple :: "('a \<Rightarrow> string \<Rightarrow> string) \<Rightarrow> string \<Rightarrow> 'a list \<Rightarrow> string" where
  "JoinAlgorithm_tuple fmt sep tup = JoinTupleLoop fmt sep 0 tup []"

definition StrAppend_fmt :: "string \<Rightarrow> string \<Rightarrow> string" where
  "StrAppend_fmt x out = out @ x"

text \<open>The pieces with the separator between them.\<close>

fun intersperse_sep :: "string \<Rightarrow> string list \<Rightarrow> string" where
  "intersperse_sep s [] = []"
| "intersperse_sep s [x] = x"
| "intersperse_sep s (x # y # ys) = x @ s @ intersperse_sep s (y # ys)"

lemma intersperse_sep_Cons: "intersperse_sep s (x # xs) = x @ concat (map (\<lambda>y. s @ y) xs)"
  by (induction xs arbitrary: x) auto

lemma join_loop_append: "join_loop StrAppend_fmt s s xs result = result @ concat (map (\<lambda>y. s @ y) xs)"
  by (induction xs arbitrary: result) (simp_all add: StrAppend_fmt_def)

lemma JoinAlgorithm_sep: "JoinAlgorithm StrAppend_fmt s xs = intersperse_sep s xs"
  by (cases xs) (simp_all add: JoinAlgorithm_def join_loop_append intersperse_sep_Cons StrAppend_fmt_def)

lemma JoinTupleLoop_append:
  "0 < i \<Longrightarrow> JoinTupleLoop StrAppend_fmt sep i xs out = out @ concat (map (\<lambda>y. sep @ y) xs)"
  by (induction xs arbitrary: i out) (simp_all add: StrAppend_fmt_def)

lemma JoinAlgorithm_tuple_sep: "JoinAlgorithm_tuple StrAppend_fmt s xs = intersperse_sep s xs"
  by (cases xs) (simp_all add: JoinAlgorithm_tuple_def JoinTupleLoop_append intersperse_sep_Cons StrAppend_fmt_def)

lemma join_size_sum: "join_size s xs n = n + length (concat (map (\<lambda>y. s @ y) xs))"
  by (induction xs arbitrary: n) simp_all

lemma memcpy_at_next: "length src \<le> k \<Longrightarrow>
    memcpy_at (pre @ replicate k junk) (length pre) src = Some (pre @ src @ replicate (k - length src) junk)"
  by (simp add: memcpy_at_def)

lemma join_copy_fills:
  "k = length (concat (map (\<lambda>y. s @ y) xs)) \<Longrightarrow>
     join_copy s xs (length pre) (pre @ replicate k junk) = Some (pre @ concat (map (\<lambda>y. s @ y) xs))"
proof (induction xs arbitrary: pre k)
  case (Cons x xs)
  let ?rest = "length (concat (map (\<lambda>y. s @ y) xs))"
  have "memcpy_at (pre @ replicate k junk) (length pre) s = Some ((pre @ s) @ replicate (length x + ?rest) junk)"
    using Cons.prems by (subst memcpy_at_next) simp_all
  moreover have "memcpy_at ((pre @ s) @ replicate (length x + ?rest) junk) (length (pre @ s)) x =
      Some ((pre @ s @ x) @ replicate ?rest junk)"
    by (subst memcpy_at_next) simp_all
  moreover have "join_copy s xs (length (pre @ s @ x)) ((pre @ s @ x) @ replicate ?rest junk) =
      Some ((pre @ s @ x) @ concat (map (\<lambda>y. s @ y) xs))" by (rule Cons.IH) simp
  ultimately show ?case by (simp add: add.assoc)
qed simp

lemma JoinAlgorithm_NoFormatter_sep: "JoinAlgorithm_NoFormatter junk s xs = Some (intersperse_sep s xs)"
proof (cases xs)
  case (Cons x ys)
  let ?k = "length (concat (map (\<lambda>y. s @ y) ys))"
  have "memcpy_at (replicate (length x + ?k) junk) 0 x = Some (x @ replicate ?k junk)"
    using memcpy_at_next [of x "length x + ?k" "[]" junk] by simp
  then show ?thesis using join_copy_fills [of ?k s ys x junk]
    by (auto simp: Cons JoinAlgorithm_NoFormatter_def join_size_sum intersperse_sep_Cons Let_def)
qed (simp add: JoinAlgorithm_NoFormatter_def)

text \<open>
  The optimised join of strings fills exactly the buffer it has sized, copies nothing
  outside of it, and returns what the general algorithm and the tuple algorithm return: the
  strings with the separator between them.
\<close>

theorem join_equivalence:
  "JoinAlgorithm_NoFormatter junk s xs = Some (JoinAlgorithm StrAppend_fmt s xs) \<and>
   JoinAlgorithm_tuple StrAppend_fmt s xs = JoinAlgorithm StrAppend_fmt s xs \<and>
   JoinAlgorithm StrAppend_fmt s xs = intersperse_sep s xs"
  by (simp add: JoinAlgorithm_NoFormatter_sep JoinAlgorithm_sep JoinAlgorithm_tuple_sep)

end
