(* ===== verification/Paths.thy ===== *)
theory Paths
  imports Strings "HOL-Library.Sublist"
begin

text \<open>
  Paths and document keys of the Firestore client: \<open>model/base_path.h\<close>,
  \<open>model/resource_path.cc\<close> and \<open>model/document_key.cc\<close>. A path is the vector of its
  segments. Parsing and printing go through the split and join routines of \<open>Strings\<close>.
\<close>

section \<open>Segments\<close>

type_synonym path = "string list"

definition path_at :: "path \<Rightarrow> nat \<Rightarrow> string result" where
  "path_at segments i = hard_assert (i < length segments) (Inr (segments ! i))"

definition first_segment :: "path \<Rightarrow> string result" where
  "first_segment segments = hard_assert (segments \<noteq> []) (Inr (segments ! 0))"

definition last_segment :: "path \<Rightarrow> string result" where
  "last_segment segments = hard_assert (segments \<noteq> []) (Inr (segments ! (length segments - 1)))"

definition Append :: "path \<Rightarrow> string \<Rightarrow> path" where
  "Append segments segment = segments @ [segment]"

definition Append_path :: "path \<Rightarrow> path \<Rightarrow> path" where
  "Append_path segments path = segments @ path"

definition PopFirst :: "path \<Rightarrow> nat \<Rightarrow> path result" where
  "PopFirst segments n = hard_assert (n \<le> length segments) (Inr (drop n segments))"

definition PopLast :: "path \<Rightarrow> path result" where
  "PopLast segments = hard_assert (segments \<noteq> []) (Inr (take (length segments - 1) segments))"

text \<open>\<open>std::equal\<close> on a range and the start of another, which is at least as long.\<close>

fun std_equal :: "'a list \<Rightarrow> 'a list \<Rightarrow> bool" where
  "std_equal [] ys = True"
| "std_equal (x # xs) [] = False"
| "std_equal (x # xs) (y # ys) = (x = y \<and> std_equal xs ys)"

definition IsPrefixOf :: "path \<Rightarrow> path \<Rightarrow> bool" where
  "IsPrefixOf segments rhs \<longleftrightarrow> length segments \<le> length rhs \<and> std_equal segments rhs"

definition IsImmediateParentOf :: "path \<Rightarrow> path \<Rightarrow> bool" where
  "IsImmediateParentOf segments potential_child \<longleftrightarrow>
     length segments + 1 = length potential_child \<and> std_equal segments potential_child"

datatype ComparisonResult = Ascending | Same | Descending

text \<open>\<open>util::CompareContainer\<close> (\<open>util/comparison.h\<close>) is a parameter.\<close>

type_synonym compare_container = "string list \<Rightarrow> string list \<Rightarrow> ComparisonResult"

definition path_CompareTo :: "compare_container \<Rightarrow> path \<Rightarrow> path \<Rightarrow> ComparisonResult" where
  "path_CompareTo compare segments rhs = compare segments rhs"

section \<open>Resource paths\<close>

text \<open>
  What the code uses of the public interface of Abseil: \<open>StrContains\<close>, the delimiter
  \<open>StrSplit\<close> makes of a character, and the predicate \<open>SkipEmpty\<close>.
\<close>

record absl_api =
  StrContains :: "string \<Rightarrow> string \<Rightarrow> bool"
  ByChar :: "char \<Rightarrow> delimiter"
  SkipEmpty :: "string \<Rightarrow> bool"

definition absl_laws :: "absl_api \<Rightarrow> bool" where
  "absl_laws absl \<longleftrightarrow> (\<forall>s t. StrContains absl s t \<longleftrightarrow> sublist t s) \<and> (\<forall>c. by_char c (ByChar absl c)) \<and>
     (\<forall>s. SkipEmpty absl s \<longleftrightarrow> s \<noteq> [])"

definition FromStringView :: "absl_api \<Rightarrow> string \<Rightarrow> path result option" where
  "FromStringView absl path =
     (if StrContains absl path ''//'' then Some (Inl Invalid_argument)
      else do {
        segments \<leftarrow> ConvertToVector (ByChar absl (CHR ''/'')) (SkipEmpty absl) (Some path);
        Some (Inr segments)
      })"

definition FromString :: "absl_api \<Rightarrow> string \<Rightarrow> path result option" where
  "FromString absl path = FromStringView absl path"

definition CanonicalString :: "char \<Rightarrow> path \<Rightarrow> string option" where
  "CanonicalString junk segments = JoinAlgorithm_NoFormatter junk ''/'' segments"

section \<open>Document keys\<close>

text \<open>A key holds a shared pointer to its path; it is null in a key that was moved from.\<close>

type_synonym document_key = "path option"

definition key_path :: "document_key \<Rightarrow> path" where
  "key_path key = (case key of Some p \<Rightarrow> p | None \<Rightarrow> [])"

definition IsDocumentKey :: "path \<Rightarrow> bool" where
  "IsDocumentKey path \<longleftrightarrow> length path mod 2 = 0"

definition DocumentKey_default :: document_key where
  "DocumentKey_default = Some []"

definition DocumentKey :: "path \<Rightarrow> document_key result" where
  "DocumentKey path = hard_assert (IsDocumentKey path) (Inr (Some path))"

definition FromPathString :: "absl_api \<Rightarrow> string \<Rightarrow> document_key result option" where
  "FromPathString absl path = do { p \<leftarrow> FromString absl path; Some (bind_result p DocumentKey) }"

definition FromSegments :: "string list \<Rightarrow> document_key result" where
  "FromSegments segments = DocumentKey segments"

definition FromName :: "absl_api \<Rightarrow> string \<Rightarrow> document_key result option" where
  "FromName absl name = do {
     r \<leftarrow> FromString absl name;
     Some (bind_result r (\<lambda>resource_name.
       hard_assert
         (length resource_name > 4 \<and> path_at resource_name 0 = Inr ''projects'' \<and>
          path_at resource_name 2 = Inr ''databases'' \<and> path_at resource_name 4 = Inr ''documents'')
         (bind_result (PopFirst resource_name 5) DocumentKey)))
   }"

definition key_CompareTo :: "compare_container \<Rightarrow> document_key \<Rightarrow> document_key \<Rightarrow> ComparisonResult" where
  "key_CompareTo compare key other = path_CompareTo compare (key_path key) (key_path other)"

definition key_eq :: "document_key \<Rightarrow> document_key \<Rightarrow> bool" where
  "key_eq lhs rhs \<longleftrightarrow> key_path lhs = key_path rhs"

definition key_less :: "compare_container \<Rightarrow> document_key \<Rightarrow> document_key \<Rightarrow> bool" where
  "key_less compare lhs rhs \<longleftrightarrow> key_CompareTo compare lhs rhs = Ascending"

definition key_greater :: "compare_container \<Rightarrow> document_key \<Rightarrow> document_key \<Rightarrow> bool" where
  "key_greater compare lhs rhs \<longleftrightarrow> key_CompareTo compare lhs rhs = Descending"

definition key_le :: "compare_container \<Rightarrow> document_key \<Rightarrow> document_key \<Rightarrow> bool" where
  "key_le compare lhs rhs \<longleftrightarrow> \<not> key_less compare rhs lhs"

definition key_ToString :: "char \<Rightarrow> document_key \<Rightarrow> string option" where
  "key_ToString junk key = CanonicalString junk (key_path key)"

definition GetCollectionId :: "document_key \<Rightarrow> string option" where
  "GetCollectionId key =
     (let size = length (key_path key)
      in if size < 2 then None
         else (case path_at (key_path key) (size - 2) of Inr s \<Rightarrow> Some s | Inl _ \<Rightarrow> None))"

definition HasCollectionId :: "document_key \<Rightarrow> string \<Rightarrow> bool" where
  "HasCollectionId key collection_id =
     (case GetCollectionId key of None \<Rightarrow> False | Some c \<Rightarrow> c = collection_id)"

section \<open>Segments: laws\<close>

lemma std_equal_prefix: "std_equal xs ys \<longleftrightarrow> prefix xs ys"
  by (induction xs ys rule: std_equal.induct) auto

lemma IsPrefixOf_prefix: "IsPrefixOf p q \<longleftrightarrow> prefix p q"
  by (auto simp: IsPrefixOf_def std_equal_prefix dest: prefix_length_le)

lemma IsImmediateParentOf_iff: "IsImmediateParentOf p q \<longleftrightarrow> (\<exists>s. q = Append p s)"
proof
  assume "IsImmediateParentOf p q"
  then obtain r where "q = p @ r" "length r = 1" by (auto simp: IsImmediateParentOf_def std_equal_prefix prefix_def)
  then show "\<exists>s. q = Append p s" by (auto simp: Append_def length_Suc_conv)
qed (auto simp: IsImmediateParentOf_def Append_def std_equal_prefix)

text \<open>
  The path operations satisfy the algebra their clients rely on: dropping the last segment
  undoes appending one, a path is the parent of exactly its one-segment extensions, and the
  prefix test decides whether a path extends another.
\<close>

theorem path_algebra:
  "PopLast (Append p s) = Inr p \<and> last_segment (Append p s) = Inr s
   \<and> (IsImmediateParentOf p q \<longleftrightarrow> (\<exists>s. q = Append p s))
   \<and> (IsPrefixOf p q \<longleftrightarrow> (\<exists>r. q = Append_path p r))
   \<and> PopFirst (Append_path p q) (length p) = Inr q
   \<and> (PopLast p = Inl Assert_failed \<longleftrightarrow> p = []) \<and> (PopFirst p n = Inl Assert_failed \<longleftrightarrow> length p < n)"
proof -
  have "PopLast (Append p s) = Inr p" "last_segment (Append p s) = Inr s"
    "PopFirst (Append_path p q) (length p) = Inr q"
    by (simp_all add: PopLast_def Append_def last_segment_def PopFirst_def Append_path_def)
  moreover have "IsPrefixOf p q \<longleftrightarrow> (\<exists>r. q = Append_path p r)"
    by (simp add: IsPrefixOf_prefix Append_path_def prefix_def)
  moreover have "PopLast p = Inl Assert_failed \<longleftrightarrow> p = []" "PopFirst p n = Inl Assert_failed \<longleftrightarrow> length p < n"
    by (auto simp: PopLast_def PopFirst_def hard_assert_def)
  ultimately show ?thesis using IsImmediateParentOf_iff by blast
qed

section \<open>Parsing and printing\<close>

lemma pieces_neq_Nil [simp]: "pieces c s \<noteq> []"
  by (subst pieces.simps) simp

lemma pieces_append: "pieces c (x @ c # y) = pieces c x @ pieces c y"
proof (induction c x rule: pieces.induct)
  case (1 c x)
  show ?case
  proof (cases "dropWhile (\<lambda>a. a \<noteq> c) x")
    case Nil
    then have "takeWhile (\<lambda>a. a \<noteq> c) x = x" "\<forall>a \<in> set x. a \<noteq> c" by (simp_all add: takeWhile_eq_all_conv)
    with Nil show ?thesis
      by (simp add: pieces.simps [of c "x @ c # y"] pieces.simps [of c x] takeWhile_append2 dropWhile_append2
          del: dropWhile_eq_Nil_conv takeWhile_eq_all_conv)
  next
    case (Cons a r)
    then obtain b where b: "b \<in> set x" "b = c" using dropWhile_eq_Nil_conv [of "\<lambda>a. a \<noteq> c" x] by auto
    then have "takeWhile (\<lambda>a. a \<noteq> c) (x @ c # y) = takeWhile (\<lambda>a. a \<noteq> c) x"
      "dropWhile (\<lambda>a. a \<noteq> c) (x @ c # y) = a # r @ c # y"
      using Cons by (simp_all add: takeWhile_append1 dropWhile_append1)
    then show ?thesis using "1.IH" [OF Cons] Cons
      by (simp add: pieces.simps [of c "x @ c # y"] pieces.simps [of c x] del: dropWhile_eq_Cons_conv)
  qed
qed

lemma pieces_single: "c \<notin> set s \<Longrightarrow> pieces c s = [s]"
proof -
  assume "c \<notin> set s"
  then have "takeWhile (\<lambda>x. x \<noteq> c) s = s" "dropWhile (\<lambda>x. x \<noteq> c) s = []" by (auto simp: takeWhile_eq_all_conv)
  then show ?thesis by (simp add: pieces.simps [of c s] del: dropWhile_eq_Nil_conv takeWhile_eq_all_conv)
qed

lemma pieces_join: "p \<noteq> [] \<Longrightarrow> \<forall>s \<in> set p. c \<notin> set s \<Longrightarrow> pieces c (intersperse_sep [c] p) = p"
proof (induction "[c]" p rule: intersperse_sep.induct)
  case (3 x y ys)
  then show ?case by (simp add: pieces_append pieces_single)
qed (simp_all add: pieces_single)

lemma pieces_free: "x \<in> set (pieces c s) \<Longrightarrow> c \<notin> set x"
proof (induction c s rule: pieces.induct)
  case (1 c s)
  have "c \<notin> set (takeWhile (\<lambda>x. x \<noteq> c) s)" by (auto dest: set_takeWhileD)
  then show ?case using "1.prems" "1.IH"
    by (cases "dropWhile (\<lambda>x. x \<noteq> c) s") (auto simp: pieces.simps [of c s] simp del: dropWhile_eq_Cons_conv dropWhile_eq_Nil_conv)
qed

lemma join_pieces: "intersperse_sep [c] (pieces c s) = s"
proof (induction c s rule: pieces.induct)
  case (1 c s)
  have split: "s = takeWhile (\<lambda>x. x \<noteq> c) s @ dropWhile (\<lambda>x. x \<noteq> c) s" by simp
  show ?case
  proof (cases "dropWhile (\<lambda>x. x \<noteq> c) s")
    case Nil
    then show ?thesis using split by (simp add: pieces.simps [of c s] del: dropWhile_eq_Nil_conv)
  next
    case (Cons a r)
    then have "a = c" using hd_dropWhile [of "\<lambda>x. x \<noteq> c" s] by simp
    obtain y ys where y: "pieces c r = y # ys" using pieces_neq_Nil [of c r] by (cases "pieces c r") auto
    have "pieces c s = takeWhile (\<lambda>x. x \<noteq> c) s # y # ys"
      using Cons y by (simp add: pieces.simps [of c s] del: dropWhile_eq_Cons_conv)
    then show ?thesis using "1.IH" [OF Cons] split Cons y \<open>a = c\<close> by (metis append_Cons append_Nil intersperse_sep.simps(3))
  qed
qed

lemma sublist_double: "sublist [c, c] s \<Longrightarrow> [] \<in> set (pieces c s)"
proof -
  assume "sublist [c, c] s"
  then obtain u v where "s = u @ c # c # v" by (auto simp: sublist_def)
  moreover have "pieces c (c # v) = [] # pieces c v" using pieces_append [of c "[]" v] by (simp add: pieces_single)
  ultimately show ?thesis by (simp add: pieces_append)
qed

definition valid_segments :: "path \<Rightarrow> bool" where
  "valid_segments p \<longleftrightarrow> (\<forall>s \<in> set p. s \<noteq> [] \<and> CHR ''/'' \<notin> set s)"

lemma CanonicalString_join: "CanonicalString junk p = Some (intersperse_sep ''/'' p)"
  by (simp add: CanonicalString_def JoinAlgorithm_NoFormatter_sep)

lemma FromString_pieces:
  assumes "absl_laws absl" and "length s < 2 ^ 64"
  shows "FromString absl s =
    Some (if sublist ''//'' s then Inl Invalid_argument else Inr (filter (\<lambda>x. x \<noteq> []) (pieces (CHR ''/'') s)))"
proof -
  have "SkipEmpty absl = (\<lambda>x. x \<noteq> [])" "by_char (CHR ''/'') (ByChar absl (CHR ''/''))"
    using assms(1) by (auto simp: absl_laws_def fun_eq_iff)
  with split_vector [OF this(2) assms(2), of "SkipEmpty absl"] assms(1) show ?thesis
    by (simp add: FromString_def FromStringView_def absl_laws_def)
qed

lemma FromString_Canonical:
  assumes "absl_laws absl" and "valid_segments p" and "length (intersperse_sep ''/'' p) < 2 ^ 64"
  shows "FromString absl (intersperse_sep ''/'' p) = Some (Inr p)"
proof (cases "p = []")
  case True
  then show ?thesis using FromString_pieces [OF assms(1), of "[]"] by (simp add: pieces_single)
next
  case False
  then have ps: "pieces (CHR ''/'') (intersperse_sep ''/'' p) = p"
    using assms(2) by (simp add: pieces_join valid_segments_def)
  then have "\<not> sublist ''//'' (intersperse_sep ''/'' p)"
    using sublist_double [of "CHR ''/''" "intersperse_sep ''/'' p"] assms(2) by (auto simp: valid_segments_def)
  moreover have "filter (\<lambda>x. x \<noteq> []) p = p" using assms(2) by (auto simp: valid_segments_def filter_id_conv)
  ultimately show ?thesis using FromString_pieces [OF assms(1,3)] ps by simp
qed

lemma intersperse_append:
  "xs \<noteq> [] \<Longrightarrow> ys \<noteq> [] \<Longrightarrow> intersperse_sep s (xs @ ys) = intersperse_sep s xs @ s @ intersperse_sep s ys"
proof (induction s xs rule: intersperse_sep.induct)
  case (2 s x)
  then show ?case by (cases ys) simp_all
qed simp_all

lemma intersperse_mid:
  assumes "intersperse_sep [c] (xs @ [] # ys) = s" and "xs \<noteq> []" and "ys \<noteq> []"
  shows "sublist [c, c] s"
proof -
  have "s = intersperse_sep [c] xs @ [c, c] @ intersperse_sep [c] ys"
    using assms intersperse_append [of xs "[] # ys" "[c]"] intersperse_append [of "[[]]" ys "[c]"] by simp
  then show ?thesis unfolding sublist_def by blast
qed

text \<open>Only the first and the last piece of a text without a double separator can be empty.\<close>

lemma drop_empty_last:
  assumes "ys \<noteq> []" and "\<forall>x \<in> set (butlast ys). x \<noteq> []"
  shows "\<exists>b \<in> {[], [c]}. intersperse_sep [c] ys = intersperse_sep [c] (filter (\<lambda>x. x \<noteq> []) ys) @ b \<and>
    (filter (\<lambda>x. x \<noteq> []) ys = [] \<longrightarrow> ys = [[]])"
proof -
  obtain m y where ys: "ys = m @ [y]" using assms(1) by (cases ys rule: rev_cases) auto
  then have m: "filter (\<lambda>x. x \<noteq> []) m = m" using assms(2) by (auto simp: filter_id_conv)
  show ?thesis
  proof (cases "y = []")
    case True
    then show ?thesis using ys m intersperse_append [of m "[[]]" "[c]"] by (cases "m = []") auto
  next
    case False
    then show ?thesis using ys m by auto
  qed
qed

lemma drop_empty_ends:
  assumes "\<not> sublist [c, c] s"
  shows "\<exists>a \<in> {[], [c]}. \<exists>b \<in> {[], [c]}. s = a @ intersperse_sep [c] (filter (\<lambda>x. x \<noteq> []) (pieces c s)) @ b"
proof -
  obtain x ys where ps: "pieces c s = x # ys" using pieces_neq_Nil [of c s] by (cases "pieces c s") auto
  have s: "s = intersperse_sep [c] (x # ys)" using join_pieces [of c s] ps by simp
  show ?thesis
  proof (cases "ys = []")
    case True
    then show ?thesis using s ps by auto
  next
    case False
    have "y \<noteq> []" if y: "y \<in> set (butlast ys)" for y
    proof
      assume "y = []"
      from y obtain u v where uv: "butlast ys = u @ y # v" by (meson split_list)
      then have "x # ys = (x # u) @ [] # v @ [last ys]" using False \<open>y = []\<close> append_butlast_last_id [of ys] by simp
      then show False using intersperse_mid [of c "x # u" "v @ [last ys]" s] s assms by simp
    qed
    then obtain b where b: "b \<in> {[], [c]}" "intersperse_sep [c] ys = intersperse_sep [c] (filter (\<lambda>x. x \<noteq> []) ys) @ b"
      "filter (\<lambda>x. x \<noteq> []) ys = [] \<longrightarrow> ys = [[]]" using drop_empty_last [OF False, of c] by blast
    have s': "s = x @ [c] @ intersperse_sep [c] ys" using s intersperse_append [of "[x]" ys "[c]"] False by simp
    show ?thesis
    proof (cases "x = []")
      case True
      then show ?thesis using s' b ps by (intro bexI [of _ "[c]"] bexI [of _ b]) auto
    next
      case x: False
      show ?thesis
      proof (cases "filter (\<lambda>x. x \<noteq> []) ys = []")
        case True
        then show ?thesis using s' b ps x by (intro bexI [of _ "[]"] bexI [of _ "[c]"]) auto
      next
        case False
        then show ?thesis using s' b ps x intersperse_append [of "[x]" "filter (\<lambda>x. x \<noteq> []) ys" "[c]"]
          by (intro bexI [of _ "[]"] bexI [of _ b]) auto
      qed
    qed
  qed
qed

text \<open>
  C25: printing a path and parsing the result gives the path back, for every path whose
  segments are not empty and contain no slash.
\<close>

theorem resource_path_roundtrip:
  assumes "absl_laws absl" and "valid_segments p" and "length (intersperse_sep ''/'' p) < 2 ^ 64"
  shows "\<exists>s. CanonicalString junk p = Some s \<and> FromString absl s = Some (Inr p)"
  using FromString_Canonical [OF assms] by (simp add: CanonicalString_join)

definition absl_std :: absl_api where
  "absl_std = \<lparr>StrContains = (\<lambda>s t. sublist t s), ByChar = find_char, SkipEmpty = (\<lambda>s. s \<noteq> [])\<rparr>"

lemma absl_std_laws: "absl_laws absl_std"
  by (simp add: absl_laws_def absl_std_def by_char_find_char)

theorem resource_path_roundtrip_witness:
  "\<exists>s. CanonicalString (CHR ''?'') [''rooms'', ''eros''] = Some s \<and> FromString absl_std s = Some (Inr [''rooms'', ''eros''])"
  by (rule resource_path_roundtrip [OF absl_std_laws]) (simp_all add: valid_segments_def)

text \<open>
  C26: parsing fails exactly on a text with a double slash; otherwise its segments are valid
  ones and the text is their canonical string but for one slash at either end.
\<close>

theorem resource_path_parse:
  assumes "absl_laws absl" and "length s < 2 ^ 64"
  shows "if sublist ''//'' s then FromString absl s = Some (Inl Invalid_argument)
    else \<exists>p t. FromString absl s = Some (Inr p) \<and> valid_segments p \<and> CanonicalString junk p = Some t \<and>
      (\<exists>a \<in> {'''', ''/''}. \<exists>b \<in> {'''', ''/''}. s = a @ t @ b)"
proof (cases "sublist ''//'' s")
  case True
  then show ?thesis using FromString_pieces [OF assms] by simp
next
  case False
  let ?p = "filter (\<lambda>x. x \<noteq> []) (pieces (CHR ''/'') s)"
  have "valid_segments ?p" by (auto simp: valid_segments_def dest: pieces_free)
  with False show ?thesis
    using FromString_pieces [OF assms] drop_empty_ends [of "CHR ''/''" s] by (simp add: CanonicalString_join)
qed

theorem resource_path_parse_witness:
  "FromString absl_std ''a//b'' = Some (Inl Invalid_argument)"
proof -
  have "''a//b'' = ''a'' @ ''//'' @ ''b''" by simp
  then have "sublist ''//'' ''a//b''" unfolding sublist_def by blast
  then show ?thesis using resource_path_parse [OF absl_std_laws, of "''a//b''"] by simp
qed

text \<open>
  C27: the key of a document is recovered from its full resource name and from its string, and
  the path of a collection is refused by an assertion.
\<close>

theorem document_key_names:
  assumes "absl_laws absl" and "valid_segments (pid # db # p)"
    and "length (intersperse_sep ''/'' (''projects'' # pid # ''databases'' # db # ''documents'' # p)) < 2 ^ 64"
  shows "FromName absl (intersperse_sep ''/'' (''projects'' # pid # ''databases'' # db # ''documents'' # p)) =
      Some (if even (length p) then Inr (Some p) else Inl Assert_failed)
    \<and> (\<exists>s. key_ToString junk (Some p) = Some s \<and>
        FromPathString absl s = Some (if even (length p) then Inr (Some p) else Inl Assert_failed))"
proof -
  let ?full = "''projects'' # pid # ''databases'' # db # ''documents'' # p"
  have full: "valid_segments ?full" and p: "valid_segments p" using assms(2) by (auto simp: valid_segments_def)
  have "length (intersperse_sep ''/'' p) < 2 ^ 64"
    using assms(3) by (cases p) (auto simp: intersperse_sep_Cons)
  from FromString_Canonical [OF assms(1) p this] FromString_Canonical [OF assms(1) full assms(3)]
  show ?thesis
    by (auto simp: FromName_def FromPathString_def key_ToString_def key_path_def CanonicalString_join DocumentKey_def
        IsDocumentKey_def path_at_def PopFirst_def hard_assert_def even_iff_mod_2_eq_zero simp del: intersperse_sep.simps)
qed

theorem document_key_names_witness:
  "FromName absl_std ''projects/notely/databases/(default)/documents/notes/n1'' = Some (Inr (Some [''notes'', ''n1'']))"
  using document_key_names [OF absl_std_laws, of "''notely''" "''(default)''" "[''notes'', ''n1'']"]
  by (simp add: valid_segments_def)

end
