(* ===== verification/Mutations.thy ===== *)
theory Mutations
  imports Paths
begin

text \<open>
  Documents and the mutations applied to them: \<open>model/mutable_document.cc\<close>,
  \<open>model/precondition.cc\<close>, \<open>model/set_mutation.cc\<close>, \<open>model/patch_mutation.cc\<close>,
  \<open>model/delete_mutation.cc\<close>, \<open>model/verify_mutation.cc\<close>, \<open>model/mutation_batch.cc\<close> and
  \<open>model/mutation_batch_result.cc\<close>.

  A document holds its data behind a shared pointer and a patch changes that data in place, so
  the model keeps the objects in a store and a document holds the address of its object.
\<close>

section \<open>Documents\<close>

text \<open>A version is a timestamp: seconds and nanoseconds.\<close>

datatype snapshot_version = SnapshotVersion int int

definition SnapshotVersion_None :: snapshot_version where
  "SnapshotVersion_None = SnapshotVersion 0 0"

datatype DocumentType = kInvalid | kFoundDocument | kNoDocument | kUnknownDocument

datatype DocumentState = kSynced | kHasLocalMutations | kHasCommittedMutations

record mutable_document =
  doc_key :: document_key
  document_type :: DocumentType
  doc_version :: snapshot_version
  read_time :: snapshot_version
  doc_value :: nat
  document_state :: DocumentState

text \<open>
  Code outside of these files: the operations of \<open>ObjectValue\<close>, the helpers of
  \<open>Mutation::Rep\<close> and the tests on the document type.
\<close>

type_synonym 'fv transform_map = "path \<rightharpoonup> 'fv option"

record ('v, 'fv, 'tr, 'ts) mutation_api =
  ov_empty :: 'v
  ov_get :: "'v \<Rightarrow> path \<Rightarrow> 'fv option"
  ov_set_all :: "'v \<Rightarrow> 'fv transform_map \<Rightarrow> 'v"
  deep_clone :: "'v \<Rightarrow> 'v"
  server_transform_results :: "'tr list \<Rightarrow> 'v \<Rightarrow> 'fv list \<Rightarrow> 'fv transform_map result"
  local_transform_results :: "'tr list \<Rightarrow> 'v \<Rightarrow> 'ts \<Rightarrow> 'fv transform_map result"
  post_mutation_version :: "DocumentType \<Rightarrow> snapshot_version \<Rightarrow> snapshot_version"
  key_matches :: "document_key \<Rightarrow> document_key \<Rightarrow> bool"
  is_found_document :: "DocumentType \<Rightarrow> bool"
  is_valid_document :: "DocumentType \<Rightarrow> bool"

type_synonym 'v objects = "'v list"

definition make_shared :: "'v \<Rightarrow> 'v objects \<Rightarrow> 'v objects \<times> nat" where
  "make_shared v objs = (objs @ [v], length objs)"

definition InvalidDocument ::
    "('v, 'fv, 'tr, 'ts) mutation_api \<Rightarrow> document_key \<Rightarrow> 'v objects \<Rightarrow> 'v objects \<times> mutable_document" where
  "InvalidDocument api key objs =
     (let (objs', a) = make_shared (ov_empty api) objs
      in (objs', \<lparr>doc_key = key, document_type = kInvalid, doc_version = SnapshotVersion_None,
                  read_time = SnapshotVersion_None, doc_value = a, document_state = kSynced\<rparr>))"

definition ConvertToFoundDocument_value ::
    "snapshot_version \<Rightarrow> 'v \<Rightarrow> 'v objects \<times> mutable_document \<Rightarrow> 'v objects \<times> mutable_document" where
  "ConvertToFoundDocument_value version v = (\<lambda>(objs, d).
     let (objs', a) = make_shared v objs
     in (objs', d\<lparr>doc_version := version, document_type := kFoundDocument, doc_value := a, document_state := kSynced\<rparr>))"

definition ConvertToFoundDocument ::
    "snapshot_version \<Rightarrow> 'v objects \<times> mutable_document \<Rightarrow> 'v objects \<times> mutable_document" where
  "ConvertToFoundDocument version = (\<lambda>(objs, d).
     (objs, d\<lparr>doc_version := version, document_type := kFoundDocument, document_state := kSynced\<rparr>))"

definition ConvertToNoDocument ::
    "('v, 'fv, 'tr, 'ts) mutation_api \<Rightarrow> snapshot_version \<Rightarrow>
       'v objects \<times> mutable_document \<Rightarrow> 'v objects \<times> mutable_document" where
  "ConvertToNoDocument api version = (\<lambda>(objs, d).
     let (objs', a) = make_shared (ov_empty api) objs
     in (objs', d\<lparr>doc_version := version, document_type := kNoDocument, doc_value := a, document_state := kSynced\<rparr>))"

definition ConvertToUnknownDocument ::
    "('v, 'fv, 'tr, 'ts) mutation_api \<Rightarrow> snapshot_version \<Rightarrow>
       'v objects \<times> mutable_document \<Rightarrow> 'v objects \<times> mutable_document" where
  "ConvertToUnknownDocument api version = (\<lambda>(objs, d).
     let (objs', a) = make_shared (ov_empty api) objs
     in (objs', d\<lparr>doc_version := version, document_type := kUnknownDocument, doc_value := a,
                  document_state := kHasCommittedMutations\<rparr>))"

definition SetHasCommittedMutations :: "'v objects \<times> mutable_document \<Rightarrow> 'v objects \<times> mutable_document" where
  "SetHasCommittedMutations = (\<lambda>(objs, d). (objs, d\<lparr>document_state := kHasCommittedMutations\<rparr>))"

definition SetHasLocalMutations :: "'v objects \<times> mutable_document \<Rightarrow> 'v objects \<times> mutable_document" where
  "SetHasLocalMutations = (\<lambda>(objs, d). (objs, d\<lparr>document_state := kHasLocalMutations\<rparr>))"

definition WithReadTime ::
    "snapshot_version \<Rightarrow> 'v objects \<times> mutable_document \<Rightarrow> 'v objects \<times> mutable_document" where
  "WithReadTime t = (\<lambda>(objs, d). (objs, d\<lparr>read_time := t\<rparr>))"

definition FoundDocument ::
    "('v, 'fv, 'tr, 'ts) mutation_api \<Rightarrow> document_key \<Rightarrow> snapshot_version \<Rightarrow> 'v \<Rightarrow>
       'v objects \<Rightarrow> 'v objects \<times> mutable_document" where
  "FoundDocument api key version v objs = ConvertToFoundDocument_value version v (InvalidDocument api key objs)"

definition NoDocument ::
    "('v, 'fv, 'tr, 'ts) mutation_api \<Rightarrow> document_key \<Rightarrow> snapshot_version \<Rightarrow>
       'v objects \<Rightarrow> 'v objects \<times> mutable_document" where
  "NoDocument api key version objs = ConvertToNoDocument api version (InvalidDocument api key objs)"

definition UnknownDocument ::
    "('v, 'fv, 'tr, 'ts) mutation_api \<Rightarrow> document_key \<Rightarrow> snapshot_version \<Rightarrow>
       'v objects \<Rightarrow> 'v objects \<times> mutable_document" where
  "UnknownDocument api key version objs = ConvertToUnknownDocument api version (InvalidDocument api key objs)"

definition Clone ::
    "('v, 'fv, 'tr, 'ts) mutation_api \<Rightarrow> 'v objects \<times> mutable_document \<Rightarrow> 'v objects \<times> mutable_document" where
  "Clone api = (\<lambda>(objs, d).
     let (objs', a) = make_shared (deep_clone api (objs ! doc_value d)) objs in (objs', d\<lparr>doc_value := a\<rparr>))"

text \<open>\<open>document.data()\<close>, and \<open>data.SetAll(...)\<close> on it.\<close>

definition data_of :: "'v objects \<times> mutable_document \<Rightarrow> 'v" where
  "data_of = (\<lambda>(objs, d). objs ! doc_value d)"

definition data_SetAll ::
    "('v, 'fv, 'tr, 'ts) mutation_api \<Rightarrow> 'fv transform_map \<Rightarrow>
       'v objects \<times> mutable_document \<Rightarrow> 'v objects \<times> mutable_document" where
  "data_SetAll api m = (\<lambda>(objs, d). (objs[doc_value d := ov_set_all api (objs ! doc_value d) m], d))"

section \<open>Preconditions\<close>

datatype precondition_type = Precondition_None | Precondition_Exists | Precondition_UpdateTime

record precondition =
  pc_type :: precondition_type
  pc_update_time :: snapshot_version
  pc_exists :: bool

definition Precondition_of_Exists :: "bool \<Rightarrow> precondition" where
  "Precondition_of_Exists ex = \<lparr>pc_type = Precondition_Exists, pc_update_time = SnapshotVersion_None, pc_exists = ex\<rparr>"

definition Precondition_of_UpdateTime :: "snapshot_version \<Rightarrow> precondition" where
  "Precondition_of_UpdateTime t = \<lparr>pc_type = Precondition_UpdateTime, pc_update_time = t, pc_exists = False\<rparr>"

definition Precondition_of_None :: precondition where
  "Precondition_of_None = \<lparr>pc_type = Precondition_None, pc_update_time = SnapshotVersion_None, pc_exists = False\<rparr>"

definition IsValidFor ::
    "('v, 'fv, 'tr, 'ts) mutation_api \<Rightarrow> precondition \<Rightarrow> mutable_document \<Rightarrow> bool" where
  "IsValidFor api p d =
     (case pc_type p of
        Precondition_UpdateTime \<Rightarrow> is_found_document api (document_type d) \<and> doc_version d = pc_update_time p
      | Precondition_Exists \<Rightarrow> pc_exists p = is_found_document api (document_type d)
      | Precondition_None \<Rightarrow> True)"

section \<open>Mutations\<close>

datatype 'v mutation_body =
  Set_mutation 'v | Patch_mutation 'v "path list" | Delete_mutation | Verify_mutation

record ('v, 'tr) mutation =
  mut_key :: document_key
  mut_precondition :: precondition
  field_transforms :: "'tr list"
  mut_body :: "'v mutation_body"

record 'fv mutation_result =
  mr_version :: snapshot_version
  transform_results :: "'fv list"

type_synonym 'v doc_in = "'v objects \<times> mutable_document"

definition GetPatch :: "('v, 'fv, 'tr, 'ts) mutation_api \<Rightarrow> 'v \<Rightarrow> path list \<Rightarrow> 'fv transform_map" where
  "GetPatch api v fmask =
     fold (\<lambda>path m. if path \<noteq> [] then m(path \<mapsto> ov_get api v path) else m) fmask Map.empty"

definition Set_ApplyToRemoteDocument ::
    "('v, 'fv, 'tr, 'ts) mutation_api \<Rightarrow> ('v, 'tr) mutation \<Rightarrow> 'v \<Rightarrow> 'fv mutation_result \<Rightarrow> 'v doc_in \<Rightarrow> 'v doc_in result" where
  "Set_ApplyToRemoteDocument api m v mr s =
     hard_assert (key_matches api (mut_key m) (doc_key (snd s)))
       (bind_result (server_transform_results api (field_transforms m) (data_of s) (transform_results mr)) (\<lambda>t.
         Inr (SetHasCommittedMutations
           (ConvertToFoundDocument_value (mr_version mr) (ov_set_all api (deep_clone api v) t) s))))"

definition Set_ApplyToLocalView ::
    "('v, 'fv, 'tr, 'ts) mutation_api \<Rightarrow> ('v, 'tr) mutation \<Rightarrow> 'v \<Rightarrow> 'ts \<Rightarrow> 'v doc_in \<Rightarrow> 'v doc_in result" where
  "Set_ApplyToLocalView api m v time s =
     hard_assert (key_matches api (mut_key m) (doc_key (snd s)))
       (if \<not> IsValidFor api (mut_precondition m) (snd s) then Inr s
        else bind_result (local_transform_results api (field_transforms m) (data_of s) time) (\<lambda>t.
          Inr (SetHasLocalMutations
            (ConvertToFoundDocument_value
              (post_mutation_version api (document_type (snd s)) (doc_version (snd s)))
              (ov_set_all api (deep_clone api v) t) s))))"

definition Patch_ApplyToRemoteDocument ::
    "('v, 'fv, 'tr, 'ts) mutation_api \<Rightarrow> ('v, 'tr) mutation \<Rightarrow> 'v \<Rightarrow> path list \<Rightarrow> 'fv mutation_result \<Rightarrow>
       'v doc_in \<Rightarrow> 'v doc_in result" where
  "Patch_ApplyToRemoteDocument api m v fmask mr s =
     hard_assert (key_matches api (mut_key m) (doc_key (snd s)))
       (if \<not> IsValidFor api (mut_precondition m) (snd s)
        then Inr (ConvertToUnknownDocument api (mr_version mr) s)
        else bind_result (server_transform_results api (field_transforms m) (data_of s) (transform_results mr)) (\<lambda>t.
          Inr (SetHasCommittedMutations (ConvertToFoundDocument (mr_version mr)
            (data_SetAll api t (data_SetAll api (GetPatch api v fmask) s))))))"

definition Patch_ApplyToLocalView ::
    "('v, 'fv, 'tr, 'ts) mutation_api \<Rightarrow> ('v, 'tr) mutation \<Rightarrow> 'v \<Rightarrow> path list \<Rightarrow> 'ts \<Rightarrow>
       'v doc_in \<Rightarrow> 'v doc_in result" where
  "Patch_ApplyToLocalView api m v fmask time s =
     hard_assert (key_matches api (mut_key m) (doc_key (snd s)))
       (if \<not> IsValidFor api (mut_precondition m) (snd s) then Inr s
        else bind_result (local_transform_results api (field_transforms m) (data_of s) time) (\<lambda>t.
          let s' = data_SetAll api t (data_SetAll api (GetPatch api v fmask) s)
          in Inr (SetHasLocalMutations (ConvertToFoundDocument
               (post_mutation_version api (document_type (snd s')) (doc_version (snd s'))) s'))))"

definition Delete_ApplyToRemoteDocument ::
    "('v, 'fv, 'tr, 'ts) mutation_api \<Rightarrow> ('v, 'tr) mutation \<Rightarrow> 'fv mutation_result \<Rightarrow> 'v doc_in \<Rightarrow> 'v doc_in result" where
  "Delete_ApplyToRemoteDocument api m mr s =
     hard_assert (key_matches api (mut_key m) (doc_key (snd s)))
       (hard_assert (length (transform_results mr) = 0)
         (Inr (SetHasCommittedMutations (ConvertToNoDocument api (mr_version mr) s))))"

definition Delete_ApplyToLocalView ::
    "('v, 'fv, 'tr, 'ts) mutation_api \<Rightarrow> ('v, 'tr) mutation \<Rightarrow> 'v doc_in \<Rightarrow> 'v doc_in result" where
  "Delete_ApplyToLocalView api m s =
     hard_assert (key_matches api (mut_key m) (doc_key (snd s)))
       (Inr (if IsValidFor api (mut_precondition m) (snd s)
             then ConvertToNoDocument api SnapshotVersion_None s else s))"

definition Verify_Apply :: "'v doc_in \<Rightarrow> 'v doc_in result" where
  "Verify_Apply s = Inl Hard_fail"

definition ApplyToRemoteDocument ::
    "('v, 'fv, 'tr, 'ts) mutation_api \<Rightarrow> ('v, 'tr) mutation \<Rightarrow> 'fv mutation_result \<Rightarrow> 'v doc_in \<Rightarrow> 'v doc_in result" where
  "ApplyToRemoteDocument api m mr s =
     (case mut_body m of
        Set_mutation v \<Rightarrow> Set_ApplyToRemoteDocument api m v mr s
      | Patch_mutation v fmask \<Rightarrow> Patch_ApplyToRemoteDocument api m v fmask mr s
      | Delete_mutation \<Rightarrow> Delete_ApplyToRemoteDocument api m mr s
      | Verify_mutation \<Rightarrow> Verify_Apply s)"

definition ApplyToLocalView ::
    "('v, 'fv, 'tr, 'ts) mutation_api \<Rightarrow> ('v, 'tr) mutation \<Rightarrow> 'ts \<Rightarrow> 'v doc_in \<Rightarrow> 'v doc_in result" where
  "ApplyToLocalView api m time s =
     (case mut_body m of
        Set_mutation v \<Rightarrow> Set_ApplyToLocalView api m v time s
      | Patch_mutation v fmask \<Rightarrow> Patch_ApplyToLocalView api m v fmask time s
      | Delete_mutation \<Rightarrow> Delete_ApplyToLocalView api m s
      | Verify_mutation \<Rightarrow> Verify_Apply s)"

section \<open>Batches\<close>

record ('v, 'tr, 'ts) mutation_batch =
  batch_id :: int
  local_write_time :: 'ts
  base_mutations :: "('v, 'tr) mutation list"
  mutations :: "('v, 'tr) mutation list"

definition MutationBatch ::
    "int \<Rightarrow> 'ts \<Rightarrow> ('v, 'tr) mutation list \<Rightarrow> ('v, 'tr) mutation list \<Rightarrow> ('v, 'tr, 'ts) mutation_batch result" where
  "MutationBatch i t base ms =
     hard_assert (ms \<noteq> []) (Inr \<lparr>batch_id = i, local_write_time = t, base_mutations = base, mutations = ms\<rparr>)"

fun remote_loop ::
    "('v, 'fv, 'tr, 'ts) mutation_api \<Rightarrow> (('v, 'tr) mutation \<times> 'fv mutation_result) list \<Rightarrow> 'v doc_in \<Rightarrow> 'v doc_in result" where
  "remote_loop api [] s = Inr s"
| "remote_loop api ((m, mr) # ms) s =
     (if key_eq (mut_key m) (doc_key (snd s))
      then bind_result (ApplyToRemoteDocument api m mr s) (remote_loop api ms)
      else remote_loop api ms s)"

definition Batch_ApplyToRemoteDocument ::
    "('v, 'fv, 'tr, 'ts) mutation_api \<Rightarrow> ('v, 'tr, 'ts) mutation_batch \<Rightarrow> 'fv mutation_result list \<Rightarrow>
       'v doc_in \<Rightarrow> 'v doc_in result" where
  "Batch_ApplyToRemoteDocument api b mrs s =
     hard_assert (length mrs = length (mutations b)) (remote_loop api (zip (mutations b) mrs) s)"

fun local_loop ::
    "('v, 'fv, 'tr, 'ts) mutation_api \<Rightarrow> 'ts \<Rightarrow> ('v, 'tr) mutation list \<Rightarrow> 'v doc_in \<Rightarrow> 'v doc_in result" where
  "local_loop api t [] s = Inr s"
| "local_loop api t (m # ms) s =
     (if key_eq (mut_key m) (doc_key (snd s))
      then bind_result (ApplyToLocalView api m t s) (local_loop api t ms)
      else local_loop api t ms s)"

definition ApplyToLocalDocument ::
    "('v, 'fv, 'tr, 'ts) mutation_api \<Rightarrow> ('v, 'tr, 'ts) mutation_batch \<Rightarrow> 'v doc_in \<Rightarrow> 'v doc_in result" where
  "ApplyToLocalDocument api b s =
     bind_result (local_loop api (local_write_time b) (base_mutations b) s)
       (local_loop api (local_write_time b) (mutations b))"

text \<open>A document map, by the path of the key, over one store of objects.\<close>

type_synonym 'v doc_map = "'v objects \<times> (path \<rightharpoonup> mutable_document)"

definition local_set_step ::
    "('v, 'fv, 'tr, 'ts) mutation_api \<Rightarrow> ('v, 'tr, 'ts) mutation_batch \<Rightarrow> ('v, 'tr) mutation \<Rightarrow> 'v doc_map \<Rightarrow> 'v doc_map result" where
  "local_set_step api b m = (\<lambda>(objs, dm).
     (case dm (key_path (mut_key m)) of
        None \<Rightarrow> Inl Assert_failed
      | Some d \<Rightarrow>
          bind_result (ApplyToLocalDocument api b (objs, d)) (\<lambda>s.
            let s' = (if \<not> is_valid_document api (document_type (snd s))
                      then ConvertToNoDocument api SnapshotVersion_None s else s)
            in Inr (fst s', dm(key_path (mut_key m) \<mapsto> snd s')))))"

fun local_set_loop ::
    "('v, 'fv, 'tr, 'ts) mutation_api \<Rightarrow> ('v, 'tr, 'ts) mutation_batch \<Rightarrow> ('v, 'tr) mutation list \<Rightarrow>
       'v doc_map \<Rightarrow> 'v doc_map result" where
  "local_set_loop api b [] s = Inr s"
| "local_set_loop api b (m # ms) s = bind_result (local_set_step api b m s) (local_set_loop api b ms)"

definition ApplyToLocalDocumentSet ::
    "('v, 'fv, 'tr, 'ts) mutation_api \<Rightarrow> ('v, 'tr, 'ts) mutation_batch \<Rightarrow> 'v doc_map \<Rightarrow> 'v doc_map result" where
  "ApplyToLocalDocumentSet api b s = local_set_loop api b (mutations b) s"

definition batch_keys :: "('v, 'tr, 'ts) mutation_batch \<Rightarrow> path set" where
  "batch_keys b = fold (\<lambda>m s. insert (key_path (mut_key m)) s) (mutations b) {}"

text \<open>
  The result of a batch: \<open>version()\<close> of a mutation result is a \<open>SnapshotVersion\<close> (the mutations
  pass it on as one), here converted to an optional one.
\<close>

record ('v, 'fv, 'tr, 'ts) mutation_batch_result =
  br_batch :: "('v, 'tr, 'ts) mutation_batch"
  br_commit_version :: snapshot_version
  br_results :: "'fv mutation_result list"
  doc_versions :: "path \<rightharpoonup> snapshot_version"

definition MutationBatchResult ::
    "('v, 'tr, 'ts) mutation_batch \<Rightarrow> snapshot_version \<Rightarrow> 'fv mutation_result list \<Rightarrow>
       ('v, 'fv, 'tr, 'ts) mutation_batch_result result" where
  "MutationBatchResult b commit_version mrs =
     hard_assert (length (mutations b) = length mrs)
       (Inr \<lparr>br_batch = b, br_commit_version = commit_version, br_results = mrs,
             doc_versions = fold (\<lambda>(m, mr) dv.
               let version = Some (mr_version mr);
                   version = (case version of None \<Rightarrow> Some commit_version | Some v \<Rightarrow> Some v)
               in dv(key_path (mut_key m) \<mapsto> the version)) (zip (mutations b) mrs) Map.empty\<rparr>)"

section \<open>What a mutation does to a document's value\<close>

text \<open>
  The specification forgets the store: a document is a value that contains its data. The
  mutations on the store refine it, as long as the document's address is in the store.
\<close>

record 'v doc_view =
  w_key :: document_key
  w_type :: DocumentType
  w_version :: snapshot_version
  w_read_time :: snapshot_version
  w_data :: 'v
  w_state :: DocumentState

definition view :: "'v doc_in \<Rightarrow> 'v doc_view" where
  "view = (\<lambda>(objs, d). \<lparr>w_key = doc_key d, w_type = document_type d, w_version = doc_version d,
     w_read_time = read_time d, w_data = objs ! doc_value d, w_state = document_state d\<rparr>)"

definition spec_valid :: "('v, 'fv, 'tr, 'ts) mutation_api \<Rightarrow> precondition \<Rightarrow> 'v doc_view \<Rightarrow> bool" where
  "spec_valid api p w =
     (case pc_type p of
        Precondition_UpdateTime \<Rightarrow> is_found_document api (w_type w) \<and> w_version w = pc_update_time p
      | Precondition_Exists \<Rightarrow> pc_exists p = is_found_document api (w_type w)
      | Precondition_None \<Rightarrow> True)"

definition spec_found :: "snapshot_version \<Rightarrow> 'v \<Rightarrow> DocumentState \<Rightarrow> 'v doc_view \<Rightarrow> 'v doc_view" where
  "spec_found version v st w = w\<lparr>w_type := kFoundDocument, w_version := version, w_data := v, w_state := st\<rparr>"

definition spec_gone ::
    "('v, 'fv, 'tr, 'ts) mutation_api \<Rightarrow> DocumentType \<Rightarrow> snapshot_version \<Rightarrow> DocumentState \<Rightarrow> 'v doc_view \<Rightarrow> 'v doc_view" where
  "spec_gone api ty version st w = w\<lparr>w_type := ty, w_version := version, w_data := ov_empty api, w_state := st\<rparr>"

definition spec_remote ::
    "('v, 'fv, 'tr, 'ts) mutation_api \<Rightarrow> ('v, 'tr) mutation \<Rightarrow> 'fv mutation_result \<Rightarrow> 'v doc_view \<Rightarrow> 'v doc_view result" where
  "spec_remote api m mr w =
     (if mut_body m = Verify_mutation then Inl Hard_fail
      else if \<not> key_matches api (mut_key m) (w_key w) then Inl Assert_failed
      else (case mut_body m of
        Set_mutation v \<Rightarrow> bind_result (server_transform_results api (field_transforms m) (w_data w) (transform_results mr))
          (\<lambda>t. Inr (spec_found (mr_version mr) (ov_set_all api (deep_clone api v) t) kHasCommittedMutations w))
      | Patch_mutation v fmask \<Rightarrow>
          if spec_valid api (mut_precondition m) w
          then bind_result (server_transform_results api (field_transforms m) (w_data w) (transform_results mr))
            (\<lambda>t. Inr (spec_found (mr_version mr) (ov_set_all api (ov_set_all api (w_data w) (GetPatch api v fmask)) t)
              kHasCommittedMutations w))
          else Inr (spec_gone api kUnknownDocument (mr_version mr) kHasCommittedMutations w)
      | _ \<Rightarrow> if transform_results mr = [] then Inr (spec_gone api kNoDocument (mr_version mr) kHasCommittedMutations w)
             else Inl Assert_failed))"

definition spec_local ::
    "('v, 'fv, 'tr, 'ts) mutation_api \<Rightarrow> ('v, 'tr) mutation \<Rightarrow> 'ts \<Rightarrow> 'v doc_view \<Rightarrow> 'v doc_view result" where
  "spec_local api m time w =
     (if mut_body m = Verify_mutation then Inl Hard_fail
      else if \<not> key_matches api (mut_key m) (w_key w) then Inl Assert_failed
      else if \<not> spec_valid api (mut_precondition m) w then Inr w
      else (case mut_body m of
        Set_mutation v \<Rightarrow> bind_result (local_transform_results api (field_transforms m) (w_data w) time)
          (\<lambda>t. Inr (spec_found (post_mutation_version api (w_type w) (w_version w))
            (ov_set_all api (deep_clone api v) t) kHasLocalMutations w))
      | Patch_mutation v fmask \<Rightarrow> bind_result (local_transform_results api (field_transforms m) (w_data w) time)
          (\<lambda>t. Inr (spec_found (post_mutation_version api (w_type w) (w_version w))
            (ov_set_all api (ov_set_all api (w_data w) (GetPatch api v fmask)) t) kHasLocalMutations w))
      | _ \<Rightarrow> Inr (spec_gone api kNoDocument SnapshotVersion_None kSynced w)))"

fun spec_local_loop ::
    "('v, 'fv, 'tr, 'ts) mutation_api \<Rightarrow> 'ts \<Rightarrow> ('v, 'tr) mutation list \<Rightarrow> 'v doc_view \<Rightarrow> 'v doc_view result" where
  "spec_local_loop api t [] w = Inr w"
| "spec_local_loop api t (m # ms) w =
     (if key_eq (mut_key m) (w_key w) then bind_result (spec_local api m t w) (spec_local_loop api t ms)
      else spec_local_loop api t ms w)"

definition spec_batch ::
    "('v, 'fv, 'tr, 'ts) mutation_api \<Rightarrow> ('v, 'tr, 'ts) mutation_batch \<Rightarrow> 'v doc_view \<Rightarrow> 'v doc_view result" where
  "spec_batch api b w =
     bind_result (spec_local_loop api (local_write_time b) (base_mutations b) w)
       (spec_local_loop api (local_write_time b) (mutations b))"

text \<open>
  What an operation may touch: the object of its document and new ones. The document keeps its
  object or moves to a new one, and keeps its key.
\<close>

definition in_store :: "'v doc_in \<Rightarrow> bool" where
  "in_store = (\<lambda>(objs, d). doc_value d < length objs)"

definition doc_frame :: "'v doc_in \<Rightarrow> 'v doc_in \<Rightarrow> bool" where
  "doc_frame s s' \<longleftrightarrow> in_store s' \<and> doc_key (snd s') = doc_key (snd s) \<and> length (fst s) \<le> length (fst s') \<and>
     (doc_value (snd s') = doc_value (snd s) \<or> length (fst s) \<le> doc_value (snd s')) \<and>
     (\<forall>a < length (fst s). a \<noteq> doc_value (snd s) \<longrightarrow> fst s' ! a = fst s ! a)"

lemma doc_frame_refl: "in_store s \<Longrightarrow> doc_frame s s"
  by (simp add: doc_frame_def)

lemma doc_frame_trans:
  assumes "doc_frame s s'" and "doc_frame s' s''"
  shows "doc_frame s s''"
proof -
  have "fst s'' ! a = fst s ! a" if "a < length (fst s)" "a \<noteq> doc_value (snd s)" for a
  proof -
    have "a < length (fst s')" "a \<noteq> doc_value (snd s')" using assms(1) that by (auto simp: doc_frame_def)
    then show ?thesis using assms that by (simp add: doc_frame_def)
  qed
  then show ?thesis using assms by (auto simp: doc_frame_def)
qed

definition refines :: "'v doc_in \<Rightarrow> 'v doc_in result \<Rightarrow> 'v doc_view result \<Rightarrow> bool" where
  "refines s r q \<longleftrightarrow>
     (case r of Inl e \<Rightarrow> q = Inl e | Inr s' \<Rightarrow> q = Inr (view s') \<and> doc_frame s s')"

lemma refines_bind:
  assumes "refines s r q" and step: "\<And>s'. doc_frame s s' \<Longrightarrow> refines s' (f s') (g (view s'))"
  shows "refines s (bind_result r f) (bind_result q g)"
proof (cases r)
  case (Inr s')
  with assms(1) have s': "q = Inr (view s')" "doc_frame s s'" by (simp_all add: refines_def)
  from step [OF s'(2)] doc_frame_trans [OF s'(2)] show ?thesis
    by (cases "f s'") (auto simp: refines_def Inr s'(1))
qed (use assms(1) in \<open>simp add: refines_def\<close>)

lemmas document_defs = make_shared_def ConvertToFoundDocument_value_def ConvertToFoundDocument_def
  ConvertToNoDocument_def ConvertToUnknownDocument_def SetHasCommittedMutations_def SetHasLocalMutations_def
  data_of_def data_SetAll_def

lemma found_value_step:
  "in_store s \<Longrightarrow> view (SetHasLocalMutations (ConvertToFoundDocument_value ver v s)) = spec_found ver v kHasLocalMutations (view s) \<and>
     doc_frame s (SetHasLocalMutations (ConvertToFoundDocument_value ver v s))"
  "in_store s \<Longrightarrow> view (SetHasCommittedMutations (ConvertToFoundDocument_value ver v s)) =
       spec_found ver v kHasCommittedMutations (view s) \<and>
     doc_frame s (SetHasCommittedMutations (ConvertToFoundDocument_value ver v s))"
  by (cases s; auto simp: document_defs view_def spec_found_def doc_frame_def in_store_def nth_append)+

lemma found_patch_step:
  assumes "in_store s" and "s' = data_SetAll api t (data_SetAll api p s)"
  shows "view (SetHasLocalMutations (ConvertToFoundDocument ver s')) =
      spec_found ver (ov_set_all api (ov_set_all api (w_data (view s)) p) t) kHasLocalMutations (view s) \<and>
    doc_frame s (SetHasLocalMutations (ConvertToFoundDocument ver s'))"
    and "view (SetHasCommittedMutations (ConvertToFoundDocument ver s')) =
      spec_found ver (ov_set_all api (ov_set_all api (w_data (view s)) p) t) kHasCommittedMutations (view s) \<and>
    doc_frame s (SetHasCommittedMutations (ConvertToFoundDocument ver s'))"
    and "document_type (snd s') = document_type (snd s)" and "doc_version (snd s') = doc_version (snd s)"
  using assms by (cases s; auto simp: document_defs view_def spec_found_def doc_frame_def in_store_def)+

lemma gone_step:
  "in_store s \<Longrightarrow> view (ConvertToNoDocument api ver s) = spec_gone api kNoDocument ver kSynced (view s) \<and>
     doc_frame s (ConvertToNoDocument api ver s)"
  "in_store s \<Longrightarrow> view (SetHasCommittedMutations (ConvertToNoDocument api ver s)) =
       spec_gone api kNoDocument ver kHasCommittedMutations (view s) \<and>
     doc_frame s (SetHasCommittedMutations (ConvertToNoDocument api ver s))"
  "in_store s \<Longrightarrow> view (ConvertToUnknownDocument api ver s) =
       spec_gone api kUnknownDocument ver kHasCommittedMutations (view s) \<and>
     doc_frame s (ConvertToUnknownDocument api ver s)"
  by (cases s; auto simp: document_defs view_def spec_gone_def doc_frame_def in_store_def nth_append)+

lemma view_simps [simp]:
  "w_key (view s) = doc_key (snd s)" "w_type (view s) = document_type (snd s)"
  "w_version (view s) = doc_version (snd s)" "w_data (view s) = data_of s"
  "w_state (view s) = document_state (snd s)"
  by (simp_all add: view_def data_of_def split: prod.splits)

lemma spec_valid_view: "spec_valid api p (view s) = IsValidFor api p (snd s)"
  by (cases "pc_type p") (simp_all add: spec_valid_def IsValidFor_def)

lemma bind_transforms:
  "(\<And>t. r = Inr t \<Longrightarrow> refines s (f t) (g t)) \<Longrightarrow> refines s (bind_result r f) (bind_result r g)"
  by (cases r) (simp_all add: refines_def)

lemma refines_Inr: "view s' = w \<and> doc_frame s s' \<Longrightarrow> refines s (Inr s') (Inr w)"
  by (simp add: refines_def)

lemma refines_Inl: "refines s (Inl e) (Inl e)"
  by (simp add: refines_def)

lemma ApplyToLocalView_refines:
  assumes "in_store s"
  shows "refines s (ApplyToLocalView api m t s) (spec_local api m t (view s))"
proof (cases "mut_body m")
  case (Set_mutation v)
  then show ?thesis using doc_frame_refl [OF assms]
    by (auto simp: ApplyToLocalView_def spec_local_def Set_ApplyToLocalView_def spec_valid_view hard_assert_def
        found_value_step [OF assms] found_patch_step [OF assms refl] gone_step [OF assms]
        intro!: bind_transforms refines_Inr refines_Inl)
next
  case (Patch_mutation v fmask)
  then show ?thesis using doc_frame_refl [OF assms]
    by (auto simp: ApplyToLocalView_def spec_local_def Patch_ApplyToLocalView_def spec_valid_view hard_assert_def Let_def
        found_value_step [OF assms] found_patch_step [OF assms refl] gone_step [OF assms]
        intro!: bind_transforms refines_Inr refines_Inl)
next
  case Delete_mutation
  then show ?thesis using doc_frame_refl [OF assms]
    by (auto simp: ApplyToLocalView_def spec_local_def Delete_ApplyToLocalView_def spec_valid_view hard_assert_def
        found_value_step [OF assms] found_patch_step [OF assms refl] gone_step [OF assms]
        intro!: refines_Inr refines_Inl)
next
  case Verify_mutation
  then show ?thesis by (simp add: ApplyToLocalView_def spec_local_def Verify_Apply_def refines_Inl)
qed

lemma ApplyToRemoteDocument_refines:
  assumes "in_store s"
  shows "refines s (ApplyToRemoteDocument api m mr s) (spec_remote api m mr (view s))"
proof (cases "mut_body m")
  case (Set_mutation v)
  then show ?thesis
    by (auto simp: ApplyToRemoteDocument_def spec_remote_def Set_ApplyToRemoteDocument_def hard_assert_def
        found_value_step [OF assms] found_patch_step [OF assms refl] gone_step [OF assms]
        intro!: bind_transforms refines_Inr refines_Inl)
next
  case (Patch_mutation v fmask)
  then show ?thesis
    by (auto simp: ApplyToRemoteDocument_def spec_remote_def Patch_ApplyToRemoteDocument_def spec_valid_view hard_assert_def
        found_value_step [OF assms] found_patch_step [OF assms refl] gone_step [OF assms]
        intro!: bind_transforms refines_Inr refines_Inl)
next
  case Delete_mutation
  then show ?thesis
    by (auto simp: ApplyToRemoteDocument_def spec_remote_def Delete_ApplyToRemoteDocument_def hard_assert_def
        found_value_step [OF assms] found_patch_step [OF assms refl] gone_step [OF assms]
        intro!: refines_Inr refines_Inl)
next
  case Verify_mutation
  then show ?thesis by (simp add: ApplyToRemoteDocument_def spec_remote_def Verify_Apply_def refines_Inl)
qed

section \<open>Batches on the specification\<close>

lemma doc_frame_in_store: "doc_frame s s' \<Longrightarrow> in_store s'"
  by (simp add: doc_frame_def)

lemma local_loop_refines:
  "in_store s \<Longrightarrow> refines s (local_loop api t ms s) (spec_local_loop api t ms (view s))"
proof (induction ms arbitrary: s)
  case Nil
  then show ?case by (simp add: refines_Inr doc_frame_refl)
next
  case (Cons m ms)
  show ?case
  proof (cases "key_eq (mut_key m) (doc_key (snd s))")
    case True
    then show ?thesis
      using refines_bind [OF ApplyToLocalView_refines [OF Cons.prems] Cons.IH [OF doc_frame_in_store]] by simp
  next
    case False
    then show ?thesis using Cons by simp
  qed
qed

lemma ApplyToLocalDocument_refines:
  "in_store s \<Longrightarrow> refines s (ApplyToLocalDocument api b s) (spec_batch api b (view s))"
  unfolding ApplyToLocalDocument_def spec_batch_def
  by (rule refines_bind [OF local_loop_refines local_loop_refines [OF doc_frame_in_store]])

text \<open>
  C28: applying a batch to a document in the store has the effect the specification gives for
  the document's value alone (base mutations first, then the user's, those of other keys
  skipped, failed preconditions ignored), with the same failures, and it changes no object
  but the document's own and new ones.
\<close>

theorem local_batch_refines_spec:
  assumes "in_store s"
  shows "(case ApplyToLocalDocument api b s of
      Inl e \<Rightarrow> spec_batch api b (view s) = Inl e
    | Inr s' \<Rightarrow> spec_batch api b (view s) = Inr (view s') \<and> doc_key (snd s') = doc_key (snd s) \<and>
        (\<forall>a < length (fst s). a = doc_value (snd s) \<or> fst s' ! a = fst s ! a))"
  using ApplyToLocalDocument_refines [OF assms, of api b]
  by (auto simp: refines_def doc_frame_def split: sum.splits)

text \<open>
  C29: a clone shares nothing with its original: no batch applied to the clone changes any
  object that existed before, so the original and every other document keep their data.
\<close>

theorem clone_isolates:
  assumes "in_store (objs, d)" and "ApplyToLocalDocument api b (Clone api (objs, d)) = Inr (objs', d')"
    and "doc_value e < length objs"
  shows "view (objs', e) = view (objs, e)"
proof -
  let ?c = "Clone api (objs, d)"
  have c: "in_store ?c" "doc_value (snd ?c) = length objs" "fst ?c = objs @ [deep_clone api (objs ! doc_value d)]"
    by (simp_all add: Clone_def make_shared_def in_store_def)
  from ApplyToLocalDocument_refines [OF c(1), of api b] assms(2) have "doc_frame ?c (objs', d')"
    by (simp add: refines_def)
  then have "objs' ! doc_value e = objs ! doc_value e"
    using assms(3) unfolding doc_frame_def c(2,3) by (simp add: nth_append)
  then show ?thesis by (simp add: view_def)
qed


section \<open>Document sets\<close>

text \<open>One more application of the batch to a document's value, as the loop over the set does it.\<close>

definition spec_set_step ::
    "('v, 'fv, 'tr, 'ts) mutation_api \<Rightarrow> ('v, 'tr, 'ts) mutation_batch \<Rightarrow> 'v doc_view \<Rightarrow> 'v doc_view result" where
  "spec_set_step api b w =
     bind_result (spec_batch api b w) (\<lambda>w'.
       Inr (if \<not> is_valid_document api (w_type w') then spec_gone api kNoDocument SnapshotVersion_None kSynced w' else w'))"

fun iterate_result :: "nat \<Rightarrow> ('a \<Rightarrow> 'a result) \<Rightarrow> 'a \<Rightarrow> 'a result" where
  "iterate_result 0 f x = Inr x"
| "iterate_result (Suc n) f x = bind_result (f x) (iterate_result n f)"

definition set_ok :: "'v doc_map \<Rightarrow> bool" where
  "set_ok = (\<lambda>(objs, dm).
     (\<forall>k d. dm k = Some d \<longrightarrow> in_store (objs, d)) \<and>
     (\<forall>k k' d d'. dm k = Some d \<and> dm k' = Some d' \<and> k \<noteq> k' \<longrightarrow> doc_value d \<noteq> doc_value d'))"

definition view_at :: "'v doc_map \<Rightarrow> path \<Rightarrow> 'v doc_view option" where
  "view_at = (\<lambda>(objs, dm) k. map_option (\<lambda>d. view (objs, d)) (dm k))"

lemma set_step_refines:
  assumes "in_store s"
  shows "refines s (bind_result (ApplyToLocalDocument api b s) (\<lambda>s'.
      Inr (if \<not> is_valid_document api (document_type (snd s')) then ConvertToNoDocument api SnapshotVersion_None s' else s')))
    (spec_set_step api b (view s))"
  unfolding spec_set_step_def
  by (rule refines_bind [OF ApplyToLocalDocument_refines [OF assms]])
    (auto simp: gone_step doc_frame_in_store intro!: refines_Inr doc_frame_refl)

lemma local_set_step_ok:
  assumes "set_ok (objs, dm)" and "local_set_step api b m (objs, dm) = Inr (objs', dm')"
  shows "set_ok (objs', dm')"
    and "\<exists>w w'. view_at (objs, dm) (key_path (mut_key m)) = Some w \<and> spec_set_step api b w = Inr w' \<and>
      view_at (objs', dm') (key_path (mut_key m)) = Some w'"
    and "k \<noteq> key_path (mut_key m) \<Longrightarrow> view_at (objs', dm') k = view_at (objs, dm) k"
proof -
  let ?k = "key_path (mut_key m)"
  let ?fin = "\<lambda>s. if \<not> is_valid_document api (document_type (snd s)) then ConvertToNoDocument api SnapshotVersion_None s else s"
  obtain d where d: "dm ?k = Some d" using assms(2) by (cases "dm ?k") (simp_all add: local_set_step_def)
  then obtain s where s: "ApplyToLocalDocument api b (objs, d) = Inr s" using assms(2)
    by (cases "ApplyToLocalDocument api b (objs, d)") (simp_all add: local_set_step_def)
  define d' where "d' = snd (?fin s)"
  have r: "?fin s = (objs', d')" and dm': "dm' = dm(?k \<mapsto> d')"
    using assms(2) d s by (auto simp: local_set_step_def Let_def d'_def prod_eq_iff)
  have "in_store (objs, d)" using assms(1) d by (auto simp: set_ok_def)
  from set_step_refines [OF this, of api b] have "refines (objs, d) (Inr (?fin s)) (spec_set_step api b (view (objs, d)))"
    by (simp add: s)
  then have w: "spec_set_step api b (view (objs, d)) = Inr (view (objs', d'))" and f: "doc_frame (objs, d) (objs', d')"
    unfolding r by (simp_all add: refines_def)
  show "\<exists>w w'. view_at (objs, dm) ?k = Some w \<and> spec_set_step api b w = Inr w' \<and> view_at (objs', dm') ?k = Some w'"
    using w d by (simp add: view_at_def dm')
  have old: "doc_value e < length objs" "doc_value e \<noteq> doc_value d" if "dm k = Some e" "k \<noteq> ?k" for k e
    using assms(1) d that by (auto simp: set_ok_def in_store_def)
  then show "view_at (objs', dm') k = view_at (objs, dm) k" if "k \<noteq> ?k"
    using f that by (cases "dm k") (auto simp: view_at_def dm' view_def doc_frame_def)
  have fresh: "doc_value e \<noteq> doc_value d'" if "dm k = Some e" "k \<noteq> ?k" for k e
    using f old [OF that] by (auto simp: doc_frame_def)
  show "set_ok (objs', dm')"
    using f fresh assms(1) unfolding set_ok_def dm'
    by (auto simp: doc_frame_def in_store_def split: if_splits dest: old(1))
qed

lemma local_set_loop_views:
  "set_ok (objs, dm) \<Longrightarrow> local_set_loop api b ms (objs, dm) = Inr s' \<Longrightarrow> view_at (objs, dm) k = Some w \<Longrightarrow>
     \<exists>w'. iterate_result (length (filter (\<lambda>m. key_path (mut_key m) = k) ms)) (spec_set_step api b) w = Inr w' \<and>
       view_at s' k = Some w'"
proof (induction ms arbitrary: objs dm w)
  case (Cons m ms)
  from Cons.prems(2) obtain objs' dm' where step: "local_set_step api b m (objs, dm) = Inr (objs', dm')"
    and rest: "local_set_loop api b ms (objs', dm') = Inr s'"
    by (auto simp: bind_result_Inr)
  note ok = local_set_step_ok [OF Cons.prems(1) step]
  show ?case
  proof (cases "key_path (mut_key m) = k")
    case True
    with ok(2) Cons.prems(3) obtain w1 where "spec_set_step api b w = Inr w1" "view_at (objs', dm') k = Some w1" by auto
    with Cons.IH [OF ok(1) rest, of w1] True show ?thesis by simp
  next
    case False
    with Cons.IH [OF ok(1) rest, of w] ok(3) [of k] Cons.prems(3) show ?thesis by simp
  qed
qed simp

text \<open>
  On a set of documents that share no data, each document ends up as the specification of
  the whole batch leaves it, applied once for each mutation of the batch that has its key;
  the other documents are unchanged.
\<close>

theorem document_set_views:
  assumes "set_ok (objs, dm)" and "ApplyToLocalDocumentSet api b (objs, dm) = Inr s'"
    and "view_at (objs, dm) k = Some w"
  shows "\<exists>w'. view_at s' k = Some w' \<and>
    iterate_result (length (filter (\<lambda>m. key_path (mut_key m) = k) (mutations b))) (spec_set_step api b) w = Inr w'"
  using local_set_loop_views [OF assms(1) assms(2) [unfolded ApplyToLocalDocumentSet_def] assms(3)] by auto

section \<open>Acknowledged batches\<close>

definition view_inv :: "('v, 'fv, 'tr, 'ts) mutation_api \<Rightarrow> 'v doc_view \<Rightarrow> bool" where
  "view_inv api w \<longleftrightarrow> (w_type w \<noteq> kFoundDocument \<longrightarrow> w_data w = ov_empty api) \<and>
     (w_type w = kUnknownDocument \<longrightarrow> w_state w = kHasCommittedMutations)"

lemma spec_remote_ok:
  assumes "spec_remote api m mr w = Inr w'" and "view_inv api w"
  shows "w_version w' = mr_version mr \<and> w_state w' = kHasCommittedMutations \<and> w_key w' = w_key w \<and> view_inv api w'"
  using assms
  by (auto simp: spec_remote_def bind_result_Inr spec_found_def spec_gone_def view_inv_def
      split: mutation_body.splits if_splits)

lemma remote_step:
  assumes "in_store s" and "view_inv api (view s)" and "ApplyToRemoteDocument api m mr s = Inr s'"
  shows "doc_version (snd s') = mr_version mr \<and> document_state (snd s') = kHasCommittedMutations \<and>
    doc_key (snd s') = doc_key (snd s) \<and> view_inv api (view s') \<and> in_store s'"
proof -
  from ApplyToRemoteDocument_refines [OF assms(1), of api m mr] assms(3)
  have "spec_remote api m mr (view s) = Inr (view s')" "in_store s'" by (auto simp: refines_def doc_frame_def)
  with spec_remote_ok [OF this(1) assms(2)] show ?thesis by simp
qed

lemma remote_loop_last:
  "in_store s \<Longrightarrow> view_inv api (view s) \<Longrightarrow> remote_loop api ms s = Inr s' \<Longrightarrow>
     view_inv api (view s') \<and> doc_key (snd s') = doc_key (snd s) \<and>
     (case rev (filter (\<lambda>(m, mr). key_eq (mut_key m) (doc_key (snd s))) ms) of
        [] \<Rightarrow> s' = s
      | (m, mr) # _ \<Rightarrow> doc_version (snd s') = mr_version mr \<and> document_state (snd s') = kHasCommittedMutations)"
proof (induction ms arbitrary: s)
  case (Cons x ms)
  obtain m mr where x: "x = (m, mr)" by (cases x)
  show ?case
  proof (cases "key_eq (mut_key m) (doc_key (snd s))")
    case True
    with Cons.prems(3) x obtain s1 where s1: "ApplyToRemoteDocument api m mr s = Inr s1" "remote_loop api ms s1 = Inr s'"
      by (auto simp: bind_result_Inr)
    note step = remote_step [OF Cons.prems(1,2) s1(1)]
    from Cons.IH [OF _ _ s1(2)] step True x show ?thesis
      by (cases "rev (filter (\<lambda>(m, mr). key_eq (mut_key m) (doc_key (snd s))) ms)") (auto simp: append_eq_Cons_conv)
  next
    case False
    with Cons x show ?thesis by simp
  qed
qed simp

text \<open>
  After a batch the backend has acknowledged, a document the batch writes carries the
  version of the last result for its key and is marked as having committed mutations; a
  document that is not a found one has no data, and an unknown one is so marked.
\<close>

theorem remote_batch_last_result:
  assumes "in_store s" and "view_inv api (view s)" and "Batch_ApplyToRemoteDocument api b mrs s = Inr s'"
    and "filter (\<lambda>(m, mr). key_eq (mut_key m) (doc_key (snd s))) (zip (mutations b) mrs) = pre @ [(m, mr)]"
  shows "doc_version (snd s') = mr_version mr \<and> document_state (snd s') = kHasCommittedMutations \<and> view_inv api (view s')"
proof -
  have "remote_loop api (zip (mutations b) mrs) s = Inr s'" using assms(3) by (simp add: Batch_ApplyToRemoteDocument_def)
  from remote_loop_last [OF assms(1,2) this] show ?thesis by (simp add: assms(4))
qed

lemma doc_versions_fold:
  "fold (\<lambda>(m, mr) dv. dv(key_path (mut_key m) \<mapsto> mr_version mr)) ms dv k =
     (case rev (filter (\<lambda>(m, mr). key_path (mut_key m) = k) ms) of [] \<Rightarrow> dv k | (m, mr) # _ \<Rightarrow> Some (mr_version mr))"
proof (induction ms arbitrary: dv)
  case (Cons x ms)
  obtain m mr where "x = (m, mr)" by (cases x)
  with Cons show ?case
    by (cases "rev (filter (\<lambda>(m, mr). key_path (mut_key m) = k) ms)") (auto split: prod.splits)
qed simp

text \<open>
  A batch result is refused unless it has one result per mutation; otherwise it maps each
  key of the batch to the version of the last result for that key, and the commit version,
  meant for results without a version, is never used.
\<close>

theorem batch_result_versions:
  "MutationBatchResult b commit_version mrs =
     (if length (mutations b) = length mrs
      then Inr \<lparr>br_batch = b, br_commit_version = commit_version, br_results = mrs,
        doc_versions = (\<lambda>k. case rev (filter (\<lambda>(m, mr). key_path (mut_key m) = k) (zip (mutations b) mrs)) of
          [] \<Rightarrow> None | (m, mr) # _ \<Rightarrow> Some (mr_version mr))\<rparr>
      else Inl Assert_failed)"
  by (auto simp: MutationBatchResult_def hard_assert_def fun_eq_iff doc_versions_fold)

section \<open>Witnesses\<close>

text \<open>
  Objects as maps from field paths to strings, without transforms, and a batch that patches one
  field of a note.
\<close>

definition plain_api :: "(path \<rightharpoonup> string, string, unit, nat) mutation_api" where
  "plain_api = \<lparr>ov_empty = Map.empty, ov_get = (\<lambda>v p. v p),
     ov_set_all = (\<lambda>v m p. case m p of None \<Rightarrow> v p | Some x \<Rightarrow> x), deep_clone = (\<lambda>v. v),
     server_transform_results = (\<lambda>trs v fvs. Inr Map.empty), local_transform_results = (\<lambda>trs v t. Inr Map.empty),
     post_mutation_version = (\<lambda>ty ver. if ty = kFoundDocument then ver else SnapshotVersion_None),
     key_matches = key_eq, is_found_document = (\<lambda>ty. ty = kFoundDocument), is_valid_document = (\<lambda>ty. ty \<noteq> kInvalid)\<rparr>"

definition note_doc :: mutable_document where
  "note_doc = \<lparr>doc_key = Some [''notes'', ''n1''], document_type = kFoundDocument, doc_version = SnapshotVersion 5 0,
     read_time = SnapshotVersion_None, doc_value = 0, document_state = kSynced\<rparr>"

definition note_patch :: "(path \<rightharpoonup> string, unit) mutation" where
  "note_patch = \<lparr>mut_key = Some [''notes'', ''n1''], mut_precondition = Precondition_of_Exists True, field_transforms = [],
     mut_body = Patch_mutation [[''title''] \<mapsto> ''groceries''] [[''title'']]\<rparr>"

definition note_batch :: "(path \<rightharpoonup> string, unit, nat) mutation_batch" where
  "note_batch = \<lparr>batch_id = 1, local_write_time = 7, base_mutations = [], mutations = [note_patch]\<rparr>"

lemmas note_defs = plain_api_def note_doc_def note_patch_def note_batch_def Precondition_of_Exists_def

lemma note_apply:
  "\<exists>s'. ApplyToLocalDocument plain_api note_batch ([Map.empty], note_doc) = Inr s'"
  "\<exists>s'. ApplyToLocalDocument plain_api note_batch (Clone plain_api ([Map.empty], note_doc)) = Inr s'"
  "\<exists>s'. ApplyToLocalDocumentSet plain_api note_batch ([Map.empty], [[''notes'', ''n1''] \<mapsto> note_doc]) = Inr s'"
  "\<exists>s'. Batch_ApplyToRemoteDocument plain_api note_batch [\<lparr>mr_version = SnapshotVersion 9 0, transform_results = []\<rparr>]
     ([Map.empty], note_doc) = Inr s'"
  by (simp_all add: ApplyToLocalDocument_def ApplyToLocalView_def Patch_ApplyToLocalView_def IsValidFor_def note_defs
      document_defs key_eq_def key_path_def Clone_def ApplyToLocalDocumentSet_def local_set_step_def Let_def
      Batch_ApplyToRemoteDocument_def ApplyToRemoteDocument_def Patch_ApplyToRemoteDocument_def)

theorem local_batch_refines_spec_witness:
  "\<exists>s'. ApplyToLocalDocument plain_api note_batch ([Map.empty], note_doc) = Inr s' \<and>
     spec_batch plain_api note_batch (view ([Map.empty], note_doc)) = Inr (view s')"
proof -
  have "in_store ([Map.empty], note_doc)" by (simp add: in_store_def note_doc_def)
  from local_batch_refines_spec [OF this, of plain_api note_batch] note_apply(1) show ?thesis by auto
qed

theorem clone_isolates_witness:
  "\<exists>objs' d'. ApplyToLocalDocument plain_api note_batch (Clone plain_api ([Map.empty], note_doc)) = Inr (objs', d') \<and>
     view (objs', note_doc) = view ([Map.empty], note_doc)"
proof -
  have "in_store ([Map.empty], note_doc)" by (simp add: in_store_def note_doc_def)
  from clone_isolates [OF this, of plain_api note_batch _ _ note_doc] note_apply(2) show ?thesis
    by (auto simp: note_doc_def)
qed


theorem document_set_views_witness:
  "\<exists>s' w'. ApplyToLocalDocumentSet plain_api note_batch ([Map.empty], [[''notes'', ''n1''] \<mapsto> note_doc]) = Inr s' \<and>
     view_at s' [''notes'', ''n1''] = Some w' \<and>
     iterate_result 1 (spec_set_step plain_api note_batch) (view ([Map.empty], note_doc)) = Inr w'"
proof -
  have ok: "set_ok ([Map.empty], [[''notes'', ''n1''] \<mapsto> note_doc])"
    by (auto simp: set_ok_def in_store_def note_doc_def split: if_splits)
  have w: "view_at ([Map.empty], [[''notes'', ''n1''] \<mapsto> note_doc]) [''notes'', ''n1''] = Some (view ([Map.empty], note_doc))"
    by (simp add: view_at_def)
  have n: "length (filter (\<lambda>m. key_path (mut_key m) = [''notes'', ''n1'']) (mutations note_batch)) = 1"
    by (simp add: note_batch_def note_patch_def key_path_def)
  from note_apply(3) document_set_views [OF ok _ w, of plain_api note_batch, unfolded n] show ?thesis by blast
qed

theorem remote_batch_last_result_witness:
  "\<exists>s'. Batch_ApplyToRemoteDocument plain_api note_batch [\<lparr>mr_version = SnapshotVersion 9 0, transform_results = []\<rparr>]
     ([Map.empty], note_doc) = Inr s' \<and> doc_version (snd s') = SnapshotVersion 9 0"
proof -
  have "in_store ([Map.empty], note_doc)" by (simp add: in_store_def note_doc_def)
  moreover have "view_inv plain_api (view ([Map.empty], note_doc))" by (simp add: view_inv_def note_doc_def)
  moreover have "filter (\<lambda>(m, mr). key_eq (mut_key m) (doc_key (snd ([Map.empty :: path \<rightharpoonup> string], note_doc))))
      (zip (mutations note_batch) [\<lparr>mr_version = SnapshotVersion 9 0, transform_results = [] :: string list\<rparr>]) =
    [] @ [(note_patch, \<lparr>mr_version = SnapshotVersion 9 0, transform_results = []\<rparr>)]"
    by (simp add: note_batch_def note_patch_def note_doc_def key_eq_def)
  ultimately show ?thesis
    using note_apply(4) remote_batch_last_result [of "([Map.empty], note_doc)" plain_api note_batch]
    by (metis mutation_result.select_convs(1))
qed

end
