(* ===== verification/Listeners.thy ===== *)
theory Listeners
  imports Remote "HOL-Library.Sublist"
begin

text \<open>
  How view snapshots reach the user: the listener of a query (\<open>core/query_listener.cc\<close>), which
  decides which snapshots become events, and the event manager (\<open>core/event_manager.cc\<close>), which
  shares one backend listen among the listeners of a query.

  \<open>ViewSnapshot::FromInitialDocuments\<close> and the query event source are parameters. What the
  event listeners receive is kept, newest first.
\<close>

section \<open>Snapshots and options\<close>

datatype change_type = Removed | Added | Modified | Metadata

record 'doc view_change =
  vc_document :: 'doc
  vc_type :: change_type

record ('q, 'doc, 'key) view_snapshot =
  vs_query :: 'q
  vs_documents :: "'doc list"
  vs_old_documents :: "'doc list"
  vs_changes :: "'doc view_change list"
  vs_mutated_keys :: "'key list"
  vs_from_cache :: bool
  vs_sync_state_changed :: bool
  vs_excludes_metadata_changes :: bool

definition has_pending_writes :: "('q, 'doc, 'key) view_snapshot \<Rightarrow> bool" where
  "has_pending_writes s \<longleftrightarrow> vs_mutated_keys s \<noteq> []"

type_synonym ('q, 'doc, 'key) from_initial =
  "'q \<Rightarrow> 'doc list \<Rightarrow> 'key list \<Rightarrow> bool \<Rightarrow> bool \<Rightarrow> ('q, 'doc, 'key) view_snapshot"

record listen_options =
  include_query_metadata_changes :: bool
  include_document_metadata_changes :: bool
  wait_for_sync_when_online :: bool

definition DefaultOptions :: listen_options where
  "DefaultOptions = \<lparr>include_query_metadata_changes = False, include_document_metadata_changes = False,
     wait_for_sync_when_online = False\<rparr>"

definition FromIncludeMetadataChanges :: "bool \<Rightarrow> listen_options" where
  "FromIncludeMetadataChanges b = \<lparr>include_query_metadata_changes = b, include_document_metadata_changes = b,
     wait_for_sync_when_online = False\<rparr>"

section \<open>Query listeners\<close>

datatype ('q, 'doc, 'key) query_event = Snapshot_event "('q, 'doc, 'key) view_snapshot" | Error_event string

record ('q, 'doc, 'key) query_listener =
  ql_query :: 'q
  ql_options :: listen_options
  ql_events :: "('q, 'doc, 'key) query_event list"
  raised_initial_event :: bool
  ql_online_state :: OnlineState
  ql_snapshot :: "('q, 'doc, 'key) view_snapshot option"

definition QueryListener :: "'q \<Rightarrow> listen_options \<Rightarrow> ('q, 'doc, 'key) query_listener" where
  "QueryListener q options = \<lparr>ql_query = q, ql_options = options, ql_events = [], raised_initial_event = False,
     ql_online_state = Unknown, ql_snapshot = None\<rparr>"

definition ShouldRaiseInitialEvent ::
    "('q, 'doc, 'key) view_snapshot \<Rightarrow> OnlineState \<Rightarrow> ('q, 'doc, 'key) query_listener \<Rightarrow> bool result" where
  "ShouldRaiseInitialEvent snapshot os l =
     hard_assert (\<not> raised_initial_event l)
       (if \<not> vs_from_cache snapshot then Inr True
        else let maybe_online = (os \<noteq> Offline)
             in if wait_for_sync_when_online (ql_options l) \<and> maybe_online
                then hard_assert (vs_from_cache snapshot) (Inr False)
                else Inr (vs_documents snapshot \<noteq> [] \<or> os = Offline))"

definition ShouldRaiseEvent :: "('q, 'doc, 'key) view_snapshot \<Rightarrow> ('q, 'doc, 'key) query_listener \<Rightarrow> bool" where
  "ShouldRaiseEvent snapshot l =
     (if vs_changes snapshot \<noteq> [] then True
      else let has_pending_writes_changed =
                 (case ql_snapshot l of None \<Rightarrow> False | Some s \<Rightarrow> has_pending_writes s \<noteq> has_pending_writes snapshot)
           in if vs_sync_state_changed snapshot \<or> has_pending_writes_changed
              then include_query_metadata_changes (ql_options l)
              else False)"

definition RaiseInitialEvent ::
    "('q, 'doc, 'key) from_initial \<Rightarrow> ('q, 'doc, 'key) view_snapshot \<Rightarrow>
       ('q, 'doc, 'key) query_listener \<Rightarrow> ('q, 'doc, 'key) query_listener result" where
  "RaiseInitialEvent fi snapshot l =
     hard_assert (\<not> raised_initial_event l)
       (let modified_snapshot = fi (vs_query snapshot) (vs_documents snapshot) (vs_mutated_keys snapshot)
              (vs_from_cache snapshot) (vs_excludes_metadata_changes snapshot)
        in Inr (l\<lparr>raised_initial_event := True, ql_events := Snapshot_event modified_snapshot # ql_events l\<rparr>))"

definition strip_metadata ::
    "('q, 'doc, 'key) query_listener \<Rightarrow> ('q, 'doc, 'key) view_snapshot \<Rightarrow> ('q, 'doc, 'key) view_snapshot" where
  "strip_metadata l snapshot =
     (if \<not> include_document_metadata_changes (ql_options l)
      then \<lparr>vs_query = vs_query snapshot, vs_documents = vs_documents snapshot,
            vs_old_documents = vs_old_documents snapshot,
            vs_changes = filter (\<lambda>c. vc_type c \<noteq> Metadata) (vs_changes snapshot),
            vs_mutated_keys = vs_mutated_keys snapshot, vs_from_cache = vs_from_cache snapshot,
            vs_sync_state_changed = vs_sync_state_changed snapshot, vs_excludes_metadata_changes = True\<rparr>
      else snapshot)"

definition OnViewSnapshot ::
    "('q, 'doc, 'key) from_initial \<Rightarrow> ('q, 'doc, 'key) view_snapshot \<Rightarrow>
       ('q, 'doc, 'key) query_listener \<Rightarrow> (bool \<times> ('q, 'doc, 'key) query_listener) result" where
  "OnViewSnapshot fi snapshot0 l =
     hard_assert (vs_changes snapshot0 \<noteq> [] \<or> vs_sync_state_changed snapshot0)
       (let snapshot = strip_metadata l snapshot0
        in bind_result
             (if \<not> raised_initial_event l
              then bind_result (ShouldRaiseInitialEvent snapshot (ql_online_state l) l) (\<lambda>should.
                     if should then bind_result (RaiseInitialEvent fi snapshot l) (\<lambda>l'. Inr (True, l'))
                     else Inr (False, l))
              else if ShouldRaiseEvent snapshot l
              then Inr (True, l\<lparr>ql_events := Snapshot_event snapshot # ql_events l\<rparr>)
              else Inr (False, l))
             (\<lambda>(raised_event, l'). Inr (raised_event, l'\<lparr>ql_snapshot := Some snapshot\<rparr>)))"

definition Listener_OnError ::
    "string \<Rightarrow> ('q, 'doc, 'key) query_listener \<Rightarrow> ('q, 'doc, 'key) query_listener" where
  "Listener_OnError e l = l\<lparr>ql_events := Error_event e # ql_events l\<rparr>"

definition OnOnlineStateChanged ::
    "('q, 'doc, 'key) from_initial \<Rightarrow> OnlineState \<Rightarrow>
       ('q, 'doc, 'key) query_listener \<Rightarrow> (bool \<times> ('q, 'doc, 'key) query_listener) result" where
  "OnOnlineStateChanged fi os l0 =
     (let l = l0\<lparr>ql_online_state := os\<rparr>
      in case ql_snapshot l of
           None \<Rightarrow> Inr (False, l)
         | Some s \<Rightarrow>
             if raised_initial_event l then Inr (False, l)
             else bind_result (ShouldRaiseInitialEvent s os l) (\<lambda>should.
               if should then bind_result (RaiseInitialEvent fi s l) (\<lambda>l'. Inr (True, l'))
               else Inr (False, l)))"

section \<open>The event manager\<close>

text \<open>
  Listeners are shared objects, kept in a store by their address. \<open>queries\<close> is the hash map in
  the order in which it is iterated.
\<close>

record ('q, 'doc, 'key) listeners_info =
  li_target_id :: int
  li_listeners :: "nat list"
  li_snapshot :: "('q, 'doc, 'key) view_snapshot option"

datatype 'q source_call = Listen 'q | StopListening 'q

record ('q, 'doc, 'key) event_manager =
  em_online_state :: OnlineState
  em_queries :: "('q \<times> ('q, 'doc, 'key) listeners_info) list"
  em_sync_listeners :: "nat list"
  em_listeners :: "nat \<Rightarrow> ('q, 'doc, 'key) query_listener"
  em_source :: "'q source_call list"
  em_sync_events :: "nat list"

definition EventManager :: "(nat \<Rightarrow> ('q, 'doc, 'key) query_listener) \<Rightarrow> ('q, 'doc, 'key) event_manager" where
  "EventManager ls = \<lparr>em_online_state = Unknown, em_queries = [], em_sync_listeners = [], em_listeners = ls,
     em_source = [], em_sync_events = []\<rparr>"

fun update_query :: "'q \<Rightarrow> ('i \<Rightarrow> 'i) \<Rightarrow> ('q \<times> 'i) list \<Rightarrow> ('q \<times> 'i) list" where
  "update_query q f [] = []"
| "update_query q f ((q', i) # qs) = (if q' = q then (q', f i) # qs else (q', i) # update_query q f qs)"

definition set_info ::
    "'q \<Rightarrow> (('q, 'doc, 'key) listeners_info \<Rightarrow> ('q, 'doc, 'key) listeners_info) \<Rightarrow>
       ('q, 'doc, 'key) event_manager \<Rightarrow> ('q, 'doc, 'key) event_manager" where
  "set_info q f em = em\<lparr>em_queries := update_query q f (em_queries em)\<rparr>"

definition erase_query :: "'q \<Rightarrow> ('q, 'doc, 'key) event_manager \<Rightarrow> ('q, 'doc, 'key) event_manager" where
  "erase_query q em = em\<lparr>em_queries := filter (\<lambda>(q', i). q' \<noteq> q) (em_queries em)\<rparr>"

definition RaiseSnapshotsInSyncEvent :: "('q, 'doc, 'key) event_manager \<Rightarrow> ('q, 'doc, 'key) event_manager" where
  "RaiseSnapshotsInSyncEvent em = em\<lparr>em_sync_events := rev (em_sync_listeners em) @ em_sync_events em\<rparr>"

text \<open>A call of a listener that reports whether it raised an event.\<close>

definition call_listener ::
    "(('q, 'doc, 'key) query_listener \<Rightarrow> (bool \<times> ('q, 'doc, 'key) query_listener) result) \<Rightarrow> nat \<Rightarrow>
       bool \<times> ('q, 'doc, 'key) event_manager \<Rightarrow> (bool \<times> ('q, 'doc, 'key) event_manager) result" where
  "call_listener f a = (\<lambda>(raised, em).
     bind_result (f (em_listeners em a)) (\<lambda>(r, l).
       Inr (raised \<or> r, em\<lparr>em_listeners := (em_listeners em)(a := l)\<rparr>)))"

definition Erase :: "nat \<Rightarrow> ('q, 'doc, 'key) listeners_info \<Rightarrow> ('q, 'doc, 'key) listeners_info" where
  "Erase a i = i\<lparr>li_listeners := remove1 a (li_listeners i)\<rparr>"

definition snapshot_step ::
    "('q, 'doc, 'key) from_initial \<Rightarrow> ('q, 'doc, 'key) view_snapshot \<Rightarrow>
       bool \<times> ('q, 'doc, 'key) event_manager \<Rightarrow> (bool \<times> ('q, 'doc, 'key) event_manager) result" where
  "snapshot_step fi snapshot = (\<lambda>(raised, em).
     (case map_of (em_queries em) (vs_query snapshot) of
        None \<Rightarrow> Inr (raised, em)
      | Some info \<Rightarrow>
          bind_result (fold_result (call_listener (OnViewSnapshot fi snapshot)) (li_listeners info) (raised, em)) (\<lambda>(raised', em').
            Inr (raised', set_info (vs_query snapshot) (\<lambda>i. i\<lparr>li_snapshot := Some snapshot\<rparr>) em'))))"

definition OnViewSnapshots ::
    "('q, 'doc, 'key) from_initial \<Rightarrow> ('q, 'doc, 'key) view_snapshot list \<Rightarrow>
       ('q, 'doc, 'key) event_manager \<Rightarrow> ('q, 'doc, 'key) event_manager result" where
  "OnViewSnapshots fi snapshots em =
     bind_result (fold_result (snapshot_step fi) snapshots (False, em)) (\<lambda>(raised, em').
       Inr (if raised then RaiseSnapshotsInSyncEvent em' else em'))"

text \<open>
  \<open>listen q\<close> is what the source's \<open>Listen\<close> does: the snapshots it raises meanwhile through the
  callback, and the target it returns.
\<close>

definition AddQueryListener ::
    "('q, 'doc, 'key) from_initial \<Rightarrow> ('q \<Rightarrow> ('q, 'doc, 'key) view_snapshot list \<times> int) \<Rightarrow> nat \<Rightarrow>
       ('q, 'doc, 'key) event_manager \<Rightarrow> (int \<times> ('q, 'doc, 'key) event_manager) result" where
  "AddQueryListener fi listen a em0 =
     (let q = ql_query (em_listeners em0 a);
          first_listen = (map_of (em_queries em0) q = None);
          em1 = (if first_listen
                 then em0\<lparr>em_queries := em_queries em0 @ [(q, \<lparr>li_target_id = 0, li_listeners = [], li_snapshot = None\<rparr>)]\<rparr>
                 else em0);
          em2 = set_info q (\<lambda>i. i\<lparr>li_listeners := li_listeners i @ [a]\<rparr>) em1
      in bind_result (call_listener (OnOnlineStateChanged fi (em_online_state em2)) a (False, em2)) (\<lambda>(raised_event, em3).
         hard_assert (\<not> raised_event)
           (bind_result
             (case li_snapshot (the (map_of (em_queries em3) q)) of
                None \<Rightarrow> Inr em3
              | Some s \<Rightarrow> bind_result (call_listener (OnViewSnapshot fi s) a (False, em3)) (\<lambda>(raised, em).
                  Inr (if raised then RaiseSnapshotsInSyncEvent em else em)))
             (\<lambda>em4. if first_listen
               then bind_result (OnViewSnapshots fi (fst (listen q)) (em4\<lparr>em_source := Listen q # em_source em4\<rparr>)) (\<lambda>em5.
                 Inr (snd (listen q), set_info q (\<lambda>i. i\<lparr>li_target_id := snd (listen q)\<rparr>) em5))
               else Inr (li_target_id (the (map_of (em_queries em4) q)), em4)))))"

definition RemoveQueryListener ::
    "nat \<Rightarrow> ('q, 'doc, 'key) event_manager \<Rightarrow> ('q, 'doc, 'key) event_manager" where
  "RemoveQueryListener a em =
     (let q = ql_query (em_listeners em a)
      in case map_of (em_queries em) q of
           None \<Rightarrow> em
         | Some info \<Rightarrow>
             let em' = set_info q (Erase a) em
             in if li_listeners (Erase a info) = []
                then (erase_query q em')\<lparr>em_source := StopListening q # em_source em'\<rparr>
                else em')"

definition AddSnapshotsInSyncListener ::
    "nat \<Rightarrow> ('q, 'doc, 'key) event_manager \<Rightarrow> ('q, 'doc, 'key) event_manager" where
  "AddSnapshotsInSyncListener a em =
     em\<lparr>em_sync_listeners := List.insert a (em_sync_listeners em), em_sync_events := a # em_sync_events em\<rparr>"

definition RemoveSnapshotsInSyncListener ::
    "nat \<Rightarrow> ('q, 'doc, 'key) event_manager \<Rightarrow> ('q, 'doc, 'key) event_manager" where
  "RemoveSnapshotsInSyncListener a em = em\<lparr>em_sync_listeners := remove1 a (em_sync_listeners em)\<rparr>"

definition HandleOnlineStateChange ::
    "('q, 'doc, 'key) from_initial \<Rightarrow> OnlineState \<Rightarrow> ('q, 'doc, 'key) event_manager \<Rightarrow> ('q, 'doc, 'key) event_manager result" where
  "HandleOnlineStateChange fi os em0 =
     (let em = em0\<lparr>em_online_state := os\<rparr>
      in bind_result
           (fold_result (\<lambda>(q, info). fold_result (call_listener (OnOnlineStateChanged fi os)) (li_listeners info))
             (em_queries em) (False, em))
           (\<lambda>(raised, em'). Inr (if raised then RaiseSnapshotsInSyncEvent em' else em')))"

definition EM_OnError ::
    "'q \<Rightarrow> string \<Rightarrow> ('q, 'doc, 'key) event_manager \<Rightarrow> ('q, 'doc, 'key) event_manager" where
  "EM_OnError q e em =
     (case map_of (em_queries em) q of
        None \<Rightarrow> em
      | Some info \<Rightarrow>
          erase_query q (fold (\<lambda>a em. em\<lparr>em_listeners := (em_listeners em)(a := Listener_OnError e (em_listeners em a))\<rparr>)
            (li_listeners info) em))"

section \<open>What a listener tells its user\<close>

definition snapshot_ok :: "('q, 'doc, 'key) view_snapshot \<Rightarrow> bool" where
  "snapshot_ok s \<longleftrightarrow> vs_changes s \<noteq> [] \<or> vs_sync_state_changed s"

text \<open>When the first event is due, and which snapshots become events after it.\<close>

definition initial_due :: "listen_options \<Rightarrow> OnlineState \<Rightarrow> ('q, 'doc, 'key) view_snapshot \<Rightarrow> bool" where
  "initial_due opts os s \<longleftrightarrow> \<not> vs_from_cache s \<or> os = Offline \<or>
     (\<not> wait_for_sync_when_online opts \<and> vs_documents s \<noteq> [])"

definition initial_event ::
    "('q, 'doc, 'key) from_initial \<Rightarrow> ('q, 'doc, 'key) view_snapshot \<Rightarrow> ('q, 'doc, 'key) query_event" where
  "initial_event fi s = Snapshot_event (fi (vs_query s) (vs_documents s) (vs_mutated_keys s) (vs_from_cache s)
     (vs_excludes_metadata_changes s))"







lemma ShouldRaiseInitialEvent_due:
  "\<not> raised_initial_event l \<Longrightarrow> ShouldRaiseInitialEvent s os l = Inr (initial_due (ql_options l) os s)"
  by (auto simp: ShouldRaiseInitialEvent_def initial_due_def hard_assert_def Let_def)

lemma OnViewSnapshot_cases:
  assumes "snapshot_ok s"
  shows "OnViewSnapshot fi s l = Inr (
     let s' = strip_metadata l s
     in if \<not> raised_initial_event l
        then if initial_due (ql_options l) (ql_online_state l) s'
             then (True, l\<lparr>raised_initial_event := True, ql_events := initial_event fi s' # ql_events l, ql_snapshot := Some s'\<rparr>)
             else (False, l\<lparr>ql_snapshot := Some s'\<rparr>)
        else if ShouldRaiseEvent s' l
             then (True, l\<lparr>ql_events := Snapshot_event s' # ql_events l, ql_snapshot := Some s'\<rparr>)
             else (False, l\<lparr>ql_snapshot := Some s'\<rparr>))"
  using assms unfolding snapshot_ok_def
  by (auto simp: OnViewSnapshot_def hard_assert_def Let_def ShouldRaiseInitialEvent_due RaiseInitialEvent_def initial_event_def)

lemma OnOnlineStateChanged_cases:
  "OnOnlineStateChanged fi os l = Inr (
     case ql_snapshot l of
       None \<Rightarrow> (False, l\<lparr>ql_online_state := os\<rparr>)
     | Some s \<Rightarrow>
         if \<not> raised_initial_event l \<and> initial_due (ql_options l) os s
         then (True, l\<lparr>ql_online_state := os, raised_initial_event := True, ql_events := initial_event fi s # ql_events l\<rparr>)
         else (False, l\<lparr>ql_online_state := os\<rparr>))"
  by (auto simp: OnOnlineStateChanged_def hard_assert_def Let_def ShouldRaiseInitialEvent_due RaiseInitialEvent_def
      initial_event_def split: option.splits)








definition note_from_initial :: "(nat, nat, nat) from_initial" where
  "note_from_initial q docs keys cache excl = \<lparr>vs_query = q, vs_documents = docs, vs_old_documents = [],
     vs_changes = map (\<lambda>d. \<lparr>vc_document = d, vc_type = Added\<rparr>) docs, vs_mutated_keys = keys, vs_from_cache = cache,
     vs_sync_state_changed = True, vs_excludes_metadata_changes = excl\<rparr>"

definition note_snapshot :: "nat list \<Rightarrow> change_type \<Rightarrow> bool \<Rightarrow> bool \<Rightarrow> (nat, nat, nat) view_snapshot" where
  "note_snapshot docs t cache sync = \<lparr>vs_query = 5, vs_documents = docs, vs_old_documents = [],
     vs_changes = map (\<lambda>d. \<lparr>vc_document = d, vc_type = t\<rparr>) docs, vs_mutated_keys = [], vs_from_cache = cache,
     vs_sync_state_changed = sync, vs_excludes_metadata_changes = False\<rparr>"

lemmas note_snapshot_eval =
  note_snapshot_def note_from_initial_def snapshot_ok_def strip_metadata_def initial_due_def initial_event_def
  DefaultOptions_def QueryListener_def has_pending_writes_def


section \<open>What the event manager tells its listeners\<close>

abbreviation events_of :: "('q, 'doc, 'key) event_manager \<Rightarrow> nat \<Rightarrow> ('q, 'doc, 'key) query_event list" where
  "events_of em a \<equiv> ql_events (em_listeners em a)"

abbreviation query_of :: "('q, 'doc, 'key) event_manager \<Rightarrow> nat \<Rightarrow> 'q" where
  "query_of em a \<equiv> ql_query (em_listeners em a)"

definition shape :: "('q, 'doc, 'key) event_manager \<Rightarrow>
    ('q \<times> nat list \<times> int) list \<times> nat list \<times> 'q source_call list \<times> nat list \<times> OnlineState" where
  "shape em = (map (\<lambda>(q, i). (q, li_listeners i, li_target_id i)) (em_queries em), em_sync_listeners em, em_source em,
     em_sync_events em, em_online_state em)"

definition snapshots_ok :: "('q, 'doc, 'key) event_manager \<Rightarrow> bool" where
  "snapshots_ok em \<longleftrightarrow> (\<forall>(q, i) \<in> set (em_queries em). case li_snapshot i of None \<Rightarrow> True | Some s \<Rightarrow> snapshot_ok s)"

text \<open>Since \<open>em0\<close> only listeners were called; \<open>r\<close> says whether one of them raised an event.\<close>

fun told :: "('q, 'doc, 'key) event_manager \<Rightarrow> bool \<times> ('q, 'doc, 'key) event_manager \<Rightarrow> bool" where
  "told em0 (r, em) \<longleftrightarrow> shape em = shape em0 \<and> (snapshots_ok em0 \<longrightarrow> snapshots_ok em) \<and>
     (\<forall>a. query_of em a = query_of em0 a \<and> suffix (events_of em0 a) (events_of em a)) \<and>
     (r \<longleftrightarrow> (\<exists>a. events_of em a \<noteq> events_of em0 a))"

definition reporting ::
    "(('q, 'doc, 'key) query_listener \<Rightarrow> (bool \<times> ('q, 'doc, 'key) query_listener) result) \<Rightarrow> bool" where
  "reporting f \<longleftrightarrow> (\<forall>l. \<exists>r l'. f l = Inr (r, l') \<and> ql_query l' = ql_query l \<and>
     (if r then \<exists>e. ql_events l' = e # ql_events l else ql_events l' = ql_events l))"

lemma OnViewSnapshot_reporting: "snapshot_ok s \<Longrightarrow> reporting (OnViewSnapshot fi s)"
  by (simp add: reporting_def OnViewSnapshot_cases Let_def) blast

lemma OnOnlineStateChanged_reporting: "reporting (OnOnlineStateChanged fi os)"
  by (simp add: reporting_def OnOnlineStateChanged_cases split: option.split) blast

lemma told_refl: "told em (False, em)"
  by simp

lemma call_listener_told:
  assumes "reporting f" and "told em0 (r, em)"
  shows "\<exists>r' em'. call_listener f a (r, em) = Inr (r', em') \<and> told em0 (r', em')"
proof -
  from assms(1) obtain b l where f: "f (em_listeners em a) = Inr (b, l)" and q: "ql_query l = query_of em a"
    and ev: "if b then \<exists>e. ql_events l = e # events_of em a else ql_events l = events_of em a"
    by (metis reporting_def)
  let ?em = "em\<lparr>em_listeners := (em_listeners em)(a := l)\<rparr>"
  have sh: "shape ?em = shape em0" "snapshots_ok em0 \<longrightarrow> snapshots_ok ?em"
    using assms(2) by (auto simp: shape_def snapshots_ok_def)
  have suf: "suffix (events_of em0 b) (events_of ?em b)" "query_of ?em b = query_of em0 b" for b
    using assms(2) ev q by (auto simp: suffix_Cons split: if_splits)
  have "(r \<or> b) \<longleftrightarrow> (\<exists>b. events_of ?em b \<noteq> events_of em0 b)"
  proof (cases b)
    case True
    with ev obtain e where "events_of ?em a = e # events_of em a" by auto
    moreover have "suffix (events_of em0 a) (events_of em a)" using assms(2) by simp
    ultimately have "length (events_of em0 a) < length (events_of ?em a)" by (auto dest: suffix_length_le)
    then have "events_of ?em a \<noteq> events_of em0 a" by (metis less_irrefl)
    with True show ?thesis by blast
  next
    case False
    with ev have "events_of ?em b = events_of em b" for b by simp
    with False assms(2) show ?thesis by simp
  qed
  with sh suf f show ?thesis by (auto simp: call_listener_def)
qed

lemma fold_result_told:
  assumes "\<And>x r em. x \<in> set xs \<Longrightarrow> told em0 (r, em) \<Longrightarrow> \<exists>r' em'. f x (r, em) = Inr (r', em') \<and> told em0 (r', em')"
    and "told em0 (r, em)"
  shows "\<exists>r' em'. fold_result f xs (r, em) = Inr (r', em') \<and> told em0 (r', em')"
proof -
  have "\<exists>p. fold_result f xs (r, em) = Inr p \<and> told em0 p"
    by (rule fold_result_inv) (use assms in \<open>auto simp del: told.simps\<close>)
  then show ?thesis by (simp add: split_paired_Ex del: told.simps)
qed

lemma fold_call_listener_told:
  assumes "reporting f" and "told em0 (r, em)"
  shows "\<exists>r' em'. fold_result (call_listener f) as (r, em) = Inr (r', em') \<and> told em0 (r', em')"
  by (rule fold_result_told) (rule call_listener_told [OF assms(1)], assumption, rule assms(2))

lemma update_query_shape:
  "(\<And>i. li_listeners (f i) = li_listeners i \<and> li_target_id (f i) = li_target_id i) \<Longrightarrow>
   map (\<lambda>(q, i). (q, li_listeners i, li_target_id i)) (update_query q f qs) =
   map (\<lambda>(q, i). (q, li_listeners i, li_target_id i)) qs"
  by (induction q f qs rule: update_query.induct) auto

lemma set_update_query: "(q', i') \<in> set (update_query q f qs) \<Longrightarrow>
    (q', i') \<in> set qs \<or> q' = q \<and> (\<exists>i. (q, i) \<in> set qs \<and> i' = f i)"
  by (induction q f qs rule: update_query.induct) (auto split: if_splits)

lemma snapshot_step_told:
  assumes "snapshot_ok s" and "told em0 (r, em)"
  shows "\<exists>r' em'. snapshot_step fi s (r, em) = Inr (r', em') \<and> told em0 (r', em')"
proof (cases "map_of (em_queries em) (vs_query s)")
  case None
  with assms(2) show ?thesis by (simp add: snapshot_step_def)
next
  case (Some info)
  from fold_call_listener_told [OF OnViewSnapshot_reporting [OF assms(1)] assms(2)] obtain r' em' where
    fr: "fold_result (call_listener (OnViewSnapshot fi s)) (li_listeners info) (r, em) = Inr (r', em')" and t: "told em0 (r', em')"
    by blast
  let ?em = "set_info (vs_query s) (\<lambda>i. i\<lparr>li_snapshot := Some s\<rparr>) em'"
  have "shape ?em = shape em'" by (simp add: shape_def set_info_def update_query_shape)
  moreover have "snapshots_ok em' \<longrightarrow> snapshots_ok ?em"
    using assms(1) by (fastforce simp: snapshots_ok_def set_info_def dest!: set_update_query)
  ultimately have "told em0 (r', ?em)" using t by (simp add: set_info_def)
  with Some fr show ?thesis by (simp add: snapshot_step_def)
qed

lemma snapshots_told:
  assumes "list_all snapshot_ok ss"
  shows "\<exists>r em'. fold_result (snapshot_step fi) ss (False, em) = Inr (r, em') \<and> told em (r, em')"
  by (rule fold_result_told) (rule snapshot_step_told, use assms in \<open>simp add: list_all_iff\<close>, assumption, rule told_refl)

lemma online_told:
  "\<exists>r em'. fold_result (\<lambda>(q, info). fold_result (call_listener (OnOnlineStateChanged fi os)) (li_listeners info)) qs (False, em)
     = Inr (r, em') \<and> told em (r, em')"
  by (rule fold_result_told [OF _ told_refl])
    (auto simp del: told.simps intro: fold_call_listener_told [OF OnOnlineStateChanged_reporting])

text \<open>A batch of calls: the sync listeners hear of it exactly when some query listener raised an event.\<close>

definition delivered :: "('q, 'doc, 'key) event_manager \<Rightarrow> ('q, 'doc, 'key) event_manager \<Rightarrow> bool" where
  "delivered em0 em \<longleftrightarrow>
     (\<forall>a. query_of em a = query_of em0 a \<and> suffix (events_of em0 a) (events_of em a)) \<and>
     em_sync_events em = (if \<exists>a. events_of em a \<noteq> events_of em0 a then rev (em_sync_listeners em0) else []) @ em_sync_events em0"

abbreviation listeners_shape :: "('q, 'doc, 'key) event_manager \<Rightarrow> ('q \<times> nat list \<times> int) list" where
  "listeners_shape em \<equiv> map (\<lambda>(q, i). (q, li_listeners i, li_target_id i)) (em_queries em)"

definition em_frame :: "('q, 'doc, 'key) event_manager \<Rightarrow> ('q, 'doc, 'key) event_manager \<Rightarrow> bool" where
  "em_frame em0 em \<longleftrightarrow> listeners_shape em = listeners_shape em0 \<and> em_source em = em_source em0 \<and>
     em_sync_listeners em = em_sync_listeners em0 \<and> (snapshots_ok em0 \<longrightarrow> snapshots_ok em)"

lemma told_delivered:
  assumes "told em0 (r, em)"
  shows "delivered em0 (if r then RaiseSnapshotsInSyncEvent em else em)"
    and "em_frame em0 (if r then RaiseSnapshotsInSyncEvent em else em)"
    and "em_online_state (if r then RaiseSnapshotsInSyncEvent em else em) = em_online_state em0"
  using assms by (auto simp: delivered_def em_frame_def RaiseSnapshotsInSyncEvent_def shape_def snapshots_ok_def)

lemma OnViewSnapshots_delivers:
  assumes "list_all snapshot_ok ss"
  shows "\<exists>em'. OnViewSnapshots fi ss em = Inr em' \<and> delivered em em' \<and> em_frame em em' \<and> em_online_state em' = em_online_state em"
proof -
  from snapshots_told [OF assms] obtain r em' where
    "fold_result (snapshot_step fi) ss (False, em) = Inr (r, em')" and t: "told em (r, em')" by blast
  then have "OnViewSnapshots fi ss em = Inr (if r then RaiseSnapshotsInSyncEvent em' else em')"
    by (simp add: OnViewSnapshots_def)
  with told_delivered [OF t] show ?thesis by blast
qed

lemma delivered_online: "delivered (em\<lparr>em_online_state := os\<rparr>) em' \<longleftrightarrow> delivered em em'"
  by (simp add: delivered_def)

lemma em_frame_online: "em_frame (em\<lparr>em_online_state := os\<rparr>) em' \<longleftrightarrow> em_frame em em'"
  by (simp add: em_frame_def snapshots_ok_def)

lemma HandleOnlineStateChange_delivers:
  "\<exists>em'. HandleOnlineStateChange fi os em = Inr em' \<and> delivered em em' \<and> em_frame em em' \<and> em_online_state em' = os"
proof -
  let ?em = "em\<lparr>em_online_state := os\<rparr>"
  from online_told [of fi os "em_queries em" ?em] obtain r em' where
    fr: "fold_result (\<lambda>(q, info). fold_result (call_listener (OnOnlineStateChanged fi os)) (li_listeners info))
      (em_queries em) (False, ?em) = Inr (r, em')" and t: "told ?em (r, em')"
    by blast
  from fr have "HandleOnlineStateChange fi os em = Inr (if r then RaiseSnapshotsInSyncEvent em' else em')"
    by (simp add: HandleOnlineStateChange_def Let_def)
  moreover have "delivered em (if r then RaiseSnapshotsInSyncEvent em' else em')"
    using told_delivered(1) [OF t] by (simp add: delivered_online)
  moreover have "em_frame em (if r then RaiseSnapshotsInSyncEvent em' else em')"
    using told_delivered(2) [OF t] by (simp add: em_frame_online)
  moreover have "em_online_state (if r then RaiseSnapshotsInSyncEvent em' else em') = os"
    using told_delivered(3) [OF t] by simp
  ultimately show ?thesis by blast
qed

section \<open>One backend listen per query\<close>

definition listeners_of :: "('q, 'doc, 'key) event_manager \<Rightarrow> 'q \<Rightarrow> nat list option" where
  "listeners_of em q = map_option li_listeners (map_of (em_queries em) q)"

definition target_of :: "('q, 'doc, 'key) event_manager \<Rightarrow> 'q \<Rightarrow> int option" where
  "target_of em q = map_option li_target_id (map_of (em_queries em) q)"

lemma em_frame_views:
  assumes "em_frame em0 em"
  shows "listeners_of em = listeners_of em0" "target_of em = target_of em0"
proof -
  have view: "map_option (\<lambda>i. (li_listeners i, li_target_id i)) (map_of (em_queries em) q)
    = map_of (map (\<lambda>(q, i). (q, li_listeners i, li_target_id i)) (em_queries em)) q"
    for q and em :: "('q, 'doc, 'key) event_manager" by (simp add: map_of_map)
  from assms have same: "map_option (\<lambda>i. (li_listeners i, li_target_id i)) (map_of (em_queries em) q)
    = map_option (\<lambda>i. (li_listeners i, li_target_id i)) (map_of (em_queries em0) q)" for q
    by (simp add: view em_frame_def)
  have "listeners_of em q = listeners_of em0 q \<and> target_of em q = target_of em0 q" for q
    by (cases "map_of (em_queries em) q"; cases "map_of (em_queries em0) q")
      (use same [of q] in \<open>auto simp: listeners_of_def target_of_def\<close>)
  then show "listeners_of em = listeners_of em0" "target_of em = target_of em0" by auto
qed

lemma map_of_update_query: "map_of (update_query q f qs) = (map_of qs)(q := map_option f (map_of qs q))"
  by (induction q f qs rule: update_query.induct) auto

lemma map_of_erase: "map_of (filter (\<lambda>(q', i). q' \<noteq> q) qs) = (map_of qs)(q := None)"
  by (induction qs) auto

lemma told_frame: "told em0 (r, em) \<Longrightarrow> em_frame em0 em"
  by (auto simp: em_frame_def shape_def)

lemma em_frame_trans: "em_frame a b \<Longrightarrow> em_frame b c \<Longrightarrow> em_frame a c"
  by (simp add: em_frame_def)

lemma OnOnlineStateChanged_fresh:
  "ql_snapshot l = None \<Longrightarrow> OnOnlineStateChanged fi os l = Inr (False, l\<lparr>ql_online_state := os\<rparr>)"
  by (simp add: OnOnlineStateChanged_cases)

text \<open>The state of the event manager after a fresh listener was pushed and told the online state.\<close>

definition enrolled :: "nat \<Rightarrow> ('q, 'doc, 'key) event_manager \<Rightarrow> ('q, 'doc, 'key) event_manager" where
  "enrolled a em = (let q = query_of em a in
     set_info q (\<lambda>i. i\<lparr>li_listeners := li_listeners i @ [a]\<rparr>)
       (if map_of (em_queries em) q = None
        then em\<lparr>em_queries := em_queries em @ [(q, \<lparr>li_target_id = 0, li_listeners = [], li_snapshot = None\<rparr>)]\<rparr> else em))
     \<lparr>em_listeners := (em_listeners em)(a := (em_listeners em a)\<lparr>ql_online_state := em_online_state em\<rparr>)\<rparr>"

lemma enrolled_views:
  "listeners_of (enrolled a em) = (listeners_of em)(query_of em a \<mapsto>
     (case listeners_of em (query_of em a) of None \<Rightarrow> [] | Some as \<Rightarrow> as) @ [a])"
  "target_of (enrolled a em) = (target_of em)(query_of em a \<mapsto>
     (case target_of em (query_of em a) of None \<Rightarrow> 0 | Some t \<Rightarrow> t))"
  "em_source (enrolled a em) = em_source em" "query_of (enrolled a em) b = query_of em b"
  by (auto simp: enrolled_def Let_def set_info_def listeners_of_def target_of_def map_of_update_query map_add_def
      split: option.splits)

lemma enrolled_snapshots_ok: "snapshots_ok em \<Longrightarrow> snapshots_ok (enrolled a em)"
  by (fastforce simp: enrolled_def Let_def set_info_def snapshots_ok_def dest!: set_update_query)

lemma AddQueryListener_enrolled:
  assumes "ql_snapshot (em_listeners em a) = None"
  shows "AddQueryListener fi listen a em =
    (let q = query_of em a; first_listen = (listeners_of em q = None) in
     bind_result
       (case li_snapshot (the (map_of (em_queries (enrolled a em)) q)) of
          None \<Rightarrow> Inr (enrolled a em)
        | Some s \<Rightarrow> bind_result (call_listener (OnViewSnapshot fi s) a (False, enrolled a em)) (\<lambda>(raised, em).
            Inr (if raised then RaiseSnapshotsInSyncEvent em else em)))
       (\<lambda>em4. if first_listen
         then bind_result (OnViewSnapshots fi (fst (listen q)) (em4\<lparr>em_source := Listen q # em_source em4\<rparr>)) (\<lambda>em5.
           Inr (snd (listen q), set_info q (\<lambda>i. i\<lparr>li_target_id := snd (listen q)\<rparr>) em5))
         else Inr (li_target_id (the (map_of (em_queries em4) q)), em4)))"
  using assms
  by (cases "map_of (em_queries em) (query_of em a)")
    (simp_all add: AddQueryListener_def enrolled_def Let_def set_info_def call_listener_def OnOnlineStateChanged_fresh
      hard_assert_def listeners_of_def cong: option.case_cong)

lemma map_of_snapshot_ok:
  "snapshots_ok em \<Longrightarrow> map_of (em_queries em) q = Some i \<Longrightarrow> li_snapshot i = Some s \<Longrightarrow> snapshot_ok s"
  by (fastforce simp: snapshots_ok_def dest: map_of_SomeD)

lemma enrolled_entry: "\<exists>i. map_of (em_queries (enrolled a em)) (query_of em a) = Some i"
  by (auto simp: enrolled_def Let_def set_info_def map_of_update_query map_add_def split: option.splits)

text \<open>The second part of \<open>AddQueryListener\<close>: the snapshot at hand, if any, is shown to the new listener.\<close>

lemma greet_listener:
  assumes "snapshots_ok em"
  shows "\<exists>em4. (case li_snapshot (the (map_of (em_queries (enrolled a em)) (query_of em a))) of
          None \<Rightarrow> Inr (enrolled a em)
        | Some s \<Rightarrow> bind_result (call_listener (OnViewSnapshot fi s) a (False, enrolled a em)) (\<lambda>(raised, em).
            Inr (if raised then RaiseSnapshotsInSyncEvent em else em))) = Inr em4 \<and>
      em_frame (enrolled a em) em4 \<and> delivered (enrolled a em) em4"
proof -
  obtain i where i: "map_of (em_queries (enrolled a em)) (query_of em a) = Some i" using enrolled_entry by blast
  show ?thesis
  proof (cases "li_snapshot i")
    case None
    then show ?thesis by (simp add: i em_frame_def delivered_def)
  next
    case (Some s)
    from map_of_snapshot_ok [OF enrolled_snapshots_ok [OF assms] i Some] have "snapshot_ok s" .
    from call_listener_told [OF OnViewSnapshot_reporting [OF this] told_refl] obtain r em' where
      c: "call_listener (OnViewSnapshot fi s) a (False, enrolled a em) = Inr (r, em')" and t: "told (enrolled a em) (r, em')"
      by blast
    from told_delivered(1,2) [OF t] show ?thesis by (simp add: i Some c)
  qed
qed

lemma delivered_queries: "delivered em0 em \<Longrightarrow> query_of em a = query_of em0 a"
  by (simp add: delivered_def)

lemma AddQueryListener_spec:
  assumes fresh: "ql_snapshot (em_listeners em a) = None" and ok: "snapshots_ok em"
    and src: "list_all snapshot_ok (fst (listen (query_of em a)))"
  shows "\<exists>t em'. AddQueryListener fi listen a em = Inr (t, em') \<and> snapshots_ok em' \<and>
    (\<forall>b. query_of em' b = query_of em b) \<and>
    listeners_of em' = (listeners_of em)(query_of em a \<mapsto>
      (case listeners_of em (query_of em a) of None \<Rightarrow> [] | Some as \<Rightarrow> as) @ [a]) \<and>
    t = (case target_of em (query_of em a) of None \<Rightarrow> snd (listen (query_of em a)) | Some t \<Rightarrow> t) \<and>
    target_of em' = (target_of em)(query_of em a \<mapsto> t) \<and>
    em_source em' = (if listeners_of em (query_of em a) = None then [Listen (query_of em a)] else []) @ em_source em"
proof -
  let ?q = "query_of em a"
  from greet_listener [OF ok] obtain em4 where
    g: "(case li_snapshot (the (map_of (em_queries (enrolled a em)) ?q)) of
          None \<Rightarrow> Inr (enrolled a em)
        | Some s \<Rightarrow> bind_result (call_listener (OnViewSnapshot fi s) a (False, enrolled a em)) (\<lambda>(raised, em).
            Inr (if raised then RaiseSnapshotsInSyncEvent em else em))) = Inr em4"
    and f4: "em_frame (enrolled a em) em4" and d4: "delivered (enrolled a em) em4" by blast
  have q4: "query_of em4 b = query_of em b" for b using delivered_queries [OF d4] by (simp add: enrolled_views)
  have ok4: "snapshots_ok em4" and s4: "em_source em4 = em_source em"
    using f4 enrolled_snapshots_ok [OF ok] by (simp_all add: em_frame_def enrolled_views)
  note v4 = em_frame_views [OF f4, unfolded enrolled_views]
  have none: "target_of em ?q = None \<longleftrightarrow> listeners_of em ?q = None" by (simp add: target_of_def listeners_of_def)
  show ?thesis
  proof (cases "listeners_of em ?q")
    case None
    let ?em4 = "em4\<lparr>em_source := Listen ?q # em_source em4\<rparr>"
    from OnViewSnapshots_delivers [OF src, of fi ?em4] obtain em5 where
      o5: "OnViewSnapshots fi (fst (listen ?q)) ?em4 = Inr em5" and d5: "delivered ?em4 em5" and f5: "em_frame ?em4 em5" by blast
    let ?em = "set_info ?q (\<lambda>i. i\<lparr>li_target_id := snd (listen ?q)\<rparr>) em5"
    have v5: "listeners_of em5 = listeners_of em4" "target_of em5 = target_of em4" "em_source em5 = Listen ?q # em_source em"
      "\<And>b. query_of em5 b = query_of em b" "snapshots_ok em5"
      using em_frame_views [OF f5] f5 s4 ok4 delivered_queries [OF d5] q4
      by (simp_all add: em_frame_def listeners_of_def [abs_def] target_of_def [abs_def] snapshots_ok_def)
    have lv: "listeners_of ?em = listeners_of em5" "target_of ?em = (target_of em5)(?q := map_option (\<lambda>_. snd (listen ?q)) (target_of em5 ?q))"
      by (auto simp: listeners_of_def target_of_def set_info_def map_of_update_query option.map_comp comp_def)
    have "snapshots_ok ?em" using v5(5) by (fastforce simp: snapshots_ok_def set_info_def dest!: set_update_query)
    moreover have "AddQueryListener fi listen a em = Inr (snd (listen ?q), ?em)"
      using None by (simp add: AddQueryListener_enrolled [where em = em and a = a, OF fresh] Let_def g o5)
    ultimately show ?thesis using None none by (simp add: lv v5 v4) (simp add: set_info_def v5)
  next
    case (Some as)
    then have "AddQueryListener fi listen a em = Inr (li_target_id (the (map_of (em_queries em4) ?q)), em4)"
      by (simp add: AddQueryListener_enrolled [where em = em and a = a, OF fresh] Let_def g)
    moreover obtain t where t: "target_of em ?q = Some t" using Some none by auto
    moreover have "target_of em4 ?q = Some t" by (simp add: v4 t)
    then have "li_target_id (the (map_of (em_queries em4) ?q)) = t" by (auto simp: target_of_def)
    ultimately show ?thesis using Some by (simp add: v4 q4 ok4 s4)
  qed
qed

lemma RemoveQueryListener_spec:
  assumes "em' = RemoveQueryListener a em" and "q = query_of em a"
  shows "listeners_of em' = (listeners_of em)(q := (case listeners_of em q of None \<Rightarrow> None
      | Some as \<Rightarrow> if remove1 a as = [] then None else Some (remove1 a as)))"
    and "em_source em' = (if \<exists>as. listeners_of em q = Some as \<and> remove1 a as = [] then [StopListening q] else []) @ em_source em"
    and "em_listeners em' = em_listeners em" and "snapshots_ok em \<Longrightarrow> snapshots_ok em'"
  using assms
  by (auto simp: RemoveQueryListener_def Let_def listeners_of_def set_info_def erase_query_def Erase_def map_of_update_query map_of_erase
      split: option.splits) (fastforce simp: snapshots_ok_def Erase_def dest!: set_update_query)+

lemma fold_OnError:
  "fold (\<lambda>a em. em\<lparr>em_listeners := (em_listeners em)(a := Listener_OnError e (em_listeners em a))\<rparr>) as em = em' \<Longrightarrow>
    em_queries em' = em_queries em \<and> em_source em' = em_source em \<and> query_of em' b = query_of em b"
  by (induction as arbitrary: em) (auto simp: Listener_OnError_def)

lemma EM_OnError_spec:
  shows "listeners_of (EM_OnError q e em) = (listeners_of em)(q := None)"
    and "em_source (EM_OnError q e em) = em_source em" and "query_of (EM_OnError q e em) b = query_of em b"
    and "snapshots_ok em \<Longrightarrow> snapshots_ok (EM_OnError q e em)"
  by (auto simp: EM_OnError_def listeners_of_def erase_query_def map_of_erase fold_OnError [OF refl] snapshots_ok_def
      split: option.splits)

text \<open>The calls an event manager may get, with the history of its traffic with the source, newest first.\<close>

datatype 'q traffic = Sent "'q source_call" | Failed 'q

fun sent :: "'q traffic list \<Rightarrow> 'q source_call list" where
  "sent [] = []"
| "sent (Sent c # h) = c # sent h"
| "sent (Failed q # h) = sent h"

text \<open>The queries the source listens to, and \<open>None\<close> when a query is listened to twice or stopped when not open.\<close>

fun open_listens :: "'q traffic list \<Rightarrow> 'q list option" where
  "open_listens [] = Some []"
| "open_listens (Sent (Listen q) # h) = (case open_listens h of None \<Rightarrow> None
     | Some qs \<Rightarrow> if q \<in> set qs then None else Some (q # qs))"
| "open_listens (Sent (StopListening q) # h) = (case open_listens h of None \<Rightarrow> None
     | Some qs \<Rightarrow> if q \<in> set qs then Some (filter (\<lambda>p. p \<noteq> q) qs) else None)"
| "open_listens (Failed q # h) = (case open_listens h of None \<Rightarrow> None | Some qs \<Rightarrow> Some (filter (\<lambda>p. p \<noteq> q) qs))"

inductive em_reach ::
    "('q, 'doc, 'key) from_initial \<Rightarrow> ('q \<Rightarrow> ('q, 'doc, 'key) view_snapshot list \<times> int) \<Rightarrow>
       ('q, 'doc, 'key) event_manager \<Rightarrow> 'q traffic list \<Rightarrow> bool"
  for fi listen where
  start: "em_reach fi listen (EventManager ls) []"
| add: "em_reach fi listen em h \<Longrightarrow> ql_snapshot (em_listeners em a) = None \<Longrightarrow> AddQueryListener fi listen a em = Inr (t, em') \<Longrightarrow>
    em_reach fi listen em' (if em_source em' = em_source em then h else Sent (hd (em_source em')) # h)"
| remove: "em_reach fi listen em h \<Longrightarrow> em' = RemoveQueryListener a em \<Longrightarrow>
    em_reach fi listen em' (if em_source em' = em_source em then h else Sent (hd (em_source em')) # h)"
| sync_add: "em_reach fi listen em h \<Longrightarrow> em_reach fi listen (AddSnapshotsInSyncListener a em) h"
| sync_remove: "em_reach fi listen em h \<Longrightarrow> em_reach fi listen (RemoveSnapshotsInSyncListener a em) h"
| online: "em_reach fi listen em h \<Longrightarrow> HandleOnlineStateChange fi os em = Inr em' \<Longrightarrow> em_reach fi listen em' h"
| snapshots: "em_reach fi listen em h \<Longrightarrow> list_all snapshot_ok ss \<Longrightarrow> OnViewSnapshots fi ss em = Inr em' \<Longrightarrow> em_reach fi listen em' h"
| error: "em_reach fi listen em h \<Longrightarrow> em_reach fi listen (EM_OnError q e em) (Failed q # h)"

definition em_inv :: "('q, 'doc, 'key) event_manager \<Rightarrow> 'q traffic list \<Rightarrow> bool" where
  "em_inv em h \<longleftrightarrow> snapshots_ok em \<and> em_source em = sent h \<and>
     (\<forall>q as. listeners_of em q = Some as \<longrightarrow> as \<noteq> [] \<and> (\<forall>a \<in> set as. query_of em a = q)) \<and>
     (\<exists>qs. open_listens h = Some qs \<and> distinct qs \<and> set qs = dom (listeners_of em))"

lemma em_inv_frame:
  assumes "em_inv em h" and "em_frame em em'" and "delivered em em'"
  shows "em_inv em' h"
  using assms em_frame_views [OF assms(2)] delivered_queries [OF assms(3)] by (simp add: em_inv_def em_frame_def)

lemma em_inv_add:
  assumes inv: "em_inv em h" and "ql_snapshot (em_listeners em a) = None" and "AddQueryListener fi listen a em = Inr (t, em')"
    and "list_all snapshot_ok (fst (listen (query_of em a)))"
  shows "em_inv em' (if em_source em' = em_source em then h else Sent (hd (em_source em')) # h)"
proof -
  from inv have "snapshots_ok em" by (simp add: em_inv_def)
  from AddQueryListener_spec [where em = em and a = a and listen = listen and fi = fi, OF assms(2) this assms(4)] assms(3) have new:
    "snapshots_ok em'" "\<And>b. query_of em' b = query_of em b"
    "listeners_of em' = (listeners_of em)(query_of em a \<mapsto>
      (case listeners_of em (query_of em a) of None \<Rightarrow> [] | Some as \<Rightarrow> as) @ [a])"
    "em_source em' = (if listeners_of em (query_of em a) = None then [Listen (query_of em a)] else []) @ em_source em" by auto
  from inv new show ?thesis
    by (cases "listeners_of em (query_of em a)") (auto simp: em_inv_def split: if_splits)
qed

lemma em_inv_remove:
  assumes inv: "em_inv em h" and "em' = RemoveQueryListener a em"
  shows "em_inv em' (if em_source em' = em_source em then h else Sent (hd (em_source em')) # h)"
proof -
  note spec = RemoveQueryListener_spec [OF assms(2) refl]
  from inv obtain qs where qs: "open_listens h = Some qs" "distinct qs" "set qs = dom (listeners_of em)" by (auto simp: em_inv_def)
  from inv have ls: "listeners_of em q = Some as \<Longrightarrow> as \<noteq> [] \<and> (\<forall>a \<in> set as. query_of em a = q)" for q as
    by (simp add: em_inv_def)
  have lists: "listeners_of em' q = Some as \<Longrightarrow> as \<noteq> [] \<and> (\<forall>a \<in> set as. query_of em' a = q)" for q as
    using ls set_remove1_subset by (fastforce simp: spec split: option.splits if_splits)
  from inv spec(4) have ok: "snapshots_ok em'" and sent: "em_source em = sent h" by (simp_all add: em_inv_def)
  show ?thesis
  proof (cases "\<exists>as. listeners_of em (query_of em a) = Some as \<and> remove1 a as = []")
    case True
    then have off: "listeners_of em' = (listeners_of em)(query_of em a := None)" "query_of em a \<in> dom (listeners_of em)"
      and stop: "em_source em' = StopListening (query_of em a) # em_source em" by (auto simp: spec(1,2))
    have "open_listens (Sent (StopListening (query_of em a)) # h) = Some (filter (\<lambda>p. p \<noteq> query_of em a) qs)"
      using off(2) by (simp add: qs)
    moreover have "set (filter (\<lambda>p. p \<noteq> query_of em a) qs) = dom (listeners_of em')" by (auto simp: off(1) qs(3))
    ultimately show ?thesis using sent ok qs(2) lists unfolding em_inv_def stop by auto
  next
    case False
    then have "dom (listeners_of em') = dom (listeners_of em)" "em_source em' = em_source em"
      by (auto simp: spec(1,2) split: option.splits if_splits)
    then show ?thesis using sent ok qs lists unfolding em_inv_def by auto
  qed
qed

lemma em_reach_inv:
  assumes "em_reach fi listen em h" and src: "\<And>q. list_all snapshot_ok (fst (listen q))"
  shows "em_inv em h"
  using assms(1)
proof induction
  case (start ls)
  then show ?case by (simp add: em_inv_def EventManager_def snapshots_ok_def listeners_of_def [abs_def] dom_def)
next
  case (add em h a t em')
  then show ?case by (intro em_inv_add) (auto simp: src)
next
  case (remove em h em' a)
  then show ?case by (intro em_inv_remove)
next
  case (sync_add em h a)
  then show ?case by (simp add: em_inv_def AddSnapshotsInSyncListener_def snapshots_ok_def listeners_of_def [abs_def])
next
  case (sync_remove em h a)
  then show ?case by (simp add: em_inv_def RemoveSnapshotsInSyncListener_def snapshots_ok_def listeners_of_def [abs_def])
next
  case (online em h os em')
  then show ?case using HandleOnlineStateChange_delivers [of fi os em] em_inv_frame by fastforce
next
  case (snapshots em h ss em')
  then show ?case using OnViewSnapshots_delivers [OF snapshots.hyps(2), of fi em] em_inv_frame by fastforce
next
  case (error em h q e)
  then obtain qs where "open_listens h = Some qs" "distinct qs" "set qs = dom (listeners_of em)" by (auto simp: em_inv_def)
  with error show ?case using EM_OnError_spec(4) [of em q e] by (auto simp: em_inv_def EM_OnError_spec)
qed

text \<open>
  C31: However listeners come and go, snapshots and errors arrive and the online state changes, the event manager
  sends the source one \<open>Listen\<close> per query and no \<open>StopListening\<close> of a query that is not open: the
  queries open at the source are exactly those with a listener, none of which is kept with an empty list, and
  every listener is filed under its own query.
\<close>

theorem event_manager_shares_listens:
  assumes "em_reach fi listen em h" and "\<And>q. list_all snapshot_ok (fst (listen q))"
  shows "em_source em = sent h \<and>
    (\<exists>qs. open_listens h = Some qs \<and> distinct qs \<and> set qs = dom (listeners_of em)) \<and>
    (\<forall>q as. listeners_of em q = Some as \<longrightarrow> as \<noteq> [] \<and> (\<forall>a \<in> set as. query_of em a = q))"
  using em_reach_inv [OF assms] by (auto simp: em_inv_def)

definition note_em :: "(nat, nat, nat) event_manager" where
  "note_em = EventManager (\<lambda>_. QueryListener 5 DefaultOptions)"

definition note_listen :: "nat \<Rightarrow> (nat, nat, nat) view_snapshot list \<times> int" where
  "note_listen q = ([note_snapshot [1] Added True True], 2)"

text \<open>Two listeners of one query: the first is answered by the cache while it is added, the second by the event manager.\<close>

definition note_em1 :: "(nat, nat, nat) event_manager" where
  "note_em1 = snd (projr (AddQueryListener note_from_initial note_listen 0 note_em))"

definition note_em2 :: "(nat, nat, nat) event_manager" where
  "note_em2 = snd (projr (AddQueryListener note_from_initial note_listen 1 note_em1))"

lemmas note_em_eval =
  note_em_def note_listen_def note_snapshot_eval AddQueryListener_def EventManager_def set_info_def call_listener_def
  OnOnlineStateChanged_cases OnViewSnapshot_cases OnViewSnapshots_def snapshot_step_def hard_assert_def Let_def
  RaiseSnapshotsInSyncEvent_def

lemma note_em_adds:
  "AddQueryListener note_from_initial note_listen 0 note_em =
     Inr (2, note_em1)"
  "AddQueryListener note_from_initial note_listen 1 note_em1 =
     Inr (2, note_em2)"
  "em_source note_em1 = [Listen 5]"
  "em_source note_em2 = [Listen 5]" "em_source note_em = []"
  "ql_snapshot (em_listeners note_em1 1) = None"
  "ql_snapshot (em_listeners note_em a) = None"
  "listeners_of note_em2 5 = Some [0, 1]"
  "em_listeners note_em2 1 = (em_listeners note_em2 0)"
  "length (events_of note_em2 1) = 1"
  "ql_snapshot (em_listeners note_em2 2) = None" "query_of note_em2 2 = 5" "target_of note_em2 5 = Some 2"
  by (simp_all add: note_em2_def note_em1_def note_em_eval listeners_of_def target_of_def)

lemma note_em_reach: "em_reach note_from_initial note_listen note_em2 [Sent (Listen 5)]"
proof -
  have "em_reach note_from_initial note_listen note_em []" unfolding note_em_def by (rule em_reach.start)
  from em_reach.add [OF this note_em_adds(7) note_em_adds(1)]
  have "em_reach note_from_initial note_listen note_em1
    [Sent (Listen 5)]" by (simp add: note_em_adds)
  from em_reach.add [OF this note_em_adds(6,2)] show ?thesis by (simp add: note_em_adds)
qed

lemma note_listen_ok: "list_all snapshot_ok (fst (note_listen q))"
  by (simp add: note_listen_def note_snapshot_eval)

theorem event_manager_shares_listens_witness:
  "em_reach note_from_initial note_listen note_em2 [Sent (Listen 5)] \<and>
   em_source note_em2 = [Listen 5] \<and> dom (listeners_of note_em2) = {5} \<and>
   listeners_of note_em2 5 = Some [0, 1]"
  using event_manager_shares_listens [OF note_em_reach note_listen_ok] note_em_reach by (auto simp: note_em_adds)

text \<open>
  In a reachable event manager, adding a listener that has not seen a snapshot never trips an assertion and
  leaves every other query alone. The listener is appended to those of its query; only the first listener of a
  query makes the source listen, and every later one is given the target of the first.
\<close>

theorem add_query_listener:
  assumes "em_reach fi listen em h" and "\<And>q. list_all snapshot_ok (fst (listen q))"
    and "ql_snapshot (em_listeners em a) = None" and "q = query_of em a"
  shows "\<exists>t em'. AddQueryListener fi listen a em = Inr (t, em') \<and>
    listeners_of em' = (listeners_of em)(q \<mapsto> (case listeners_of em q of None \<Rightarrow> [] | Some as \<Rightarrow> as) @ [a]) \<and>
    target_of em' = (target_of em)(q \<mapsto> t) \<and>
    (case target_of em q of
       None \<Rightarrow> t = snd (listen q) \<and> em_source em' = Listen q # em_source em
     | Some t' \<Rightarrow> t = t' \<and> em_source em' = em_source em)"
proof -
  from em_reach_inv [OF assms(1,2)] have "snapshots_ok em" by (simp add: em_inv_def)
  from AddQueryListener_spec [where fi = fi and a = a and em = em and listen = listen, OF assms(3) this assms(2)] assms(4)
  show ?thesis by (cases "map_of (em_queries em) q") (auto simp: listeners_of_def target_of_def)
qed

theorem add_query_listener_witness:
  "ql_snapshot (em_listeners note_em2 2) = None \<and>
   (\<exists>em'. AddQueryListener note_from_initial note_listen 2 note_em2 = Inr (2, em') \<and>
      listeners_of em' 5 = Some [0, 1, 2] \<and> em_source em' = [Listen 5])"
  using add_query_listener [OF note_em_reach note_listen_ok, of 2 5] by (auto simp: note_em_adds)

text \<open>
  Delivering snapshots and changing the online state never fail, and only ever add to what a listener's
  user has heard. The snapshots-in-sync listeners hear of the batch exactly once each, after it, and exactly when
  some query listener raised an event in it.
\<close>

theorem snapshots_in_sync:
  assumes "list_all snapshot_ok ss"
  shows "\<exists>em1 em2. OnViewSnapshots fi ss em = Inr em1 \<and> HandleOnlineStateChange fi os em = Inr em2 \<and>
    (\<forall>em' \<in> {em1, em2}.
      (\<forall>a. suffix (events_of em a) (events_of em' a)) \<and> listeners_of em' = listeners_of em \<and>
      em_sync_events em' =
        (if \<exists>a. events_of em' a \<noteq> events_of em a then rev (em_sync_listeners em) else []) @ em_sync_events em)"
proof -
  let ?ok = "\<lambda>em'. (\<forall>a. suffix (events_of em a) (events_of em' a)) \<and> listeners_of em' = listeners_of em \<and>
    em_sync_events em' =
      (if \<exists>a. events_of em' a \<noteq> events_of em a then rev (em_sync_listeners em) else []) @ em_sync_events em"
  have ok: "delivered em em' \<Longrightarrow> em_frame em em' \<Longrightarrow> ?ok em'" for em'
    by (simp only: delivered_def em_frame_views) blast
  from OnViewSnapshots_delivers [OF assms] obtain em1 where "OnViewSnapshots fi ss em = Inr em1" "?ok em1" using ok by blast
  moreover from HandleOnlineStateChange_delivers obtain em2 where "HandleOnlineStateChange fi os em = Inr em2" "?ok em2"
    using ok by blast
  ultimately show ?thesis by (intro exI conjI ballI) (auto simp only: insert_iff empty_iff)
qed

definition note_em3 :: "(nat, nat, nat) event_manager" where
  "note_em3 = AddSnapshotsInSyncListener 7 note_em2"

theorem snapshots_in_sync_witness:
  "list_all snapshot_ok [note_snapshot [2] Added False True] \<and>
   (\<exists>em1. OnViewSnapshots note_from_initial [note_snapshot [2] Added False True] note_em3 = Inr em1 \<and>
      length (events_of em1 0) = 2 \<and> em_sync_events em1 = [7, 7])"
  using snapshots_in_sync [of "[note_snapshot [2] Added False True]" note_from_initial note_em3 Online]
  by (simp add: note_em3_def note_em2_def note_em1_def note_em_eval AddSnapshotsInSyncListener_def ShouldRaiseEvent_def)

end
