(* ===== verification/Runner.thy ===== *)
theory Runner
  imports Prelude Complex_Main
begin

text \<open>
  The Windows runner of the application (\<open>windows/runner\<close>): the window class \<open>Win32Window\<close>, the
  \<open>FlutterWindow\<close> that hosts the view, the message loop of \<open>wWinMain\<close> and the string helpers.

  The Win32 API and the Flutter engine are parameters (\<open>win_api\<close>). Every call into them is logged, newest
  first. Any call may make the system send messages to the window procedure before it returns (\<open>api_sends\<close>,
  a function of the log), so every re-entrant path of the code is part of the model. The depth to which such
  sends may nest is bounded by the fuel of \<open>send_message\<close>; exceeding it is the failure \<open>Call_depth\<close>.
\<close>

section \<open>Types\<close>

type_synonym hwnd = nat


record rect =
  r_left :: int
  r_top :: int
  r_right :: int
  r_bottom :: int



datatype msg =
  WM_NCCREATE nat
| WM_DESTROY
| WM_DPICHANGED rect
| WM_SIZE
| WM_ACTIVATE
| WM_FONTCHANGE
| WM_CLOSE
| WM_OTHER nat

datatype os_call =
  RegisterClass
| UnregisterClass
| CreateWindow string int int int int nat
| DestroyWindow hwnd
| SetWindowLongPtr hwnd nat
| LoadUser32
| EnableNonClientDpiScaling hwnd
| FreeUser32
| DefWindowProc hwnd msg
| PostQuitMessage int
| SetWindowPos hwnd int int int int
| MoveWindow hwnd int int int int
| SetFocus hwnd
| SetParent hwnd hwnd
| CreateController nat int int
| DestroyController nat
| RegisterPlugins nat
| ReloadSystemFonts nat
| DispatchMessage hwnd msg
| CoInitializeEx
| CoUninitialize
| AllocConsole
| ReopenStdout
| ReopenStderr
| Dup2Stdout int
| ResyncOutputStreams


text \<open>
  A window object: its virtual functions are those of \<open>FlutterWindow\<close> until that class's destructor is done,
  then those of \<open>Win32Window\<close>. \<open>controller\<close> says whether \<open>flutter_controller_\<close> is set.
\<close>

datatype dynamic_type = Flutter_Window | Win32_Window | Dead

record win =
  dynamic :: dynamic_type
  quit_on_close :: bool
  window_handle :: hwnd
  child_content :: hwnd
  controller :: bool

record runner =
  wins :: "nat \<Rightarrow> win"
  active_window_count :: int
  registrar_instance :: bool
  class_registered :: bool
  user_data :: "hwnd \<Rightarrow> nat"
  os_log :: "os_call list"


definition upd_win :: "nat \<Rightarrow> (win \<Rightarrow> win) \<Rightarrow> runner \<Rightarrow> runner" where
  "upd_win p f s = s\<lparr>wins := (wins s)(p := f (wins s p))\<rparr>"



section \<open>The window class\<close>







definition GetHandle :: "nat \<Rightarrow> runner \<Rightarrow> hwnd" where
  "GetHandle p s = window_handle (wins s p)"





section \<open>Virtual functions\<close>
















section \<open>Strings and the console\<close>


text \<open>
  \<open>convert\<close> is \<open>WideCharToMultiByte\<close> on a terminated string: the bytes with their terminator, or
  \<open>None\<close> (length 0) when the string is not valid UTF-16.
\<close>

definition Utf8FromUtf16 :: "(16 word list \<Rightarrow> 8 word list option) \<Rightarrow> 16 word list option \<Rightarrow> 8 word list" where
  "Utf8FromUtf16 convert utf16_string =
     (case utf16_string of
        None \<Rightarrow> []
      | Some str \<Rightarrow>
          let target_length = (case convert str of None \<Rightarrow> 0 | Some bytes \<Rightarrow> length bytes)
          in if target_length = 0 then []
             else let utf8_string = replicate target_length 0;
                      converted_length = (case convert str of None \<Rightarrow> 0 | Some bytes \<Rightarrow> length bytes);
                      utf8_string = (case convert str of None \<Rightarrow> utf8_string
                        | Some bytes \<Rightarrow> bytes @ drop (length bytes) utf8_string)
                  in if converted_length = 0 then [] else utf8_string)"

definition GetCommandLineArguments ::
    "(16 word list \<Rightarrow> 8 word list option) \<Rightarrow> 16 word list option list option \<Rightarrow> 8 word list list" where
  "GetCommandLineArguments convert argv =
     (case argv of
        None \<Rightarrow> []
      | Some args \<Rightarrow> map (\<lambda>i. Utf8FromUtf16 convert (args ! i)) [1..<length args])"

section \<open>The entry point\<close>





section \<open>The window manager\<close>

text \<open>The calls that matter for the life of the window and of the process, in the order made.\<close>

fun lifecycle :: "os_call \<Rightarrow> bool" where
  "lifecycle RegisterClass = True"
| "lifecycle UnregisterClass = True"
| "lifecycle (CreateWindow t x y w h p) = True"
| "lifecycle (DestroyWindow h) = True"
| "lifecycle (CreateController p w h) = True"
| "lifecycle (DestroyController p) = True"
| "lifecycle (RegisterPlugins p) = True"
| "lifecycle (PostQuitMessage c) = True"
| "lifecycle CoInitializeEx = True"
| "lifecycle CoUninitialize = True"
| "lifecycle _ = False"

definition trace :: "runner \<Rightarrow> os_call list" where
  "trace s = filter lifecycle (rev (os_log s))"




















text \<open>What creating the window leaves: the object knows its handle, the handle its object, and nothing else happened.\<close>

definition window_created :: "hwnd \<Rightarrow> nat \<Rightarrow> runner \<Rightarrow> runner" where
  "window_created H p s =
     (upd_win p (\<lambda>w. w\<lparr>window_handle := H\<rparr>) s)\<lparr>user_data := (user_data s)(H := p)\<rparr>"

lemma window_created_simps [simp]:
  "wins (window_created H p s) = (wins s)(p := (wins s p)\<lparr>window_handle := H\<rparr>)"
  "user_data (window_created H p s) = (user_data s)(H := p)" "os_log (window_created H p s) = os_log s"
  "active_window_count (window_created H p s) = active_window_count s"
  "class_registered (window_created H p s) = class_registered s" "registrar_instance (window_created H p s) = registrar_instance s"
  "trace (window_created H p s) = trace s"
  by (simp_all add: window_created_def upd_win_def trace_def)
















text \<open>
  A converted argument keeps the terminator: when the conversion of a wide string succeeds with the bytes
  \<open>u\<close> and their terminating zero, \<open>Utf8FromUtf16\<close> returns all of them, one byte more than the text. A null
  pointer and a string that is not valid UTF-16 give the empty string, and \<open>GetCommandLineArguments\<close> converts
  every argument but the program's name in order.
\<close>

theorem command_line_keeps_terminator:
  assumes "\<And>str. case convert str of None \<Rightarrow> True | Some bytes \<Rightarrow> \<exists>u. bytes = u @ [0]"
  shows "GetCommandLineArguments convert (Some (prog # args)) =
      map (\<lambda>arg. case arg of None \<Rightarrow> [] | Some str \<Rightarrow> (case convert str of None \<Rightarrow> [] | Some bytes \<Rightarrow> bytes)) args \<and>
    (\<forall>str u. convert str = Some (u @ [0]) \<longrightarrow>
      Utf8FromUtf16 convert (Some str) = u @ [0] \<and> length (Utf8FromUtf16 convert (Some str)) = length u + 1)"
proof -
  have one: "Utf8FromUtf16 convert arg =
      (case arg of None \<Rightarrow> [] | Some str \<Rightarrow> (case convert str of None \<Rightarrow> [] | Some bytes \<Rightarrow> bytes))" for arg
    using assms by (auto simp: Utf8FromUtf16_def Let_def split: option.splits)
  have "map (\<lambda>i. f ((prog # args) ! i)) [1..<length (prog # args)] = map f args" for f :: "16 word list option \<Rightarrow> 8 word list"
    by (rule nth_equalityI) (simp_all del: upt_Suc)
  then show ?thesis by (auto simp: GetCommandLineArguments_def one)
qed

section \<open>A concrete system\<close>








definition ascii_convert :: "16 word list \<Rightarrow> 8 word list option" where
  "ascii_convert str = (if list_all (\<lambda>c. c < 128) str then Some (map (\<lambda>c. word_of_nat (unat c)) str @ [0]) else None)"

theorem command_line_keeps_terminator_witness:
  "ascii_convert [97, 98] = Some ([97, 98] @ [0]) \<and> Utf8FromUtf16 ascii_convert (Some [97, 98]) = [97, 98, 0] \<and>
   GetCommandLineArguments ascii_convert (Some [None, Some [97, 98], Some [955]]) = [[97, 98, 0], []]"
proof -
  have "case ascii_convert str of None \<Rightarrow> True | Some bytes \<Rightarrow> \<exists>u. bytes = u @ [0]" for str
    by (simp add: ascii_convert_def)
  from command_line_keeps_terminator [of ascii_convert None "[Some [97, 98], Some [955]]", OF this] show ?thesis
    by (simp add: ascii_convert_def)
qed

end
