(* ===== verification/Version_Edit.thy ===== *)
theory Version_Edit
  imports Prelude "HOL-Library.Product_Lexorder"
begin

text \<open>
  The manifest records of leveldb (\<open>db/version_edit.cc\<close>) and the internal keys they hold
  (\<open>db/dbformat.h\<close>). The primitive codecs of \<open>util/coding.h\<close> (varints, length-prefixed slices,
  fixed-width integers) are the parameter \<open>coding\<close>; \<open>coding_laws\<close> is what the code relies on.
\<close>

unbundle bit_operations_syntax

type_synonym bytes = "8 word list"

record coding =
  PutVarint32 :: "32 word \<Rightarrow> bytes"
  PutVarint64 :: "64 word \<Rightarrow> bytes"
  PutLengthPrefixedSlice :: "bytes \<Rightarrow> bytes"
  PutFixed64 :: "64 word \<Rightarrow> bytes"
  GetVarint32 :: "bytes \<Rightarrow> (32 word \<times> bytes) option"
  GetVarint64 :: "bytes \<Rightarrow> (64 word \<times> bytes) option"
  GetLengthPrefixedSlice :: "bytes \<Rightarrow> (bytes \<times> bytes) option"
  DecodeFixed64 :: "bytes \<Rightarrow> 64 word"

definition coding_laws :: "coding \<Rightarrow> bool" where
  "coding_laws c \<longleftrightarrow>
     (\<forall>v rest. GetVarint32 c (PutVarint32 c v @ rest) = Some (v, rest)) \<and>
     (\<forall>v rest. GetVarint64 c (PutVarint64 c v @ rest) = Some (v, rest)) \<and>
     (\<forall>s rest. length s < 2 ^ 32 \<longrightarrow> GetLengthPrefixedSlice c (PutLengthPrefixedSlice c s @ rest) = Some (s, rest)) \<and>
     (\<forall>v. length (PutFixed64 c v) = 8 \<and> DecodeFixed64 c (PutFixed64 c v) = v) \<and>
     (\<forall>b v r. GetVarint32 c b = Some (v, r) \<longrightarrow> length r < length b) \<and>
     (\<forall>b v r. GetVarint64 c b = Some (v, r) \<longrightarrow> length r < length b) \<and>
     (\<forall>b s r. GetLengthPrefixedSlice c b = Some (s, r) \<longrightarrow> length r < length b)"

section \<open>Internal keys\<close>

definition kNumLevels :: int where "kNumLevels = 7"

text \<open>\<open>Value_type c\<close> stands for the other values the type byte may have when a key is parsed.\<close>

datatype ValueType = kTypeDeletion | kTypeValue | Other_type "8 word"

definition value_type_code :: "ValueType \<Rightarrow> 8 word" where
  "value_type_code t = (case t of kTypeDeletion \<Rightarrow> 0 | kTypeValue \<Rightarrow> 1 | Other_type b \<Rightarrow> b)"

definition value_type_of :: "8 word \<Rightarrow> ValueType" where
  "value_type_of b = (if b = 0 then kTypeDeletion else if b = 1 then kTypeValue else Other_type b)"

definition kValueTypeForSeek :: ValueType where "kValueTypeForSeek = kTypeValue"

definition kMaxSequenceNumber :: "64 word" where
  "kMaxSequenceNumber = push_bit 56 1 - 1"

record ParsedInternalKey =
  user_key :: bytes
  sequence :: "64 word"
  ptype :: ValueType

definition InternalKeyEncodingLength :: "ParsedInternalKey \<Rightarrow> nat" where
  "InternalKeyEncodingLength key = length (user_key key) + 8"

definition ExtractUserKey :: "bytes \<Rightarrow> bytes result" where
  "ExtractUserKey k = hard_assert (length k \<ge> 8) (Inr (take (length k - 8) k))"

text \<open>The boolean result and the parsed key, which is defined only for keys of at least eight bytes.\<close>

definition ParseInternalKey :: "coding \<Rightarrow> bytes \<Rightarrow> bool \<times> ParsedInternalKey option" where
  "ParseInternalKey c internal_key =
     (let n = length internal_key
      in if n < 8 then (False, None)
         else let num = DecodeFixed64 c (drop (n - 8) internal_key);
                  b = ucast (num AND 0xff) :: 8 word
              in (b \<le> value_type_code kTypeValue,
                  Some \<lparr>user_key = take (n - 8) internal_key, sequence = drop_bit 8 num, ptype = value_type_of b\<rparr>))"

text \<open>\<open>AppendInternalKey\<close> is declared here and defined elsewhere: \<open>append_key\<close>.\<close>

type_synonym InternalKey = bytes

definition InternalKey_make ::
    "(ParsedInternalKey \<Rightarrow> bytes) \<Rightarrow> bytes \<Rightarrow> 64 word \<Rightarrow> ValueType \<Rightarrow> InternalKey" where
  "InternalKey_make append_key u s t = append_key \<lparr>user_key = u, sequence = s, ptype = t\<rparr>"

definition InternalKey_DecodeFrom :: "bytes \<Rightarrow> InternalKey" where
  "InternalKey_DecodeFrom s = s"

definition InternalKey_Encode :: "InternalKey \<Rightarrow> bytes result" where
  "InternalKey_Encode k = hard_assert (k \<noteq> []) (Inr k)"

definition InternalKey_user_key :: "InternalKey \<Rightarrow> bytes result" where
  "InternalKey_user_key k = ExtractUserKey k"

definition InternalKey_Compare :: "(bytes \<Rightarrow> bytes \<Rightarrow> int) \<Rightarrow> InternalKey \<Rightarrow> InternalKey \<Rightarrow> int result" where
  "InternalKey_Compare cmp a b =
     bind_result (InternalKey_Encode a) (\<lambda>x. bind_result (InternalKey_Encode b) (\<lambda>y. Inr (cmp x y)))"

section \<open>Version edits\<close>

definition kComparator :: "32 word" where "kComparator = 1"
definition kLogNumber :: "32 word" where "kLogNumber = 2"
definition kNextFileNumber :: "32 word" where "kNextFileNumber = 3"
definition kLastSequence :: "32 word" where "kLastSequence = 4"
definition kCompactPointer :: "32 word" where "kCompactPointer = 5"
definition kDeletedFile :: "32 word" where "kDeletedFile = 6"
definition kNewFile :: "32 word" where "kNewFile = 7"
definition kPrevLogNumber :: "32 word" where "kPrevLogNumber = 9"

lemmas tag_defs = kComparator_def kLogNumber_def kNextFileNumber_def kLastSequence_def kCompactPointer_def kDeletedFile_def
  kNewFile_def kPrevLogNumber_def

record FileMetaData =
  number :: "64 word"
  file_size :: "64 word"
  smallest :: InternalKey
  largest :: InternalKey

text \<open>\<open>deleted_files\<close> is the ordered set, in its iteration order.\<close>

record VersionEdit =
  comparator_name :: bytes
  log_number :: "64 word"
  prev_log_number :: "64 word"
  next_file_number :: "64 word"
  last_sequence :: "64 word"
  has_comparator :: bool
  has_log_number :: bool
  has_prev_log_number :: bool
  has_next_file_number :: bool
  has_last_sequence :: bool
  compact_pointers :: "(int \<times> InternalKey) list"
  deleted_files :: "(int \<times> 64 word) list"
  new_files :: "(int \<times> FileMetaData) list"

definition VersionEdit_Clear :: "VersionEdit \<Rightarrow> VersionEdit" where
  "VersionEdit_Clear e = e\<lparr>comparator_name := [], log_number := 0, prev_log_number := 0, next_file_number := 0, last_sequence := 0,
     has_comparator := False, has_log_number := False, has_prev_log_number := False, has_next_file_number := False,
     has_last_sequence := False, deleted_files := [], new_files := []\<rparr>"

definition put_level :: "coding \<Rightarrow> int \<Rightarrow> bytes" where
  "put_level c level = PutVarint32 c (word_of_int level)"

definition put_key :: "coding \<Rightarrow> InternalKey \<Rightarrow> bytes result" where
  "put_key c k = bind_result (InternalKey_Encode k) (\<lambda>s. Inr (PutLengthPrefixedSlice c s))"

fun put_compact_pointers :: "coding \<Rightarrow> (int \<times> InternalKey) list \<Rightarrow> bytes result" where
  "put_compact_pointers c [] = Inr []"
| "put_compact_pointers c ((level, key) # ps) =
     bind_result (put_key c key) (\<lambda>k. bind_result (put_compact_pointers c ps) (\<lambda>rest.
       Inr (PutVarint32 c kCompactPointer @ put_level c level @ k @ rest)))"

fun put_deleted_files :: "coding \<Rightarrow> (int \<times> 64 word) list \<Rightarrow> bytes" where
  "put_deleted_files c [] = []"
| "put_deleted_files c ((level, n) # ds) =
     PutVarint32 c kDeletedFile @ put_level c level @ PutVarint64 c n @ put_deleted_files c ds"

fun put_new_files :: "coding \<Rightarrow> (int \<times> FileMetaData) list \<Rightarrow> bytes result" where
  "put_new_files c [] = Inr []"
| "put_new_files c ((level, f) # fs) =
     bind_result (put_key c (smallest f)) (\<lambda>s. bind_result (put_key c (largest f)) (\<lambda>l.
     bind_result (put_new_files c fs) (\<lambda>rest.
       Inr (PutVarint32 c kNewFile @ put_level c level @ PutVarint64 c (number f) @ PutVarint64 c (file_size f) @ s @ l @ rest))))"

definition put_header :: "coding \<Rightarrow> VersionEdit \<Rightarrow> bytes" where
  "put_header c e =
     (if has_comparator e then PutVarint32 c kComparator @ PutLengthPrefixedSlice c (comparator_name e) else []) @
     (if has_log_number e then PutVarint32 c kLogNumber @ PutVarint64 c (log_number e) else []) @
     (if has_prev_log_number e then PutVarint32 c kPrevLogNumber @ PutVarint64 c (prev_log_number e) else []) @
     (if has_next_file_number e then PutVarint32 c kNextFileNumber @ PutVarint64 c (next_file_number e) else []) @
     (if has_last_sequence e then PutVarint32 c kLastSequence @ PutVarint64 c (last_sequence e) else [])"

definition EncodeTo :: "coding \<Rightarrow> VersionEdit \<Rightarrow> bytes result" where
  "EncodeTo c e =
     bind_result (put_compact_pointers c (compact_pointers e)) (\<lambda>cps.
     bind_result (put_new_files c (new_files e)) (\<lambda>nfs.
       Inr (put_header c e @ cps @ put_deleted_files c (deleted_files e) @ nfs)))"

definition GetInternalKey :: "coding \<Rightarrow> bytes \<Rightarrow> (InternalKey \<times> bytes) option" where
  "GetInternalKey c input =
     (case GetLengthPrefixedSlice c input of
        Some (str, rest) \<Rightarrow> Some (InternalKey_DecodeFrom str, rest)
      | None \<Rightarrow> None)"

definition GetLevel :: "coding \<Rightarrow> bytes \<Rightarrow> (int \<times> bytes) option" where
  "GetLevel c input =
     (case GetVarint32 c input of
        Some (v, rest) \<Rightarrow> if uint v < kNumLevels then Some (uint v, rest) else None
      | None \<Rightarrow> None)"

text \<open>The guarded reads of the three records with several fields.\<close>

definition read_compact_pointer :: "coding \<Rightarrow> bytes \<Rightarrow> ((int \<times> InternalKey) \<times> bytes) option" where
  "read_compact_pointer c input =
     do { (level, input) \<leftarrow> GetLevel c input; (key, input) \<leftarrow> GetInternalKey c input; Some ((level, key), input) }"

definition read_deleted_file :: "coding \<Rightarrow> bytes \<Rightarrow> ((int \<times> 64 word) \<times> bytes) option" where
  "read_deleted_file c input =
     do { (level, input) \<leftarrow> GetLevel c input; (n, input) \<leftarrow> GetVarint64 c input; Some ((level, n), input) }"

definition read_new_file :: "coding \<Rightarrow> bytes \<Rightarrow> ((int \<times> FileMetaData) \<times> bytes) option" where
  "read_new_file c input =
     do { (level, input) \<leftarrow> GetLevel c input; (n, input) \<leftarrow> GetVarint64 c input; (sz, input) \<leftarrow> GetVarint64 c input;
          (sm, input) \<leftarrow> GetInternalKey c input; (la, input) \<leftarrow> GetInternalKey c input;
          Some ((level, \<lparr>number = n, file_size = sz, smallest = sm, largest = la\<rparr>), input) }"

lemmas read_defs = read_compact_pointer_def read_deleted_file_def read_new_file_def

text \<open>One turn of the loop of \<open>DecodeFrom\<close>, after the tag was read: the new state, or the message of the error.\<close>

definition decode_record :: "coding \<Rightarrow> 32 word \<Rightarrow> bytes \<Rightarrow> VersionEdit \<Rightarrow> string + (bytes \<times> VersionEdit)" where
  "decode_record c tag input e =
     (if tag = kComparator then
        (case GetLengthPrefixedSlice c input of
           Some (str, input) \<Rightarrow> Inr (input, e\<lparr>comparator_name := str, has_comparator := True\<rparr>)
         | None \<Rightarrow> Inl ''comparator name'')
      else if tag = kLogNumber then
        (case GetVarint64 c input of
           Some (v, input) \<Rightarrow> Inr (input, e\<lparr>log_number := v, has_log_number := True\<rparr>)
         | None \<Rightarrow> Inl ''log number'')
      else if tag = kPrevLogNumber then
        (case GetVarint64 c input of
           Some (v, input) \<Rightarrow> Inr (input, e\<lparr>prev_log_number := v, has_prev_log_number := True\<rparr>)
         | None \<Rightarrow> Inl ''previous log number'')
      else if tag = kNextFileNumber then
        (case GetVarint64 c input of
           Some (v, input) \<Rightarrow> Inr (input, e\<lparr>next_file_number := v, has_next_file_number := True\<rparr>)
         | None \<Rightarrow> Inl ''next file number'')
      else if tag = kLastSequence then
        (case GetVarint64 c input of
           Some (v, input) \<Rightarrow> Inr (input, e\<lparr>last_sequence := v, has_last_sequence := True\<rparr>)
         | None \<Rightarrow> Inl ''last sequence number'')
      else if tag = kCompactPointer then
        (case read_compact_pointer c input of
           Some (p, input) \<Rightarrow> Inr (input, e\<lparr>compact_pointers := compact_pointers e @ [p]\<rparr>)
         | None \<Rightarrow> Inl ''compaction pointer'')
      else if tag = kDeletedFile then
        (case read_deleted_file c input of
           Some (d, input) \<Rightarrow> Inr (input, e\<lparr>deleted_files := insort_insert d (deleted_files e)\<rparr>)
         | None \<Rightarrow> Inl ''deleted file'')
      else if tag = kNewFile then
        (case read_new_file c input of
           Some (f, input) \<Rightarrow> Inr (input, e\<lparr>new_files := new_files e @ [f]\<rparr>)
         | None \<Rightarrow> Inl ''new-file entry'')
      else Inl ''unknown tag'')"

partial_function (option) decode_loop :: "coding \<Rightarrow> bytes \<Rightarrow> VersionEdit \<Rightarrow> (string option \<times> bytes \<times> VersionEdit) option" where
  "decode_loop c input e =
     (case GetVarint32 c input of
        None \<Rightarrow> Some (None, input, e)
      | Some (tag, rest) \<Rightarrow>
          (case decode_record c tag rest e of
             Inl msg \<Rightarrow> Some (Some msg, rest, e)
           | Inr (input', e') \<Rightarrow> decode_loop c input' e'))"

datatype status = OK | Corruption string string

definition DecodeFrom :: "coding \<Rightarrow> bytes \<Rightarrow> VersionEdit \<Rightarrow> (status \<times> VersionEdit) option" where
  "DecodeFrom c src e0 =
     do {
       (msg, input, e) \<leftarrow> decode_loop c src (VersionEdit_Clear e0);
       let msg = (if msg = None \<and> input \<noteq> [] then Some ''invalid tag'' else msg);
       Some (case msg of None \<Rightarrow> (OK, e) | Some m \<Rightarrow> (Corruption ''VersionEdit'' m, e))
     }"

section \<open>Decoding ends and keeps the levels in range\<close>

lemma coding_shrinks:
  assumes "coding_laws c"
  shows "GetVarint32 c b = Some (v, r) \<Longrightarrow> length r < length b"
    and "GetVarint64 c b = Some (w, r) \<Longrightarrow> length r < length b"
    and "GetLengthPrefixedSlice c b = Some (s, r) \<Longrightarrow> length r < length b"
  using assms by (auto simp: coding_laws_def)

lemma GetLevel_shrinks: "coding_laws c \<Longrightarrow> GetLevel c b = Some (l, r) \<Longrightarrow> length r < length b \<and> 0 \<le> l \<and> l < kNumLevels"
  by (auto simp: GetLevel_def dest: coding_shrinks split: option.splits if_splits)

lemma GetInternalKey_shrinks: "coding_laws c \<Longrightarrow> GetInternalKey c b = Some (k, r) \<Longrightarrow> length r < length b"
  by (auto simp: GetInternalKey_def dest: coding_shrinks split: option.splits)

definition level_ok :: "int \<times> 'a \<Rightarrow> bool" where
  "level_ok p \<longleftrightarrow> 0 \<le> fst p \<and> fst p < kNumLevels"

definition levels_ok :: "VersionEdit \<Rightarrow> bool" where
  "levels_ok e \<longleftrightarrow> list_all level_ok (compact_pointers e) \<and> list_all level_ok (deleted_files e) \<and> list_all level_ok (new_files e)"

lemma list_all_insort_insert: "P x \<Longrightarrow> list_all P xs \<Longrightarrow> list_all P (insort_insert x xs)"
  by (auto simp: list_all_iff set_insort_insert)

lemma read_shrinks:
  assumes "coding_laws c"
  shows "read_compact_pointer c b = Some (p, r) \<Longrightarrow> length r < length b \<and> level_ok p"
    and "read_deleted_file c b = Some (d, r) \<Longrightarrow> length r < length b \<and> level_ok d"
    and "read_new_file c b = Some (f, r) \<Longrightarrow> length r < length b \<and> level_ok f"
  unfolding read_compact_pointer_def read_deleted_file_def read_new_file_def level_ok_def
  by (auto simp: bind_eq_Some_conv dest!: GetLevel_shrinks [OF assms] GetInternalKey_shrinks [OF assms] coding_shrinks [OF assms])

lemma decode_record_ok:
  assumes "coding_laws c" and "decode_record c tag b e = Inr (r, e')"
  shows "length r < length b \<and> (levels_ok e \<longrightarrow> levels_ok e')"
  using assms(2) unfolding decode_record_def
  by (auto simp: levels_ok_def list_all_insort_insert split: if_split_asm option.split_asm
      dest!: coding_shrinks [OF assms(1)] read_shrinks [OF assms(1)])

lemma decode_loop_returns:
  assumes "coding_laws c"
  shows "\<exists>msg r e'. decode_loop c b e = Some (msg, r, e') \<and> (levels_ok e \<longrightarrow> levels_ok e') \<and> (msg = None \<longrightarrow> GetVarint32 c r = None)"
proof (induction "length b" arbitrary: b e rule: less_induct)
  case less
  show ?case
  proof (cases "GetVarint32 c b")
    case None
    then show ?thesis by (simp add: decode_loop.simps)
  next
    case (Some p)
    obtain tag rest where p: "p = (tag, rest)" by (cases p)
    with Some have r: "GetVarint32 c b = Some (tag, rest)" by simp
    from coding_shrinks(1) [OF assms r] have shorter: "length rest < length b" .
    show ?thesis
    proof (cases "decode_record c tag rest e")
      case (Inl m)
      with r show ?thesis by (simp add: decode_loop.simps [of c b])
    next
      case (Inr q)
      obtain b' e' where q: "q = (b', e')" by (cases q)
      from decode_record_ok [OF assms Inr [unfolded q]] shorter have ok: "length b' < length b" "levels_ok e \<longrightarrow> levels_ok e'" by auto
      with less [of b' e'] r Inr q show ?thesis by (auto simp: decode_loop.simps [of c b])
    qed
  qed
qed

section \<open>The round trip\<close>

definition key_ok :: "InternalKey \<Rightarrow> bool" where
  "key_ok k \<longleftrightarrow> k \<noteq> [] \<and> length k < 2 ^ 32"

definition edit_ok :: "VersionEdit \<Rightarrow> bool" where
  "edit_ok e \<longleftrightarrow> levels_ok e \<and> length (comparator_name e) < 2 ^ 32 \<and>
     (\<not> has_comparator e \<longrightarrow> comparator_name e = []) \<and> (\<not> has_log_number e \<longrightarrow> log_number e = 0) \<and>
     (\<not> has_prev_log_number e \<longrightarrow> prev_log_number e = 0) \<and> (\<not> has_next_file_number e \<longrightarrow> next_file_number e = 0) \<and>
     (\<not> has_last_sequence e \<longrightarrow> last_sequence e = 0) \<and>
     sorted (deleted_files e) \<and> distinct (deleted_files e) \<and>
     list_all (\<lambda>(l, k). key_ok k) (compact_pointers e) \<and> list_all (\<lambda>(l, f). key_ok (smallest f) \<and> key_ok (largest f)) (new_files e)"

lemma coding_get_put:
  assumes "coding_laws c"
  shows "GetVarint32 c (PutVarint32 c v @ rest) = Some (v, rest)" "GetVarint64 c (PutVarint64 c w @ rest) = Some (w, rest)"
    "length s < 2 ^ 32 \<Longrightarrow> GetLengthPrefixedSlice c (PutLengthPrefixedSlice c s @ rest) = Some (s, rest)"
    "GetVarint32 c [] = None"
  using assms coding_shrinks(1) [OF assms, of "[]"] by (auto simp: coding_laws_def intro: option.exhaust)

lemma get_put_level:
  assumes "coding_laws c" and "0 \<le> l \<and> l < kNumLevels"
  shows "GetLevel c (put_level c l @ rest) = Some (l, rest)"
proof -
  have "uint (word_of_int l :: 32 word) = l" using assms(2) by (simp add: level_ok_def unsigned_of_int take_bit_int_eq_self kNumLevels_def)
  with assms show ?thesis by (simp add: level_ok_def GetLevel_def put_level_def coding_get_put)
qed

lemma get_put_key:
  assumes "coding_laws c" and "key_ok k"
  shows "\<exists>b. put_key c k = Inr b \<and> (\<forall>rest. GetInternalKey c (b @ rest) = Some (k, rest))"
  using assms by (auto simp: put_key_def InternalKey_Encode_def key_ok_def GetInternalKey_def coding_get_put InternalKey_DecodeFrom_def)

lemma decode_tag:
  assumes "coding_laws c"
  shows "decode_loop c (PutVarint32 c tag @ rest) e =
    (case decode_record c tag rest e of Inl msg \<Rightarrow> Some (Some msg, rest, e) | Inr (input', e') \<Rightarrow> decode_loop c input' e')"
  by (simp add: decode_loop.simps [of c "PutVarint32 c tag @ rest"] coding_get_put [OF assms])

lemma decode_compact_pointers:
  assumes "coding_laws c" and "list_all (\<lambda>(l, k). key_ok k \<and> level_ok (l, k)) ps"
  shows "\<exists>b. put_compact_pointers c ps = Inr b \<and>
    (\<forall>rest e. decode_loop c (b @ rest) e = decode_loop c rest (e\<lparr>compact_pointers := compact_pointers e @ ps\<rparr>))"
  using assms(2)
proof (induction ps)
  case (Cons p ps)
  obtain l k where p: "p = (l, k)" by (cases p)
  from Cons.prems p get_put_key [OF assms(1), of k] obtain kb where kb: "put_key c k = Inr kb"
    "\<And>rest. GetInternalKey c (kb @ rest) = Some (k, rest)" by auto
  from Cons obtain b where "put_compact_pointers c ps = Inr b"
    "\<And>rest e. decode_loop c (b @ rest) e = decode_loop c rest (e\<lparr>compact_pointers := compact_pointers e @ ps\<rparr>)" by auto
  with kb p Cons.prems show ?case
    by (simp add: decode_tag [OF assms(1)] decode_record_def read_defs level_ok_def get_put_level [OF assms(1)] tag_defs)
qed simp

lemma decode_deleted_files:
  assumes "coding_laws c" and "list_all level_ok ds" and "sorted (deleted_files e @ ds)" and "distinct (deleted_files e @ ds)"
  shows "decode_loop c (put_deleted_files c ds @ rest) e = decode_loop c rest (e\<lparr>deleted_files := deleted_files e @ ds\<rparr>)"
  using assms(2-)
proof (induction ds arbitrary: e)
  case (Cons d ds)
  obtain l n where d: "d = (l, n)" by (cases d)
  have "insort_insert d (deleted_files e) = deleted_files e @ [d]"
    using Cons.prems by (auto simp: insort_insert_key_def insort_is_Cons sorted_append intro!: sorted_insort_is_snoc)
  moreover have "sorted (deleted_files e @ [d]) \<and> sorted ((deleted_files e @ [d]) @ ds) \<and> distinct ((deleted_files e @ [d]) @ ds)"
    using Cons.prems by (auto simp: sorted_append)
  ultimately show ?case using Cons.IH [of "e\<lparr>deleted_files := deleted_files e @ [d]\<rparr>"] Cons.prems d
    by (simp add: decode_tag [OF assms(1)] decode_record_def read_defs level_ok_def get_put_level [OF assms(1)] coding_get_put [OF assms(1)] tag_defs)
qed simp

lemma decode_new_files:
  assumes "coding_laws c" and "list_all (\<lambda>(l, f). key_ok (smallest f) \<and> key_ok (largest f) \<and> level_ok (l, f)) fs"
  shows "\<exists>b. put_new_files c fs = Inr b \<and>
    (\<forall>rest e. decode_loop c (b @ rest) e = decode_loop c rest (e\<lparr>new_files := new_files e @ fs\<rparr>))"
  using assms(2)
proof (induction fs)
  case (Cons p fs)
  obtain l f where p: "p = (l, f)" by (cases p)
  from Cons.prems p get_put_key [OF assms(1), of "smallest f"] obtain sb where sb: "put_key c (smallest f) = Inr sb"
    "\<And>rest. GetInternalKey c (sb @ rest) = Some (smallest f, rest)" by auto
  from Cons.prems p get_put_key [OF assms(1), of "largest f"] obtain lb where lb: "put_key c (largest f) = Inr lb"
    "\<And>rest. GetInternalKey c (lb @ rest) = Some (largest f, rest)" by auto
  from Cons obtain b where "put_new_files c fs = Inr b"
    "\<And>rest e. decode_loop c (b @ rest) e = decode_loop c rest (e\<lparr>new_files := new_files e @ fs\<rparr>)" by auto
  with sb lb p Cons.prems show ?case
    by (simp add: decode_tag [OF assms(1)] decode_record_def read_defs level_ok_def get_put_level [OF assms(1)] coding_get_put [OF assms(1)] tag_defs
        split: prod.split) (cases f; simp)
qed simp

lemma decode_header:
  assumes "coding_laws c" and "length (comparator_name e) < 2 ^ 32"
  shows "decode_loop c (put_header c e @ rest) d = decode_loop c rest (d\<lparr>
    comparator_name := if has_comparator e then comparator_name e else comparator_name d,
    has_comparator := has_comparator e \<or> has_comparator d,
    log_number := if has_log_number e then log_number e else log_number d,
    has_log_number := has_log_number e \<or> has_log_number d,
    prev_log_number := if has_prev_log_number e then prev_log_number e else prev_log_number d,
    has_prev_log_number := has_prev_log_number e \<or> has_prev_log_number d,
    next_file_number := if has_next_file_number e then next_file_number e else next_file_number d,
    has_next_file_number := has_next_file_number e \<or> has_next_file_number d,
    last_sequence := if has_last_sequence e then last_sequence e else last_sequence d,
    has_last_sequence := has_last_sequence e \<or> has_last_sequence d\<rparr>)"
proof -
  have fields:
    "decode_loop c ((if has_comparator e then PutVarint32 c kComparator @ PutLengthPrefixedSlice c (comparator_name e) else []) @ r) d =
      decode_loop c r (if has_comparator e then d\<lparr>comparator_name := comparator_name e, has_comparator := True\<rparr> else d)"
    "decode_loop c ((if has_log_number e then PutVarint32 c kLogNumber @ PutVarint64 c (log_number e) else []) @ r) d =
      decode_loop c r (if has_log_number e then d\<lparr>log_number := log_number e, has_log_number := True\<rparr> else d)"
    "decode_loop c ((if has_prev_log_number e then PutVarint32 c kPrevLogNumber @ PutVarint64 c (prev_log_number e) else []) @ r) d =
      decode_loop c r (if has_prev_log_number e then d\<lparr>prev_log_number := prev_log_number e, has_prev_log_number := True\<rparr> else d)"
    "decode_loop c ((if has_next_file_number e then PutVarint32 c kNextFileNumber @ PutVarint64 c (next_file_number e) else []) @ r) d =
      decode_loop c r (if has_next_file_number e then d\<lparr>next_file_number := next_file_number e, has_next_file_number := True\<rparr> else d)"
    "decode_loop c ((if has_last_sequence e then PutVarint32 c kLastSequence @ PutVarint64 c (last_sequence e) else []) @ r) d =
      decode_loop c r (if has_last_sequence e then d\<lparr>last_sequence := last_sequence e, has_last_sequence := True\<rparr> else d)"
    for r d
    using assms(2) by (simp_all add: decode_tag [OF assms(1)] decode_record_def coding_get_put [OF assms(1)] tag_defs)
  show ?thesis
    unfolding put_header_def append_assoc fields
    by (rule arg_cong [where f = "decode_loop c rest"], rule VersionEdit.equality) simp_all
qed

text \<open>
  C38: A well-formed edit survives the manifest: encoding it never fails, and decoding the bytes into any edit object
  reports \<open>OK\<close> and yields every field, flag, deleted file and new file of the original. The compaction
  pointers of the original are appended to those the object already had, because \<open>Clear\<close> does not reset them.
\<close>

theorem version_edit_roundtrip:
  assumes "coding_laws c" and "edit_ok e"
  shows "\<exists>b. EncodeTo c e = Inr b \<and>
    DecodeFrom c b old = Some (OK, e\<lparr>compact_pointers := compact_pointers old @ compact_pointers e\<rparr>)"
proof -
  from assms(2) have ps: "list_all (\<lambda>(l, k). key_ok k \<and> level_ok (l, k)) (compact_pointers e)"
    and fs: "list_all (\<lambda>(l, f). key_ok (smallest f) \<and> key_ok (largest f) \<and> level_ok (l, f)) (new_files e)"
    and ds: "list_all level_ok (deleted_files e)" "sorted (deleted_files e)" "distinct (deleted_files e)"
    by (auto simp: edit_ok_def levels_ok_def list_all_iff)
  from decode_compact_pointers [OF assms(1) ps] obtain cb where cb: "put_compact_pointers c (compact_pointers e) = Inr cb"
    "\<And>rest d. decode_loop c (cb @ rest) d = decode_loop c rest (d\<lparr>compact_pointers := compact_pointers d @ compact_pointers e\<rparr>)"
    by blast
  from decode_new_files [OF assms(1) fs] obtain fb where fb: "put_new_files c (new_files e) = Inr fb"
    "\<And>rest d. decode_loop c (fb @ rest) d = decode_loop c rest (d\<lparr>new_files := new_files d @ new_files e\<rparr>)"
    by blast
  have "decode_loop c (fb @ []) d = decode_loop c [] (d\<lparr>new_files := new_files d @ new_files e\<rparr>)" for d by (rule fb(2))
  then have nf: "decode_loop c fb d = Some (None, [], d\<lparr>new_files := new_files d @ new_files e\<rparr>)" for d
    by (simp add: decode_loop.simps [of c "[]"] coding_get_put [OF assms(1)])
  let ?b = "put_header c e @ cb @ put_deleted_files c (deleted_files e) @ fb"
  have "decode_loop c ?b (VersionEdit_Clear old) =
    Some (None, [], e\<lparr>compact_pointers := compact_pointers old @ compact_pointers e\<rparr>)"
    using assms(2) ds
    by (simp add: decode_header [OF assms(1)] edit_ok_def VersionEdit_Clear_def cb decode_deleted_files [OF assms(1)] nf)
  then show ?thesis using cb(1) fb(1) by (simp add: EncodeTo_def DecodeFrom_def)
qed

text \<open>
  C39: Decoding ends on every input, and whatever the bytes of the manifest say, the levels of the decoded edit are
  levels of the database: an edit whose compaction pointers were in range before is in range everywhere after, also
  when the status is a corruption. The status is \<open>OK\<close> exactly when the records are followed by nothing.
\<close>

theorem version_edit_decode:
  assumes "coding_laws c" and "list_all level_ok (compact_pointers old)"
  shows "\<exists>st e msg r. DecodeFrom c b old = Some (st, e) \<and> levels_ok e \<and>
    decode_loop c b (VersionEdit_Clear old) = Some (msg, r, e) \<and> (st = OK \<longleftrightarrow> msg = None \<and> r = [])"
proof -
  have "levels_ok (VersionEdit_Clear old)" using assms(2) by (simp add: levels_ok_def VersionEdit_Clear_def)
  with decode_loop_returns [OF assms(1), of b "VersionEdit_Clear old"] show ?thesis
    by (auto simp: DecodeFrom_def Let_def split: option.split)
qed

section \<open>A concrete codec\<close>

text \<open>Base-128 varints, low group first, on unbounded numbers; the fixed-width readers reject what does not fit.\<close>

function put_varint :: "nat \<Rightarrow> bytes" where
  "put_varint n = (if n < 128 then [of_nat n] else of_nat (n mod 128 + 128) # put_varint (n div 128))"
  by pat_completeness auto
termination by (relation "measure id") auto

declare put_varint.simps [simp del]

fun get_varint :: "bytes \<Rightarrow> (nat \<times> bytes) option" where
  "get_varint [] = None"
| "get_varint (b # bs) =
     (if unat b < 128 then Some (unat b, bs)
      else case get_varint bs of None \<Rightarrow> None | Some (n, rest) \<Rightarrow> Some (unat b - 128 + 128 * n, rest))"

lemma get_put_varint: "get_varint (put_varint n @ rest) = Some (n, rest)"
proof (induction n rule: put_varint.induct)
  case (1 n)
  have small: "unat (of_nat k :: 8 word) = k" if "k < 256" for k using that by (simp add: unat_of_nat take_bit_nat_eq_self)
  show ?case
  proof (cases "n < 128")
    case True
    then show ?thesis using small [of n] by (simp add: put_varint.simps [of n])
  next
    case False
    then have put: "put_varint n @ rest = of_nat (n mod 128 + 128) # (put_varint (n div 128) @ rest)"
      by (simp add: put_varint.simps [of n])
    have "unat (of_nat (n mod 128 + 128) :: 8 word) = n mod 128 + 128" by (rule small) simp
    with 1 False show ?thesis by (simp only: put get_varint.simps) simp
  qed
qed

lemma get_varint_shrinks: "get_varint b = Some (n, r) \<Longrightarrow> length r < length b"
  by (induction b arbitrary: n r rule: get_varint.induct) (fastforce split: if_splits option.splits)+

text \<open>Little-endian digits.\<close>

fun put_fixed :: "nat \<Rightarrow> nat \<Rightarrow> bytes" where
  "put_fixed 0 n = []"
| "put_fixed (Suc k) n = of_nat (n mod 256) # put_fixed k (n div 256)"

fun get_fixed :: "bytes \<Rightarrow> nat" where
  "get_fixed [] = 0"
| "get_fixed (b # bs) = unat b + 256 * get_fixed bs"

lemma get_put_fixed: "n < 256 ^ k \<Longrightarrow> get_fixed (put_fixed k n) = n"
proof (induction k arbitrary: n)
  case (Suc k)
  have "unat (of_nat (n mod 256) :: 8 word) = n mod 256" by (simp add: unat_of_nat take_bit_nat_eq_self)
  moreover have "n div 256 < 256 ^ k" using Suc.prems by (simp add: less_mult_imp_div_less mult.commute)
  ultimately show ?case by (simp only: put_fixed.simps get_fixed.simps Suc.IH) simp
qed simp

lemma length_put_fixed: "length (put_fixed k n) = k"
  by (induction k n rule: put_fixed.induct) simp_all

definition plain_coding :: coding where
  "plain_coding = \<lparr>
     PutVarint32 = (\<lambda>v. put_varint (unat v)), PutVarint64 = (\<lambda>v. put_varint (unat v)),
     PutLengthPrefixedSlice = (\<lambda>s. put_varint (length s) @ s),
     PutFixed64 = (\<lambda>v. put_fixed 8 (unat v)),
     GetVarint32 = (\<lambda>b. case get_varint b of None \<Rightarrow> None | Some (n, r) \<Rightarrow> if n < 2 ^ 32 then Some (of_nat n, r) else None),
     GetVarint64 = (\<lambda>b. case get_varint b of None \<Rightarrow> None | Some (n, r) \<Rightarrow> if n < 2 ^ 64 then Some (of_nat n, r) else None),
     GetLengthPrefixedSlice = (\<lambda>b. case get_varint b of None \<Rightarrow> None
       | Some (n, r) \<Rightarrow> if n \<le> length r then Some (take n r, drop n r) else None),
     DecodeFixed64 = (\<lambda>b. of_nat (get_fixed b))\<rparr>"

lemma plain_coding_laws: "coding_laws plain_coding"
proof -
  have "unat v < 2 ^ 32" for v :: "32 word" using unsigned_less [of v] by simp
  moreover have "unat v < 2 ^ 64" for v :: "64 word" using unsigned_less [of v] by simp
  moreover from this have "get_fixed (put_fixed 8 (unat v)) = unat v" for v :: "64 word"
    by (intro get_put_fixed) simp
  moreover have "length (drop n r) < length b" "length r < length b" if "get_varint b = Some (n, r)" for n r b
    using get_varint_shrinks [OF that] by simp_all
  ultimately show ?thesis
    unfolding coding_laws_def plain_coding_def
    by (auto simp: get_put_varint length_put_fixed split: option.split_asm if_split_asm)
qed

definition note_file :: FileMetaData where
  "note_file = \<lparr>number = 12, file_size = 2048, smallest = [97, 1, 0, 0, 0, 0, 0, 0, 0], largest = [122, 1, 0, 0, 0, 0, 0, 0, 0]\<rparr>"

definition note_edit :: VersionEdit where
  "note_edit = \<lparr>comparator_name = [98], log_number = 9, prev_log_number = 0, next_file_number = 300, last_sequence = 77,
     has_comparator = True, has_log_number = True, has_prev_log_number = False, has_next_file_number = True, has_last_sequence = True,
     compact_pointers = [(1, [97, 1])], deleted_files = [(0, 4), (1, 2)], new_files = [(2, note_file)]\<rparr>"

definition used_edit :: VersionEdit where
  "used_edit = note_edit\<lparr>compact_pointers := [(3, [99])], log_number := 1000\<rparr>"

theorem version_edit_roundtrip_witness:
  "coding_laws plain_coding \<and> edit_ok note_edit \<and>
   (\<exists>b. EncodeTo plain_coding note_edit = Inr b \<and>
      DecodeFrom plain_coding b used_edit = Some (OK, note_edit\<lparr>compact_pointers := [(3, [99]), (1, [97, 1])]\<rparr>))"
proof -
  have ok: "edit_ok note_edit"
    by (simp add: edit_ok_def note_edit_def note_file_def levels_ok_def level_ok_def key_ok_def kNumLevels_def)
  then show ?thesis
    using version_edit_roundtrip [OF plain_coding_laws ok, of used_edit] plain_coding_laws
    by (simp add: used_edit_def) (simp add: note_edit_def)
qed

theorem version_edit_decode_witness:
  "list_all level_ok (compact_pointers used_edit) \<and>
   (\<exists>e. DecodeFrom plain_coding [5, 9, 1, 97] used_edit = Some (Corruption ''VersionEdit'' ''compaction pointer'', e) \<and> levels_ok e)"
proof -
  have "list_all level_ok (compact_pointers used_edit)" by (simp add: used_edit_def level_ok_def kNumLevels_def)
  moreover have "\<exists>e. DecodeFrom plain_coding [5, 9, 1, 97] used_edit = Some (Corruption ''VersionEdit'' ''compaction pointer'', e)"
    by (simp add: DecodeFrom_def decode_loop.simps plain_coding_def decode_record_def tag_defs read_compact_pointer_def GetLevel_def kNumLevels_def)
  ultimately show ?thesis
    using version_edit_decode [OF plain_coding_laws, of used_edit "[5, 9, 1, 97]"] by auto
qed

section \<open>Packed internal keys\<close>

lemma parse_append_key:
  assumes "coding_laws c" and "\<And>k. append_key k = user_key k @ PutFixed64 c (push_bit 8 (sequence k) OR ucast (value_type_code (ptype k)))"
    and "s \<le> kMaxSequenceNumber" and "t = kTypeDeletion \<or> t = kTypeValue"
  shows "ParseInternalKey c (append_key \<lparr>user_key = u, sequence = s, ptype = t\<rparr>) = (True, Some \<lparr>user_key = u, sequence = s, ptype = t\<rparr>)"
    and "ExtractUserKey (append_key \<lparr>user_key = u, sequence = s, ptype = t\<rparr>) = Inr u"
    and "length (append_key \<lparr>user_key = u, sequence = s, ptype = t\<rparr>) = length u + 8"
proof -
  let ?num = "push_bit 8 s OR ucast (value_type_code t) :: 64 word"
  have code: "value_type_code t = 0 \<or> value_type_code t = 1" using assms(4) by (auto simp: value_type_code_def)
  have small: "\<not> bit s n" if "n \<ge> 56" for n
  proof -
    have "unat s \<le> unat kMaxSequenceNumber" using assms(3) by (simp add: word_le_nat_alt)
    then have "unat s < 2 ^ 56" by (simp add: kMaxSequenceNumber_def)
    then have "unat (take_bit 56 s) = unat s" by (simp add: unsigned_take_bit_eq take_bit_nat_eq_self)
    then have "take_bit 56 s = s" by (rule unsigned_word_eqI)
    with that show ?thesis by (metis bit_take_bit_iff not_le)
  qed
  have low: "(ucast (?num AND 0xff) :: 8 word) = value_type_code t"
  proof -
    have "?num AND 0xff = take_bit 8 ?num" by (simp add: take_bit_eq_mask mask_eq_exp_minus_1)
    then show ?thesis
      by (intro bit_eqI) (use code in \<open>auto simp: bit_ucast_iff bit_take_bit_iff bit_or_iff bit_push_bit_iff\<close>)
  qed
  have high: "drop_bit 8 ?num = s"
    by (rule bit_eqI) (use code small in \<open>auto simp: bit_drop_bit_eq bit_or_iff bit_push_bit_iff bit_ucast_iff bit_1_iff not_le [symmetric]\<close>)
  have "value_type_of (value_type_code t) = t" using assms(4) by (auto simp: value_type_code_def value_type_of_def)
  moreover have "length (PutFixed64 c ?num) = 8" "DecodeFixed64 c (PutFixed64 c ?num) = ?num"
    using assms(1) by (auto simp: coding_laws_def)
  moreover have "value_type_code t \<le> value_type_code kTypeValue" using code by (auto simp: value_type_code_def)
  ultimately show "ParseInternalKey c (append_key \<lparr>user_key = u, sequence = s, ptype = t\<rparr>) = (True, Some \<lparr>user_key = u, sequence = s, ptype = t\<rparr>)"
    and "ExtractUserKey (append_key \<lparr>user_key = u, sequence = s, ptype = t\<rparr>) = Inr u"
    and "length (append_key \<lparr>user_key = u, sequence = s, ptype = t\<rparr>) = length u + 8"
    by (simp_all add: ParseInternalKey_def assms(2) Let_def low high [simplified] ExtractUserKey_def)
qed

text \<open>
  C37: An internal key whose last eight bytes are the packed sequence number and type parses back to its parts, for
  both value types and every sequence number up to \<open>kMaxSequenceNumber\<close>; its user key is what
  \<open>ExtractUserKey\<close> returns, and its length what \<open>InternalKeyEncodingLength\<close> says. Shorter strings are
  rejected by the parser and by the assertion.
\<close>

theorem internal_key_roundtrip:
  assumes "coding_laws c" and "\<And>k. append_key k = user_key k @ PutFixed64 c (push_bit 8 (sequence k) OR ucast (value_type_code (ptype k)))"
    and "s \<le> kMaxSequenceNumber" and "t = kTypeDeletion \<or> t = kTypeValue"
  shows "ParseInternalKey c (InternalKey_make append_key u s t) = (True, Some \<lparr>user_key = u, sequence = s, ptype = t\<rparr>) \<and>
    InternalKey_user_key (InternalKey_make append_key u s t) = Inr u \<and>
    length (InternalKey_make append_key u s t) = InternalKeyEncodingLength \<lparr>user_key = u, sequence = s, ptype = t\<rparr> \<and>
    (length v < 8 \<longrightarrow> ParseInternalKey c v = (False, None) \<and> ExtractUserKey v = Inl Assert_failed)"
  using parse_append_key [OF assms, of u]
  by (simp add: InternalKey_make_def InternalKey_user_key_def InternalKeyEncodingLength_def ParseInternalKey_def ExtractUserKey_def)

definition plain_append :: "ParsedInternalKey \<Rightarrow> bytes" where
  "plain_append k = user_key k @ PutFixed64 plain_coding (push_bit 8 (sequence k) OR ucast (value_type_code (ptype k)))"

theorem internal_key_roundtrip_witness:
  "coding_laws plain_coding \<and> (5 :: 64 word) \<le> kMaxSequenceNumber \<and>
   ParseInternalKey plain_coding (InternalKey_make plain_append [110] 5 kTypeValue) =
     (True, Some \<lparr>user_key = [110], sequence = 5, ptype = kTypeValue\<rparr>) \<and>
   ExtractUserKey [1, 2] = Inl Assert_failed"
proof -
  have "(5 :: 64 word) \<le> kMaxSequenceNumber" by (simp add: kMaxSequenceNumber_def)
  then show ?thesis
    using internal_key_roundtrip [OF plain_coding_laws plain_append_def, of 5 kTypeValue "[110]" "[1, 2]"] plain_coding_laws by simp
qed

end
