(* ===== verification/Lru_Gc.thy ===== *)
theory Lru_Gc
  imports Prelude Complex_Main
begin

text \<open>
  The LRU garbage collector of the local cache (\<open>local/lru_garbage_collector.cc\<close>) and the in-memory
  delegate that tells it what may go (\<open>local/memory_lru_reference_delegate.cc\<close>).

  The caches behind the delegate (targets, remote documents, mutation queues, the listen sequence) are the
  parameter \<open>persistence\<close>, over an abstract state; the clock and the log lines are left out.
\<close>

section \<open>The delegate\<close>

definition kListenSequenceNumberInvalid :: int where
  "kListenSequenceNumberInvalid = -1"

record ('p, 'k, 't, 'live) persistence =
  highest_listen_sequence_number :: "'p \<Rightarrow> int"
  next_listen_sequence :: "'p \<Rightarrow> int \<times> 'p"
  target_cache_size :: "'p \<Rightarrow> nat"
  target_cache_sequence_numbers :: "'p \<Rightarrow> int list"
  target_cache_contains :: "'p \<Rightarrow> 'k \<Rightarrow> bool"
  target_cache_remove_targets :: "int \<Rightarrow> 'live \<Rightarrow> 'p \<Rightarrow> nat \<times> 'p"
  target_cache_update :: "'t \<Rightarrow> 'p \<Rightarrow> 'p"
  with_sequence_number :: "'t \<Rightarrow> int \<Rightarrow> 't"
  remove_orphaned_documents :: "('k \<Rightarrow> bool) \<Rightarrow> 'p \<Rightarrow> 'k list \<times> 'p"
  mutation_queues :: "'p \<Rightarrow> ('k \<Rightarrow> bool) list"
  target_cache_bytes :: "'p \<Rightarrow> int"
  remote_document_bytes :: "'p \<Rightarrow> int"
  mutation_queue_bytes :: "'p \<Rightarrow> int list"

text \<open>\<open>sequence_numbers\<close> is the hash map in its iteration order.\<close>

record ('p, 'k) delegate =
  store :: 'p
  sequence_numbers :: "('k \<times> int) list"
  additional_references :: "('k \<Rightarrow> bool) option"
  dl_current :: int


definition current_sequence_number :: "('p, 'k) delegate \<Rightarrow> int result" where
  "current_sequence_number d = hard_assert (dl_current d \<noteq> kListenSequenceNumberInvalid) (Inr (dl_current d))"

definition AddInMemoryPins :: "('k \<Rightarrow> bool) \<Rightarrow> ('p, 'k) delegate \<Rightarrow> ('p, 'k) delegate" where
  "AddInMemoryPins refs d = d\<lparr>additional_references := Some refs\<rparr>"

definition RemoveTarget :: "('p, 'k, 't, 'live) persistence \<Rightarrow> 't \<Rightarrow> ('p, 'k) delegate \<Rightarrow> ('p, 'k) delegate" where
  "RemoveTarget api target_data d =
     d\<lparr>store := target_cache_update api (with_sequence_number api target_data (dl_current d)) (store d)\<rparr>"

fun set_sequence :: "'k \<Rightarrow> int \<Rightarrow> ('k \<times> int) list \<Rightarrow> ('k \<times> int) list" where
  "set_sequence k n [] = [(k, n)]"
| "set_sequence k n ((k', n') # xs) = (if k' = k then (k, n) # xs else (k', n') # set_sequence k n xs)"

definition touch :: "'k \<Rightarrow> ('p, 'k) delegate \<Rightarrow> ('p, 'k) delegate" where
  "touch key d = d\<lparr>sequence_numbers := set_sequence key (dl_current d) (sequence_numbers d)\<rparr>"

definition UpdateLimboDocument :: "'k \<Rightarrow> ('p, 'k) delegate \<Rightarrow> ('p, 'k) delegate" where
  "UpdateLimboDocument key d = touch key d"

definition AddReference :: "'k \<Rightarrow> ('p, 'k) delegate \<Rightarrow> ('p, 'k) delegate" where
  "AddReference key d = touch key d"

definition RemoveReference :: "'k \<Rightarrow> ('p, 'k) delegate \<Rightarrow> ('p, 'k) delegate" where
  "RemoveReference key d = touch key d"

definition RemoveMutationReference :: "'k \<Rightarrow> ('p, 'k) delegate \<Rightarrow> ('p, 'k) delegate" where
  "RemoveMutationReference key d = touch key d"

definition OnTransactionStarted :: "('p, 'k, 't, 'live) persistence \<Rightarrow> ('p, 'k) delegate \<Rightarrow> ('p, 'k) delegate" where
  "OnTransactionStarted api d =
     (let (n, p) = next_listen_sequence api (store d) in d\<lparr>dl_current := n, store := p\<rparr>)"

definition OnTransactionCommitted :: "('p, 'k) delegate \<Rightarrow> ('p, 'k) delegate" where
  "OnTransactionCommitted d = d\<lparr>dl_current := kListenSequenceNumberInvalid\<rparr>"








definition Delegate_CalculateByteSize :: "('p, 'k, 't, 'live) persistence \<Rightarrow> ('p, 'k) delegate \<Rightarrow> int" where
  "Delegate_CalculateByteSize api d =
     fold (\<lambda>bytes count. count + bytes) (mutation_queue_bytes api (store d))
       (target_cache_bytes api (store d) + remote_document_bytes api (store d))"

section \<open>The collector\<close>





record lru_params =
  min_bytes_threshold :: int
  percentile_to_collect :: int
  maximum_sequence_numbers_to_collect :: int

definition CacheSizeUnlimited :: int where "CacheSizeUnlimited = -1"

definition LruParams_Default :: lru_params where
  "LruParams_Default = \<lparr>min_bytes_threshold = 100 * 1024 * 1024, percentile_to_collect = 10, maximum_sequence_numbers_to_collect = 1000\<rparr>"

definition LruParams_Disabled :: lru_params where
  "LruParams_Disabled = \<lparr>min_bytes_threshold = CacheSizeUnlimited, percentile_to_collect = 0, maximum_sequence_numbers_to_collect = 0\<rparr>"

definition WithCacheSize :: "int \<Rightarrow> lru_params" where
  "WithCacheSize cache_size = LruParams_Default\<lparr>min_bytes_threshold := cache_size\<rparr>"







section \<open>The buffer keeps the smallest numbers\<close>









section \<open>What a collection removes\<close>














end
