(* ===== verification/Lru_Cache.thy ===== *)
theory Lru_Cache
  imports Prelude
begin

text \<open>
  The block and table cache of leveldb (\<open>util/cache.cc\<close>), pointer by pointer: the handles, the hash table with
  its chains, the two circular lists and the sharded front.

  A handle is an address; 0 is the null pointer, 1 and 2 are the dummy heads \<open>lru_\<close> and \<open>in_use_\<close>. Each
  pointer field is a function from addresses, the other fields of a handle are a record, which \<open>free\<close> removes.
  \<open>None\<close> stands for a failed assertion or an access to memory that is not there. The deleter's calls are
  recorded. Charges and sizes are 64-bit words; the 32-bit counters are numbers whose increments wrap around.
  The address a handle of the sharded cache points to is the pair of its shard and its address there. The hash
  function \<open>Hash\<close> is not part of the sources and is a parameter.
\<close>

unbundle bit_operations_syntax

type_synonym addr = nat

definition lru_head :: addr where "lru_head = 1"
definition in_use_head :: addr where "in_use_head = 2"

text \<open>\<open>++\<close>, \<open>--\<close> and \<open>*= 2\<close> on a \<open>uint32_t\<close>.\<close>

definition inc32 :: "nat \<Rightarrow> nat" where "inc32 n = (n + 1) mod 2 ^ 32"
definition dec32 :: "nat \<Rightarrow> nat" where "dec32 n = (n + (2 ^ 32 - 1)) mod 2 ^ 32"
definition dbl32 :: "nat \<Rightarrow> nat" where "dbl32 n = (n * 2) mod 2 ^ 32"

record ('k, 'v) lru_handle =
  h_value :: 'v
  h_charge :: "64 word"
  h_key :: 'k
  in_cache :: bool
  refs :: nat
  h_hash :: "32 word"

record ('k, 'v) lru_cache =
  capacity :: "64 word"
  usage :: "64 word"
  handles :: "addr \<Rightarrow> ('k, 'v) lru_handle option"
  next_ptr :: "addr \<Rightarrow> addr"
  prev_ptr :: "addr \<Rightarrow> addr"
  next_hash :: "addr \<Rightarrow> addr"
  fresh :: addr
  tb_length :: nat
  tb_elems :: nat
  tb_list :: "addr list"
  deleted :: "('k \<times> 'v) list"

definition valid_ptr :: "('k, 'v) lru_cache \<Rightarrow> addr \<Rightarrow> bool" where
  "valid_ptr c a \<longleftrightarrow> a = lru_head \<or> a = in_use_head \<or> handles c a \<noteq> None"

definition upd_handle ::
    "addr \<Rightarrow> (('k, 'v) lru_handle \<Rightarrow> ('k, 'v) lru_handle) \<Rightarrow> ('k, 'v) lru_cache \<Rightarrow> ('k, 'v) lru_cache option" where
  "upd_handle a f c = do { h \<leftarrow> handles c a; Some (c\<lparr>handles := (handles c)(a \<mapsto> f h)\<rparr>) }"

definition handle_key :: "addr \<Rightarrow> ('k, 'v) lru_cache \<Rightarrow> 'k option" where
  "handle_key a c = do { h \<leftarrow> handles c a; if next_ptr c a \<noteq> a then Some (h_key h) else None }"

section \<open>The hash table\<close>

text \<open>A \<open>LRUHandle**\<close> points to a bucket or to the \<open>next_hash\<close> field of a handle.\<close>

datatype slot = Bucket nat | Next_hash addr

definition read_slot :: "slot \<Rightarrow> ('k, 'v) lru_cache \<Rightarrow> addr option" where
  "read_slot s c =
     (case s of
        Bucket i \<Rightarrow> if i < length (tb_list c) then Some (tb_list c ! i) else None
      | Next_hash a \<Rightarrow> if handles c a \<noteq> None then Some (next_hash c a) else None)"

definition write_slot :: "slot \<Rightarrow> addr \<Rightarrow> ('k, 'v) lru_cache \<Rightarrow> ('k, 'v) lru_cache option" where
  "write_slot s v c =
     (case s of
        Bucket i \<Rightarrow> if i < length (tb_list c) then Some (c\<lparr>tb_list := (tb_list c)[i := v]\<rparr>) else None
      | Next_hash a \<Rightarrow> if handles c a \<noteq> None then Some (c\<lparr>next_hash := (next_hash c)(a := v)\<rparr>) else None)"

definition bucket_index :: "32 word \<Rightarrow> nat \<Rightarrow> nat" where
  "bucket_index hash len = unat (hash AND of_nat (len - 1))"

partial_function (option) find_slot :: "'k \<Rightarrow> 32 word \<Rightarrow> slot \<Rightarrow> ('k, 'v) lru_cache \<Rightarrow> slot option" where
  "find_slot key hash ptr c =
     do { a \<leftarrow> read_slot ptr c;
          if a = 0 then Some ptr
          else do { h \<leftarrow> handles c a;
                    if h_hash h \<noteq> hash then find_slot key hash (Next_hash a) c
                    else do { k \<leftarrow> handle_key a c;
                              if key \<noteq> k then find_slot key hash (Next_hash a) c else Some ptr } } }"

definition FindPointer :: "'k \<Rightarrow> 32 word \<Rightarrow> ('k, 'v) lru_cache \<Rightarrow> slot option" where
  "FindPointer key hash c = find_slot key hash (Bucket (bucket_index hash (tb_length c))) c"

partial_function (option) grow_length :: "nat \<Rightarrow> nat \<Rightarrow> nat option" where
  "grow_length elems new_length = (if new_length < elems then grow_length elems (dbl32 new_length) else Some new_length)"

text \<open>The inner and the outer loop of \<open>Resize\<close>; \<open>ls\<close> is the new bucket array, \<open>n\<close> the count.\<close>

partial_function (option) rehash_chain ::
    "nat \<Rightarrow> addr \<Rightarrow> addr list \<Rightarrow> nat \<Rightarrow> ('k, 'v) lru_cache \<Rightarrow> (addr list \<times> nat \<times> ('k, 'v) lru_cache) option" where
  "rehash_chain new_length h ls n c =
     (if h = 0 then Some (ls, n, c)
      else do { hd \<leftarrow> handles c h;
                let nxt = next_hash c h;
                let i = bucket_index (h_hash hd) new_length;
                if i < length ls
                then rehash_chain new_length nxt (ls[i := h]) (inc32 n) (c\<lparr>next_hash := (next_hash c)(h := ls ! i)\<rparr>)
                else None })"

fun rehash_buckets ::
    "nat \<Rightarrow> addr list \<Rightarrow> addr list \<Rightarrow> nat \<Rightarrow> ('k, 'v) lru_cache \<Rightarrow> (addr list \<times> nat \<times> ('k, 'v) lru_cache) option" where
  "rehash_buckets new_length [] ls n c = Some (ls, n, c)"
| "rehash_buckets new_length (h # hs) ls n c =
     do { (ls, n, c) \<leftarrow> rehash_chain new_length h ls n c; rehash_buckets new_length hs ls n c }"

definition Resize :: "('k, 'v) lru_cache \<Rightarrow> ('k, 'v) lru_cache option" where
  "Resize c =
     do { new_length \<leftarrow> grow_length (tb_elems c) 4;
          (new_list, count, c) \<leftarrow> rehash_buckets new_length (take (tb_length c) (tb_list c)) (replicate new_length 0) 0 c;
          if tb_elems c = count then Some (c\<lparr>tb_list := new_list, tb_length := new_length\<rparr>) else None }"

definition Table_Lookup :: "'k \<Rightarrow> 32 word \<Rightarrow> ('k, 'v) lru_cache \<Rightarrow> addr option" where
  "Table_Lookup key hash c = do { ptr \<leftarrow> FindPointer key hash c; read_slot ptr c }"

definition Table_Insert :: "addr \<Rightarrow> ('k, 'v) lru_cache \<Rightarrow> (addr \<times> ('k, 'v) lru_cache) option" where
  "Table_Insert a c =
     do { k \<leftarrow> handle_key a c;
          h \<leftarrow> handles c a;
          ptr \<leftarrow> FindPointer k (h_hash h) c;
          old \<leftarrow> read_slot ptr c;
          let c = c\<lparr>next_hash := (next_hash c)(a := (if old = 0 then 0 else next_hash c old))\<rparr>;
          c \<leftarrow> write_slot ptr a c;
          if old = 0
          then let c = c\<lparr>tb_elems := inc32 (tb_elems c)\<rparr>
               in if tb_elems c > tb_length c then do { c \<leftarrow> Resize c; Some (old, c) } else Some (old, c)
          else Some (old, c) }"

definition Table_Remove :: "'k \<Rightarrow> 32 word \<Rightarrow> ('k, 'v) lru_cache \<Rightarrow> (addr \<times> ('k, 'v) lru_cache) option" where
  "Table_Remove key hash c =
     do { ptr \<leftarrow> FindPointer key hash c;
          r \<leftarrow> read_slot ptr c;
          if r \<noteq> 0
          then do { c \<leftarrow> write_slot ptr (next_hash c r) c; Some (r, c\<lparr>tb_elems := dec32 (tb_elems c)\<rparr>) }
          else Some (r, c) }"

section \<open>The lists and the references\<close>

definition LRU_Remove :: "addr \<Rightarrow> ('k, 'v) lru_cache \<Rightarrow> ('k, 'v) lru_cache option" where
  "LRU_Remove e c =
     (if valid_ptr c e \<and> valid_ptr c (next_ptr c e) \<and> valid_ptr c (prev_ptr c e)
      then let c = c\<lparr>prev_ptr := (prev_ptr c)(next_ptr c e := prev_ptr c e)\<rparr>
           in Some (c\<lparr>next_ptr := (next_ptr c)(prev_ptr c e := next_ptr c e)\<rparr>)
      else None)"

definition LRU_Append :: "addr \<Rightarrow> addr \<Rightarrow> ('k, 'v) lru_cache \<Rightarrow> ('k, 'v) lru_cache option" where
  "LRU_Append l e c =
     (if valid_ptr c l \<and> valid_ptr c e \<and> valid_ptr c (prev_ptr c l)
      then let c = c\<lparr>next_ptr := (next_ptr c)(e := l)\<rparr>;
               c = c\<lparr>prev_ptr := (prev_ptr c)(e := prev_ptr c l)\<rparr>;
               c = c\<lparr>next_ptr := (next_ptr c)(prev_ptr c e := e)\<rparr>
           in Some (c\<lparr>prev_ptr := (prev_ptr c)(next_ptr c e := e)\<rparr>)
      else None)"

definition Ref :: "addr \<Rightarrow> ('k, 'v) lru_cache \<Rightarrow> ('k, 'v) lru_cache option" where
  "Ref e c =
     do { h \<leftarrow> handles c e;
          c \<leftarrow> (if refs h = 1 \<and> in_cache h then do { c \<leftarrow> LRU_Remove e c; LRU_Append in_use_head e c } else Some c);
          upd_handle e (\<lambda>h. h\<lparr>refs := inc32 (refs h)\<rparr>) c }"

definition Unref :: "addr \<Rightarrow> ('k, 'v) lru_cache \<Rightarrow> ('k, 'v) lru_cache option" where
  "Unref e c =
     do { h \<leftarrow> handles c e;
          if refs h > 0
          then do { c \<leftarrow> upd_handle e (\<lambda>h. h\<lparr>refs := dec32 (refs h)\<rparr>) c;
                    if dec32 (refs h) = 0
                    then if in_cache h then None
                         else do { k \<leftarrow> handle_key e c;
                                   Some (c\<lparr>deleted := (k, h_value h) # deleted c, handles := (handles c)(e := None)\<rparr>) }
                    else if in_cache h \<and> dec32 (refs h) = 1
                    then do { c \<leftarrow> LRU_Remove e c; LRU_Append lru_head e c }
                    else Some c }
          else None }"

definition FinishErase :: "addr \<Rightarrow> ('k, 'v) lru_cache \<Rightarrow> (bool \<times> ('k, 'v) lru_cache) option" where
  "FinishErase e c =
     (if e \<noteq> 0
      then do { h \<leftarrow> handles c e;
                if in_cache h
                then do { c \<leftarrow> LRU_Remove e c;
                          c \<leftarrow> upd_handle e (\<lambda>h. h\<lparr>in_cache := False\<rparr>) c;
                          c \<leftarrow> Unref e (c\<lparr>usage := usage c - h_charge h\<rparr>);
                          Some (True, c) }
                else None }
      else Some (False, c))"

section \<open>The operations of a shard\<close>

definition LRUCache :: "('k, 'v) lru_cache option" where
  "LRUCache =
     Resize \<lparr>capacity = 0, usage = 0, handles = (\<lambda>_. None), next_ptr = id, prev_ptr = id, next_hash = (\<lambda>_. 0), fresh = 3,
       tb_length = 0, tb_elems = 0, tb_list = [], deleted = []\<rparr>"

definition SetCapacity :: "64 word \<Rightarrow> ('k, 'v) lru_cache \<Rightarrow> ('k, 'v) lru_cache" where
  "SetCapacity n c = c\<lparr>capacity := n\<rparr>"

definition Cache_Lookup :: "'k \<Rightarrow> 32 word \<Rightarrow> ('k, 'v) lru_cache \<Rightarrow> (addr \<times> ('k, 'v) lru_cache) option" where
  "Cache_Lookup key hash c =
     do { e \<leftarrow> Table_Lookup key hash c;
          c \<leftarrow> (if e \<noteq> 0 then Ref e c else Some c);
          Some (e, c) }"

definition Cache_Release :: "addr \<Rightarrow> ('k, 'v) lru_cache \<Rightarrow> ('k, 'v) lru_cache option" where
  "Cache_Release handle c = Unref handle c"

text \<open>\<open>old\<close> is the oldest entry of the \<open>lru_\<close> list; both loops erase it.\<close>

definition erase_oldest :: "('k, 'v) lru_cache \<Rightarrow> ('k, 'v) lru_cache option" where
  "erase_oldest c =
     do { let old = next_ptr c lru_head;
          h \<leftarrow> handles c old;
          if refs h = 1
          then do { k \<leftarrow> handle_key old c;
                    (r, c) \<leftarrow> Table_Remove k (h_hash h) c;
                    (erased, c) \<leftarrow> FinishErase r c;
                    if erased then Some c else None }
          else None }"

partial_function (option) evict_loop :: "('k, 'v) lru_cache \<Rightarrow> ('k, 'v) lru_cache option" where
  "evict_loop c =
     (if usage c > capacity c \<and> next_ptr c lru_head \<noteq> lru_head
      then do { c \<leftarrow> erase_oldest c; evict_loop c }
      else Some c)"

definition Cache_Insert ::
    "'k \<Rightarrow> 32 word \<Rightarrow> 'v \<Rightarrow> 64 word \<Rightarrow> ('k, 'v) lru_cache \<Rightarrow> (addr \<times> ('k, 'v) lru_cache) option" where
  "Cache_Insert key hash val chg c =
     (let e = fresh c;
          c = c\<lparr>fresh := fresh c + 1, handles := (handles c)(e \<mapsto>
            \<lparr>h_value = val, h_charge = chg, h_key = key, in_cache = False, refs = 1, h_hash = hash\<rparr>)\<rparr>
      in do { c \<leftarrow> (if capacity c > 0
                then do { c \<leftarrow> upd_handle e (\<lambda>h. h\<lparr>refs := inc32 (refs h), in_cache := True\<rparr>) c;
                          c \<leftarrow> LRU_Append in_use_head e c;
                          (old, c) \<leftarrow> Table_Insert e (c\<lparr>usage := usage c + chg\<rparr>);
                          (_, c) \<leftarrow> FinishErase old c;
                          Some c }
                else Some (c\<lparr>next_ptr := (next_ptr c)(e := 0)\<rparr>));
              c \<leftarrow> evict_loop c;
              Some (e, c) })"

definition Cache_Erase :: "'k \<Rightarrow> 32 word \<Rightarrow> ('k, 'v) lru_cache \<Rightarrow> ('k, 'v) lru_cache option" where
  "Cache_Erase key hash c =
     do { (r, c) \<leftarrow> Table_Remove key hash c; (_, c) \<leftarrow> FinishErase r c; Some c }"

partial_function (option) Prune_loop :: "('k, 'v) lru_cache \<Rightarrow> ('k, 'v) lru_cache option" where
  "Prune_loop c =
     (if next_ptr c lru_head \<noteq> lru_head then do { c \<leftarrow> erase_oldest c; Prune_loop c } else Some c)"

definition Cache_Prune :: "('k, 'v) lru_cache \<Rightarrow> ('k, 'v) lru_cache option" where
  "Cache_Prune c = Prune_loop c"

definition TotalCharge :: "('k, 'v) lru_cache \<Rightarrow> 64 word" where
  "TotalCharge c = usage c"

text \<open>The loop of the destructor; \<open>e->next\<close> is read before \<open>e\<close> is freed.\<close>

partial_function (option) destroy_loop :: "addr \<Rightarrow> ('k, 'v) lru_cache \<Rightarrow> ('k, 'v) lru_cache option" where
  "destroy_loop e c =
     (if e \<noteq> lru_head
      then do { h \<leftarrow> handles c e;
                let nxt = next_ptr c e;
                if in_cache h
                then do { c \<leftarrow> upd_handle e (\<lambda>h. h\<lparr>in_cache := False\<rparr>) c;
                          if refs h = 1 then do { c \<leftarrow> Unref e c; destroy_loop nxt c } else None }
                else None }
      else Some c)"

definition LRUCache_destroy :: "('k, 'v) lru_cache \<Rightarrow> ('k, 'v) lru_cache option" where
  "LRUCache_destroy c =
     (if next_ptr c in_use_head = in_use_head then destroy_loop (next_ptr c lru_head) c else None)"

declare find_slot.simps [code] grow_length.simps [code] rehash_chain.simps [code]
  evict_loop.simps [code] Prune_loop.simps [code] destroy_loop.simps [code]

section \<open>The sharded cache\<close>

definition kNumShardBits :: nat where "kNumShardBits = 4"
definition kNumShards :: nat where "kNumShards = 2 ^ kNumShardBits"

record ('k, 'v) sharded_cache =
  shards :: "('k, 'v) lru_cache list"
  last_id :: "64 word"

definition HashSlice :: "('k \<Rightarrow> 32 word \<Rightarrow> 32 word) \<Rightarrow> 'k \<Rightarrow> 32 word" where
  "HashSlice Hash s = Hash s 0"

definition Shard :: "32 word \<Rightarrow> nat" where
  "Shard hash = unat (drop_bit (32 - kNumShardBits) hash)"

fun make_shards :: "nat \<Rightarrow> 64 word \<Rightarrow> ('k, 'v) lru_cache list option" where
  "make_shards 0 per_shard = Some []"
| "make_shards (Suc n) per_shard = do { c \<leftarrow> LRUCache; cs \<leftarrow> make_shards n per_shard; Some (SetCapacity per_shard c # cs) }"

definition ShardedLRUCache :: "64 word \<Rightarrow> ('k, 'v) sharded_cache option" where
  "ShardedLRUCache cap =
     (let per_shard = (cap + (of_nat kNumShards - 1)) div of_nat kNumShards
      in do { cs \<leftarrow> make_shards kNumShards per_shard; Some \<lparr>shards = cs, last_id = 0\<rparr> })"

definition on_shard ::
    "nat \<Rightarrow> (('k, 'v) lru_cache \<Rightarrow> ('a \<times> ('k, 'v) lru_cache) option) \<Rightarrow> ('k, 'v) sharded_cache \<Rightarrow> ('a \<times> ('k, 'v) sharded_cache) option" where
  "on_shard i f s =
     (if i < length (shards s)
      then do { (r, c) \<leftarrow> f (shards s ! i); Some (r, s\<lparr>shards := (shards s)[i := c]\<rparr>) }
      else None)"

type_synonym saddr = "nat \<times> addr"

text \<open>A shard's null pointer is the null pointer.\<close>

definition shard_ptr :: "nat \<Rightarrow> addr \<Rightarrow> saddr option" where
  "shard_ptr i a = (if a = 0 then None else Some (i, a))"

definition Sharded_Insert ::
    "('k \<Rightarrow> 32 word \<Rightarrow> 32 word) \<Rightarrow> 'k \<Rightarrow> 'v \<Rightarrow> 64 word \<Rightarrow> ('k, 'v) sharded_cache
     \<Rightarrow> (saddr option \<times> ('k, 'v) sharded_cache) option" where
  "Sharded_Insert Hash key val chg s =
     (let hash = HashSlice Hash key
      in do { (a, s) \<leftarrow> on_shard (Shard hash) (Cache_Insert key hash val chg) s; Some (shard_ptr (Shard hash) a, s) })"

definition Sharded_Lookup ::
    "('k \<Rightarrow> 32 word \<Rightarrow> 32 word) \<Rightarrow> 'k \<Rightarrow> ('k, 'v) sharded_cache \<Rightarrow> (saddr option \<times> ('k, 'v) sharded_cache) option" where
  "Sharded_Lookup Hash key s =
     (let hash = HashSlice Hash key
      in do { (a, s) \<leftarrow> on_shard (Shard hash) (Cache_Lookup key hash) s; Some (shard_ptr (Shard hash) a, s) })"

definition get_handle :: "saddr \<Rightarrow> ('k, 'v) sharded_cache \<Rightarrow> ('k, 'v) lru_handle option" where
  "get_handle p s = (if fst p < length (shards s) then handles (shards s ! fst p) (snd p) else None)"

definition Sharded_Release :: "saddr \<Rightarrow> ('k, 'v) sharded_cache \<Rightarrow> (unit \<times> ('k, 'v) sharded_cache) option" where
  "Sharded_Release p s =
     do { h \<leftarrow> get_handle p s;
          on_shard (Shard (h_hash h)) (\<lambda>c. do { c \<leftarrow> Cache_Release (snd p) c; Some ((), c) }) s }"

definition Sharded_Erase ::
    "('k \<Rightarrow> 32 word \<Rightarrow> 32 word) \<Rightarrow> 'k \<Rightarrow> ('k, 'v) sharded_cache \<Rightarrow> (unit \<times> ('k, 'v) sharded_cache) option" where
  "Sharded_Erase Hash key s =
     (let hash = HashSlice Hash key
      in on_shard (Shard hash) (\<lambda>c. do { c \<leftarrow> Cache_Erase key hash c; Some ((), c) }) s)"

definition Sharded_Value :: "saddr \<Rightarrow> ('k, 'v) sharded_cache \<Rightarrow> 'v option" where
  "Sharded_Value p s = do { h \<leftarrow> get_handle p s; Some (h_value h) }"

definition NewId :: "('k, 'v) sharded_cache \<Rightarrow> 64 word \<times> ('k, 'v) sharded_cache" where
  "NewId s = (last_id s + 1, s\<lparr>last_id := last_id s + 1\<rparr>)"

fun prune_shards :: "('k, 'v) lru_cache list \<Rightarrow> ('k, 'v) lru_cache list option" where
  "prune_shards [] = Some []"
| "prune_shards (c # cs) = do { c \<leftarrow> Cache_Prune c; cs \<leftarrow> prune_shards cs; Some (c # cs) }"

definition Sharded_Prune :: "('k, 'v) sharded_cache \<Rightarrow> ('k, 'v) sharded_cache option" where
  "Sharded_Prune s = do { cs \<leftarrow> prune_shards (shards s); Some (s\<lparr>shards := cs\<rparr>) }"

definition Sharded_TotalCharge :: "('k, 'v) sharded_cache \<Rightarrow> 64 word" where
  "Sharded_TotalCharge s = fold (\<lambda>c total. total + TotalCharge c) (shards s) 0"

text \<open>The destructor's body is empty; the shards are destroyed as members, the last one first.\<close>

fun destroy_shards :: "('k, 'v) lru_cache list \<Rightarrow> ('k, 'v) lru_cache list option" where
  "destroy_shards [] = Some []"
| "destroy_shards (c # cs) = do { cs \<leftarrow> destroy_shards cs; c \<leftarrow> LRUCache_destroy c; Some (c # cs) }"

definition Sharded_destroy :: "('k, 'v) sharded_cache \<Rightarrow> ('k, 'v) sharded_cache option" where
  "Sharded_destroy s = do { cs \<leftarrow> destroy_shards (shards s); Some (s\<lparr>shards := cs\<rparr>) }"

definition NewLRUCache :: "64 word \<Rightarrow> ('k, 'v) sharded_cache option" where
  "NewLRUCache cap = ShardedLRUCache cap"

end
