(* ===== verification/Linked.thy ===== *)
theory Linked
  imports Prelude
begin

text \<open>
  Linked structures over pointer fields that are functions from addresses: singly linked chains that end in the
  null pointer 0, and circular doubly linked lists through a head.
\<close>

section \<open>Chains\<close>

fun chain :: "(nat \<Rightarrow> nat) \<Rightarrow> nat \<Rightarrow> nat list \<Rightarrow> bool" where
  "chain nx p [] \<longleftrightarrow> p = 0"
| "chain nx p (x # xs) \<longleftrightarrow> p = x \<and> x \<noteq> 0 \<and> chain nx (nx x) xs"

lemma chain_null [simp]: "chain nx 0 xs \<longleftrightarrow> xs = []"
  by (cases xs) auto

lemma chain_zero: "chain nx p xs \<Longrightarrow> 0 \<notin> set xs"
  by (induction xs arbitrary: p) auto

lemma chain_start: "chain nx p xs \<Longrightarrow> p = (case xs of [] \<Rightarrow> 0 | x # _ \<Rightarrow> x)"
  by (cases xs) auto

lemma chain_unique: "chain nx p xs \<Longrightarrow> chain nx p ys \<Longrightarrow> xs = ys"
proof (induction xs arbitrary: p ys)
  case (Cons x xs)
  then show ?case by (cases ys) auto
qed simp

lemma chain_from: "chain nx p (xs @ y # ys) \<Longrightarrow> chain nx y (y # ys)"
  by (induction xs arbitrary: p) auto

lemma chain_distinct: "chain nx p xs \<Longrightarrow> distinct xs"
proof (induction xs arbitrary: p)
  case (Cons x xs)
  have "x \<notin> set xs"
  proof
    assume "x \<in> set xs"
    then obtain as bs where xs: "xs = as @ x # bs" by (auto dest: split_list)
    have "chain nx x (x # xs)" "chain nx x (x # bs)"
      using Cons.prems chain_from [of nx "nx x" as x bs] by (auto simp: xs)
    then have "x # xs = x # bs" by (rule chain_unique)
    then have "length xs = length bs" by simp
    then show False by (simp add: xs)
  qed
  with Cons show ?case by auto
qed simp

lemma chain_frame: "(\<And>x. x \<in> set xs \<Longrightarrow> nx' x = nx x) \<Longrightarrow> chain nx' p xs = chain nx p xs"
  by (induction xs arbitrary: p) auto

lemma chain_upd [simp]: "a \<notin> set xs \<Longrightarrow> chain (nx(a := v)) p xs = chain nx p xs"
  by (rule chain_frame) auto

lemma chain_redirect:
  assumes "chain nx p (xs @ [x] @ ys)" and "chain nx v zs" and "x \<notin> set zs"
  shows "chain (nx(x := v)) p (xs @ [x] @ zs)"
  using assms
proof (induction xs arbitrary: p)
  case (Cons y xs)
  then have "y \<noteq> x" using chain_distinct [OF Cons.prems(1)] by auto
  with Cons show ?case by auto
qed simp

lemma chain_prefix_next: "chain nx p (xs @ [x] @ ys) \<Longrightarrow> chain nx (nx x) ys"
  by (induction xs arbitrary: p) auto

section \<open>Rings\<close>

fun links :: "(nat \<Rightarrow> nat) \<Rightarrow> (nat \<Rightarrow> nat) \<Rightarrow> nat list \<Rightarrow> bool" where
  "links nx pv (a # b # r) \<longleftrightarrow> nx a = b \<and> pv b = a \<and> links nx pv (b # r)"
| "links nx pv _ \<longleftrightarrow> True"

declare links.simps [simp del]

lemma links_single [simp]: "links nx pv [a]"
  by (simp add: links.simps)

lemma links_Cons: "bs \<noteq> [] \<Longrightarrow> links nx pv (a # bs) \<longleftrightarrow> nx a = hd bs \<and> pv (hd bs) = a \<and> links nx pv bs"
  by (cases bs) (simp_all add: links.simps)

lemma links_append:
  "as \<noteq> [] \<Longrightarrow> bs \<noteq> [] \<Longrightarrow>
   links nx pv (as @ bs) \<longleftrightarrow> links nx pv as \<and> nx (last as) = hd bs \<and> pv (hd bs) = last as \<and> links nx pv bs"
proof (induction as)
  case (Cons a as)
  show ?case
  proof (cases "as = []")
    case True
    with Cons.prems show ?thesis by (simp add: links_Cons)
  next
    case False
    with Cons.IH [OF False Cons.prems(2)] Cons.prems show ?thesis by (simp add: links_Cons)
  qed
qed simp

lemma links_frame:
  "(\<And>a. a \<in> set (butlast zs) \<Longrightarrow> nx' a = nx a) \<Longrightarrow> (\<And>a. a \<in> set (tl zs) \<Longrightarrow> pv' a = pv a) \<Longrightarrow>
   links nx' pv' zs = links nx pv zs"
proof (induction zs)
  case (Cons a zs)
  show ?case
  proof (cases "zs = []")
    case False
    then have "links nx' pv' zs = links nx pv zs"
      by (intro Cons.IH) (use Cons.prems in \<open>auto dest: list.set_sel(2)\<close>)
    with False Cons.prems show ?thesis by (simp add: links_Cons)
  qed simp
qed (simp add: links.simps)

lemma last_notin_butlast: "distinct xs \<Longrightarrow> xs \<noteq> [] \<Longrightarrow> last xs \<notin> set (butlast xs)"
  by (induction xs) auto

definition ring :: "(nat \<Rightarrow> nat) \<Rightarrow> (nat \<Rightarrow> nat) \<Rightarrow> nat \<Rightarrow> nat list \<Rightarrow> bool" where
  "ring nx pv h xs \<longleftrightarrow> distinct (h # xs) \<and> links nx pv (h # xs @ [h])"

lemma ring_empty [simp]: "ring nx pv h [] \<longleftrightarrow> nx h = h \<and> pv h = h"
  by (auto simp: ring_def links_Cons)

lemma ring_distinct: "ring nx pv h xs \<Longrightarrow> distinct (h # xs)"
  by (simp add: ring_def)

lemma ring_first: "ring nx pv h xs \<Longrightarrow> nx h = hd (xs @ [h])"
  by (cases xs) (simp_all add: ring_def links_Cons)

lemma ring_last: "ring nx pv h xs \<Longrightarrow> pv h = last (h # xs)"
  using links_append [of "h # xs" "[h]" nx pv] by (simp add: ring_def)

lemma ring_is_empty: "ring nx pv h xs \<Longrightarrow> nx h = h \<longleftrightarrow> xs = []"
  using ring_first [of nx pv h xs] ring_distinct [of nx pv h xs] by (cases xs) auto

lemma ring_frame:
  "(\<And>a. a \<in> set (h # xs) \<Longrightarrow> nx' a = nx a) \<Longrightarrow> (\<And>a. a \<in> set (h # xs) \<Longrightarrow> pv' a = pv a) \<Longrightarrow>
   ring nx' pv' h xs = ring nx pv h xs"
  unfolding ring_def by (subst links_frame [of _ nx' nx pv' pv]) (auto simp: butlast_append split: if_splits)

lemma ring_decomp:
  assumes "ring nx pv h (as @ e # bs)"
  shows "nx e = hd (bs @ [h])" "pv e = last (h # as)"
    "links nx pv (h # as)" "links nx pv (bs @ [h])" "distinct (h # as @ e # bs)"
  using assms links_append [of "h # as" "e # bs @ [h]" nx pv] links_append [of "[e]" "bs @ [h]" nx pv]
  by (simp_all add: ring_def)

lemma ring_neighbours:
  assumes "ring nx pv h xs" and "e \<in> set xs"
  shows "nx e \<in> set (h # xs)" "pv e \<in> set (h # xs)" "nx e \<noteq> e" "pv e \<noteq> e"
proof -
  from \<open>e \<in> set xs\<close> obtain as bs where xs: "xs = as @ e # bs" by (auto dest: split_list)
  note d = ring_decomp [OF assms(1) [unfolded xs]]
  show "nx e \<in> set (h # xs)" using d(1) by (cases bs) (auto simp: xs)
  show "pv e \<in> set (h # xs)" using d(2) last_in_set [of as] by (auto simp: xs)
  show "nx e \<noteq> e" using d(1,5) by (cases bs) auto
  show "pv e \<noteq> e" using d(2,5) last_in_set [of as] by (auto split: if_splits)
qed

text \<open>Unlinking a node, and linking one in front of the head.\<close>

lemma ring_remove:
  assumes r: "ring nx pv h (as @ e # bs)"
  shows "ring (nx(pv e := nx e)) (pv(nx e := pv e)) h (as @ bs)"
proof -
  note d = ring_decomp [OF r]
  let ?p = "last (h # as)" and ?n = "hd (bs @ [h])"
  have p: "?p \<notin> set bs" "?p \<notin> set (butlast (h # as))"
    using d(5) last_in_set [of as] last_notin_butlast [of "h # as"] by (auto simp: disjoint_iff split: if_splits)
  have n: "?n \<notin> set as" "?n \<notin> set (tl (bs @ [h]))" using d(5) by (cases bs; auto)+
  have "links (nx(?p := ?n)) (pv(?n := ?p)) (h # as) = links nx pv (h # as)"
    by (rule links_frame) (use p n in auto)
  moreover have "links (nx(?p := ?n)) (pv(?n := ?p)) (bs @ [h]) = links nx pv (bs @ [h])"
    by (rule links_frame) (use p n in auto)
  ultimately show ?thesis
    using d links_append [of "h # as" "bs @ [h]" "nx(?p := ?n)" "pv(?n := ?p)"] by (simp add: ring_def)
qed

lemma ring_snoc:
  assumes r: "ring nx pv h xs" and e: "e \<notin> set (h # xs)"
  shows "ring (nx(e := h, pv h := e)) (pv(e := pv h, h := e)) h (xs @ [e])"
proof -
  let ?p = "last (h # xs)"
  have p: "pv h = ?p" by (rule ring_last [OF r])
  have d: "distinct (h # xs)" by (rule ring_distinct [OF r])
  have pe: "?p \<noteq> e" using e last_in_set [of xs] by (auto split: if_splits)
  have pb: "?p \<notin> set (butlast (h # xs))"
    using d last_notin_butlast [of "h # xs"] by simp
  have "links (nx(e := h, ?p := e)) (pv(e := ?p, h := e)) (h # xs) = links nx pv (h # xs)"
    by (rule links_frame) (use pb e d in \<open>auto dest: in_set_butlastD split: if_splits\<close>)
  moreover have "links nx pv (h # xs)"
    using r links_append [of "h # xs" "[h]" nx pv] by (simp add: ring_def)
  ultimately show ?thesis
    using e d pe links_append [of "h # xs" "[e, h]" "nx(e := h, ?p := e)" "pv(e := ?p, h := e)"]
    by (auto simp: ring_def p links_Cons)
qed

end
