(* ===== verification/Lru_Cache_Table.thy ===== *)
theory Lru_Cache_Table
  imports Lru_Cache Linked
begin

text \<open>
  The hash table of the cache: its buckets are chains of handles, each handle in the bucket its hash selects. A
  search ends at the slot of the handle with the key or at the end of the chain; insertion, removal and
  resizing change the set of handles as they should and nothing outside the table.
\<close>

section \<open>Counters and indices\<close>

lemma inc32_small [simp]: "n + 1 < 2 ^ 32 \<Longrightarrow> inc32 n = n + 1"
  by (simp add: inc32_def)

lemma dec32_small [simp]: "0 < n \<Longrightarrow> n < 2 ^ 32 \<Longrightarrow> dec32 n = n - 1"
  by (cases n) (simp_all add: dec32_def)

lemma grow_length_power:
  assumes "e \<le> 2 ^ 31" and "k \<le> 31"
  shows "\<exists>m\<le>31. grow_length e (2 ^ k) = Some (2 ^ m) \<and> e \<le> 2 ^ m"
  using assms(2)
proof (induction "31 - k" arbitrary: k)
  case 0
  then have "k = 31" by simp
  with assms(1) show ?case by (subst grow_length.simps) auto
next
  case (Suc d)
  show ?case
  proof (cases "2 ^ k < e")
    case True
    have "(2::nat) ^ Suc k \<le> 2 ^ 31" using Suc by (intro power_increasing) auto
    then have "dbl32 (2 ^ k) = 2 ^ Suc k" by (simp add: dbl32_def)
    with True Suc.hyps(1) [of "Suc k"] Suc.hyps(2) show ?thesis by (subst grow_length.simps) auto
  next
    case False
    with Suc.prems show ?thesis by (subst grow_length.simps) auto
  qed
qed

lemma bucket_index_less: "k \<le> 31 \<Longrightarrow> bucket_index hash (2 ^ k) < 2 ^ k"
proof -
  assume "k \<le> 31"
  then have k: "(2::nat) ^ k \<le> 2 ^ 31" by (intro power_increasing) auto
  have "unat (hash AND of_nat (2 ^ k - 1)) \<le> unat (of_nat (2 ^ k - 1) :: 32 word)"
    by (meson unat_mono word_and_le1 word_le_nat_alt)
  also have "\<dots> = 2 ^ k - 1" using k by (simp only: unat_of_nat take_bit_nat_eq_self) simp
  finally show ?thesis unfolding bucket_index_def by (rule le_less_trans) simp
qed

section \<open>Searching a bucket\<close>

definition matches :: "('k, 'v) lru_cache \<Rightarrow> 'k \<Rightarrow> 32 word \<Rightarrow> addr \<Rightarrow> bool" where
  "matches c key hash a \<longleftrightarrow> (\<exists>h. handles c a = Some h \<and> h_hash h = hash \<and> h_key h = key)"

definition handle_ok :: "('k, 'v) lru_cache \<Rightarrow> addr \<Rightarrow> bool" where
  "handle_ok c a \<longleftrightarrow> handles c a \<noteq> None \<and> next_ptr c a \<noteq> a"

definition slot_after :: "slot \<Rightarrow> addr list \<Rightarrow> slot" where
  "slot_after s ys = (if ys = [] then s else Next_hash (last ys))"

lemma slot_after_Nil [simp]: "slot_after s [] = s"
  by (simp add: slot_after_def)

lemma slot_after_Cons [simp]: "slot_after s (y # ys) = slot_after (Next_hash y) ys"
  by (simp add: slot_after_def)

lemma find_slot_chain:
  "read_slot s c = Some p \<Longrightarrow> chain (next_hash c) p xs \<Longrightarrow> (\<And>a. a \<in> set xs \<Longrightarrow> handle_ok c a) \<Longrightarrow>
   find_slot key hash s c = Some (slot_after s (takeWhile (\<lambda>a. \<not> matches c key hash a) xs))"
proof (induction xs arbitrary: s p)
  case Nil
  then show ?case by (subst find_slot.simps) simp
next
  case (Cons x xs)
  from Cons.prems(2) have x: "p = x" "x \<noteq> 0" "chain (next_hash c) (next_hash c x) xs" by auto
  obtain h where h: "handles c x = Some h" "next_ptr c x \<noteq> x"
    using Cons.prems(3) [of x] by (auto simp: handle_ok_def)
  have "find_slot key hash (Next_hash x) c = Some (slot_after (Next_hash x) (takeWhile (\<lambda>a. \<not> matches c key hash a) xs))"
    by (rule Cons.IH) (use x h Cons.prems in \<open>auto simp: read_slot_def\<close>)
  with Cons.prems(1) x h show ?case
    by (subst find_slot.simps) (auto simp: matches_def handle_key_def)
qed

lemma read_slot_after:
  assumes "read_slot s c = Some p" and "chain (next_hash c) p (ys @ zs)" and "\<And>a. a \<in> set ys \<Longrightarrow> handles c a \<noteq> None"
  shows "read_slot (slot_after s ys) c = Some (case zs of [] \<Rightarrow> 0 | z # _ \<Rightarrow> z)"
proof (cases ys rule: rev_cases)
  case Nil
  with assms show ?thesis by (auto dest: chain_start split: list.splits)
next
  case (snoc us u)
  with assms have "chain (next_hash c) (next_hash c u) zs" using chain_prefix_next [of _ p us u zs] by simp
  with snoc assms(3) [of u] show ?thesis
    by (auto simp: slot_after_def read_slot_def dest: chain_start split: list.splits)
qed

section \<open>The table\<close>

definition home :: "('k, 'v) lru_cache \<Rightarrow> nat \<Rightarrow> addr \<Rightarrow> nat option" where
  "home c len a = map_option (\<lambda>h. bucket_index (h_hash h) len) (handles c a)"

definition bucket_chains :: "(addr \<Rightarrow> addr) \<Rightarrow> addr list \<Rightarrow> addr list list \<Rightarrow> bool" where
  "bucket_chains nh ls B \<longleftrightarrow> list_all2 (chain nh) ls B"

definition at_home :: "('k, 'v) lru_cache \<Rightarrow> nat \<Rightarrow> addr list list \<Rightarrow> bool" where
  "at_home c len B \<longleftrightarrow> length B = len \<and> (\<forall>i<len. \<forall>a\<in>set (B ! i). home c len a = Some i)"

definition table_chains :: "('k, 'v) lru_cache \<Rightarrow> addr list list \<Rightarrow> bool" where
  "table_chains c B \<longleftrightarrow> bucket_chains (next_hash c) (tb_list c) B \<and> at_home c (tb_length c) B \<and> tb_elems c = length (concat B)"

definition table_rep :: "('k, 'v) lru_cache \<Rightarrow> addr list list \<Rightarrow> bool" where
  "table_rep c B \<longleftrightarrow> table_chains c B \<and> (\<exists>k\<le>31. tb_length c = 2 ^ k)"

definition same_but_table :: "('k, 'v) lru_cache \<Rightarrow> ('k, 'v) lru_cache \<Rightarrow> bool" where
  "same_but_table c c' \<longleftrightarrow>
     capacity c' = capacity c \<and> usage c' = usage c \<and> handles c' = handles c \<and> next_ptr c' = next_ptr c \<and>
     prev_ptr c' = prev_ptr c \<and> fresh c' = fresh c \<and> deleted c' = deleted c"

lemma in_concat_nth: "a \<in> set (concat B) \<longleftrightarrow> (\<exists>i<length B. a \<in> set (B ! i))"
  by (auto simp: in_set_conv_nth [of _ B] intro: nth_mem)

lemma concat_update:
  assumes "i < length B"
  shows "length (concat (B[i := ys])) + length (B ! i) = length (concat B) + length ys"
    and "set (concat (B[i := ys])) = set ys \<union> (\<Union>j\<in>{..<length B} - {i}. set (B ! j))"
proof -
  show "length (concat (B[i := ys])) + length (B ! i) = length (concat B) + length ys"
    using assms by (subst (2) id_take_nth_drop [OF assms]) (simp add: upd_conv_take_nth_drop)
  show "set (concat (B[i := ys])) = set ys \<union> (\<Union>j\<in>{..<length B} - {i}. set (B ! j))" (is "?L = ?R")
  proof (rule set_eqI)
    fix a
    show "a \<in> ?L \<longleftrightarrow> a \<in> ?R"
      unfolding in_concat_nth using assms by (auto simp: nth_list_update split: if_splits)
  qed
qed

lemma chains_nth: "bucket_chains nh ls B \<longleftrightarrow> length ls = length B \<and> (\<forall>i<length B. chain nh (ls ! i) (B ! i))"
  by (auto simp: bucket_chains_def list_all2_conv_all_nth)

lemma chains_frame: "(\<And>a. a \<in> set (concat B) \<Longrightarrow> nh' a = nh a) \<Longrightarrow> bucket_chains nh' ls B = bucket_chains nh ls B"
  unfolding chains_nth in_concat_nth by (metis chain_frame)

lemma at_home_disjoint: "at_home c len B \<Longrightarrow> i < len \<Longrightarrow> j < len \<Longrightarrow> a \<in> set (B ! i) \<Longrightarrow> a \<in> set (B ! j) \<Longrightarrow> i = j"
  unfolding at_home_def by (metis option.inject)

lemma distinct_concat_nth:
  "(\<And>i. i < length B \<Longrightarrow> distinct (B ! i)) \<Longrightarrow>
   (\<And>i j a. i < length B \<Longrightarrow> j < length B \<Longrightarrow> a \<in> set (B ! i) \<Longrightarrow> a \<in> set (B ! j) \<Longrightarrow> i = j) \<Longrightarrow> distinct (concat B)"
proof (induction B)
  case (Cons x B)
  have "distinct (concat B)"
    using Cons.prems(1) [of "Suc _"] Cons.prems(2) [of "Suc _" "Suc _"] by (intro Cons.IH) force+
  moreover have "a \<notin> set (concat B)" if "a \<in> set x" for a
  proof
    assume "a \<in> set (concat B)"
    then obtain i where "i < length B" "a \<in> set (B ! i)" by (auto simp only: in_concat_nth)
    with that Cons.prems(2) [of 0 "Suc i" a] show False by simp
  qed
  ultimately show ?case using Cons.prems(1) [of 0] by auto
qed simp

lemma table_distinct: "table_chains c B \<Longrightarrow> distinct (concat B)"
proof (rule distinct_concat_nth)
  assume t: "table_chains c B"
  then have l: "length B = tb_length c" by (simp add: table_chains_def at_home_def)
  show "distinct (B ! i)" if "i < length B" for i
    using t that by (auto simp: table_chains_def chains_nth chain_distinct)
  show "i = j" if "i < length B" "j < length B" "a \<in> set (B ! i)" "a \<in> set (B ! j)" for i j a
    using t that l at_home_disjoint [of c "tb_length c" B i j a] by (simp add: table_chains_def)
qed

subsection \<open>Resizing\<close>

definition push :: "(addr \<Rightarrow> nat) \<Rightarrow> addr \<Rightarrow> addr list list \<Rightarrow> addr list list" where
  "push idx x B = B[idx x := x # B ! idx x]"

lemma push_length [simp]: "length (push idx x B) = length B"
  by (simp add: push_def)

lemma push_concat:
  assumes "idx x < length B"
  shows "set (concat (push idx x B)) = insert x (set (concat B))"
    and "length (concat (push idx x B)) = Suc (length (concat B))"
proof -
  have "set (concat (push idx x B)) = insert x (set (B ! idx x) \<union> (\<Union>j\<in>{..<length B} - {idx x}. set (B ! j)))"
    using concat_update(2) [OF assms, of "x # B ! idx x"] by (simp add: push_def)
  also have "set (B ! idx x) \<union> (\<Union>j\<in>{..<length B} - {idx x}. set (B ! j)) = set (concat B)"
    using concat_update(2) [OF assms, of "B ! idx x"] by simp
  finally show "set (concat (push idx x B)) = insert x (set (concat B))" .
  show "length (concat (push idx x B)) = Suc (length (concat B))"
    using concat_update(1) [OF assms, of "x # B ! idx x"] by (simp add: push_def)
qed

lemma fold_push:
  assumes "\<And>x. x \<in> set xs \<Longrightarrow> idx x < length B"
  shows "length (fold (push idx) xs B) = length B"
    and "set (concat (fold (push idx) xs B)) = set xs \<union> set (concat B)"
    and "length (concat (fold (push idx) xs B)) = length xs + length (concat B)"
    and "(\<And>i a. i < length B \<Longrightarrow> a \<in> set (B ! i) \<Longrightarrow> idx a = i) \<Longrightarrow>
         i < length B \<Longrightarrow> a \<in> set (fold (push idx) xs B ! i) \<Longrightarrow> idx a = i"
  using assms
proof (induction xs arbitrary: B)
  case (Cons x xs)
  { case 1 then show ?case using Cons.IH(1) [of "push idx x B"] by simp }
  { case 2 then show ?case using Cons.IH(2) [of "push idx x B"] push_concat(1) [of idx x B] by auto }
  { case 3 then show ?case using Cons.IH(3) [of "push idx x B"] push_concat(2) [of idx x B] by auto }
  { case 4
    have "idx a = i" if "i < length B" "a \<in> set (push idx x B ! i)" for i a
      using that 4(1) 4(4) by (auto simp: push_def nth_list_update split: if_splits)
    then show ?case using Cons.IH(4) [of "push idx x B"] 4 by auto }
qed auto

lemma chains_push:
  assumes "bucket_chains nh ls B" and "x \<notin> set (concat B)" and "x \<noteq> 0" and "idx x < length B"
  shows "bucket_chains (nh(x := ls ! idx x)) (ls[idx x := x]) (push idx x B)"
proof -
  have "x \<notin> set (B ! j)" if "j < length B" for j using assms(2) that by (auto simp only: in_concat_nth)
  with assms show ?thesis by (auto simp: chains_nth push_def nth_list_update)
qed

lemma rehash_chain_push:
  assumes "chain (next_hash c) h xs" and "bucket_chains (next_hash c) ls B" and "set xs \<inter> set (concat B) = {}"
    and "\<And>x. x \<in> set xs \<Longrightarrow> home c len x = Some (idx x) \<and> idx x < length B" and "n + length xs < 2 ^ 32"
  shows "\<exists>ls' nh. rehash_chain len h ls n c = Some (ls', n + length xs, c\<lparr>next_hash := nh\<rparr>) \<and>
    bucket_chains nh ls' (fold (push idx) xs B) \<and> (\<forall>a. a \<notin> set xs \<longrightarrow> nh a = next_hash c a)"
  using assms
proof (induction xs arbitrary: h ls B n c)
  case Nil
  then show ?case by (subst rehash_chain.simps) (auto intro!: exI [of _ "next_hash c"])
next
  case (Cons x xs)
  from Cons.prems(1) have x: "h = x" "x \<noteq> 0" "chain (next_hash c) (next_hash c x) xs" "x \<notin> set xs"
    using chain_distinct [OF Cons.prems(1)] by auto
  from Cons.prems(4) [of x] obtain hd where hd: "handles c x = Some hd" "bucket_index (h_hash hd) len = idx x" "idx x < length B"
    by (auto simp: home_def)
  have l: "length ls = length B" using Cons.prems(2) by (simp add: chains_nth)
  let ?c = "c\<lparr>next_hash := (next_hash c)(x := ls ! idx x)\<rparr>"
  have "\<exists>ls' nh. rehash_chain len (next_hash c x) (ls[idx x := x]) (n + 1) ?c = Some (ls', n + 1 + length xs, ?c\<lparr>next_hash := nh\<rparr>) \<and>
    bucket_chains nh ls' (fold (push idx) xs (push idx x B)) \<and> (\<forall>a. a \<notin> set xs \<longrightarrow> nh a = next_hash ?c a)"
  proof (rule Cons.IH)
    show "chain (next_hash ?c) (next_hash c x) xs" using x by simp
    show "bucket_chains (next_hash ?c) (ls[idx x := x]) (push idx x B)"
      using chains_push [OF Cons.prems(2), of x idx] Cons.prems(3) x hd by auto
    show "set xs \<inter> set (concat (push idx x B)) = {}"
      using Cons.prems(3) x hd(3) push_concat(1) [of idx x B] by auto
    show "home ?c len y = Some (idx y) \<and> idx y < length (push idx x B)" if "y \<in> set xs" for y
      using Cons.prems(4) [of y] that by (simp add: home_def)
    show "n + 1 + length xs < 2 ^ 32" using Cons.prems(5) by simp
  qed
  then obtain ls' nh where
    ih: "rehash_chain len (next_hash c x) (ls[idx x := x]) (n + 1) ?c = Some (ls', n + 1 + length xs, ?c\<lparr>next_hash := nh\<rparr>)"
      "bucket_chains nh ls' (fold (push idx) xs (push idx x B))" "\<And>a. a \<notin> set xs \<Longrightarrow> nh a = next_hash ?c a" by auto
  have "inc32 n = n + 1" using Cons.prems(5) by (simp add: inc32_def)
  then have "rehash_chain len h ls n c = Some (ls', n + length (x # xs), c\<lparr>next_hash := nh\<rparr>)"
    using ih(1) x hd l by (subst rehash_chain.simps) (simp add: Let_def)
  with ih(2,3) show ?case by auto
qed


lemma rehash_buckets_push:
  assumes "list_all2 (chain (next_hash c)) hs Bs" and "bucket_chains (next_hash c) ls B" and "distinct (concat Bs)"
    and "set (concat Bs) \<inter> set (concat B) = {}"
    and "\<And>x. x \<in> set (concat Bs) \<Longrightarrow> home c len x = Some (idx x) \<and> idx x < length B" and "n + length (concat Bs) < 2 ^ 32"
  shows "\<exists>ls' nh. rehash_buckets len hs ls n c = Some (ls', n + length (concat Bs), c\<lparr>next_hash := nh\<rparr>) \<and>
    bucket_chains nh ls' (fold (push idx) (concat Bs) B)"
  using assms
proof (induction hs arbitrary: Bs ls B n c)
  case Nil
  then show ?case by (auto intro!: exI [of _ "next_hash c"])
next
  case (Cons h hs)
  from Cons.prems(1) obtain xs Bs' where Bs: "Bs = xs # Bs'" "chain (next_hash c) h xs" "list_all2 (chain (next_hash c)) hs Bs'"
    by (auto simp: list_all2_Cons1)
  have "\<exists>ls' nh. rehash_chain len h ls n c = Some (ls', n + length xs, c\<lparr>next_hash := nh\<rparr>) \<and>
    bucket_chains nh ls' (fold (push idx) xs B) \<and> (\<forall>a. a \<notin> set xs \<longrightarrow> nh a = next_hash c a)"
    by (rule rehash_chain_push [OF Bs(2) Cons.prems(2)]) (use Cons.prems Bs in auto)
  then obtain ls1 nh1 where
    1: "rehash_chain len h ls n c = Some (ls1, n + length xs, c\<lparr>next_hash := nh1\<rparr>)"
      "bucket_chains nh1 ls1 (fold (push idx) xs B)" "\<And>a. a \<notin> set xs \<Longrightarrow> nh1 a = next_hash c a" by auto
  let ?c = "c\<lparr>next_hash := nh1\<rparr>"
  have fp: "length (fold (push idx) xs B) = length B" "set (concat (fold (push idx) xs B)) = set xs \<union> set (concat B)"
    using fold_push(1,2) [of xs idx B] Cons.prems(5) Bs(1) by simp_all
  have "\<exists>ls' nh. rehash_buckets len hs ls1 (n + length xs) ?c = Some (ls', n + length xs + length (concat Bs'), ?c\<lparr>next_hash := nh\<rparr>) \<and>
    bucket_chains nh ls' (fold (push idx) (concat Bs') (fold (push idx) xs B))"
  proof (rule Cons.IH)
    have "list_all2 (chain nh1) hs Bs' = bucket_chains nh1 hs Bs'" by (simp add: bucket_chains_def)
    also have "\<dots> = bucket_chains (next_hash c) hs Bs'"
      by (rule chains_frame) (use 1(3) Cons.prems(3) Bs in auto)
    finally show "list_all2 (chain (next_hash ?c)) hs Bs'" using Bs by (simp add: bucket_chains_def)
    show "set (concat Bs') \<inter> set (concat (fold (push idx) xs B)) = {}"
      using Cons.prems(3,4) Bs fp(2) by auto
    show "home ?c len x = Some (idx x) \<and> idx x < length (fold (push idx) xs B)" if "x \<in> set (concat Bs')" for x
      using Cons.prems(5) [of x] that Bs fp(1) by (simp add: home_def)
  qed (use 1 Cons.prems Bs in auto)
  then show ?case using 1(1) Bs by auto
qed

lemma Resize_table:
  assumes t: "table_chains c B" and e: "tb_elems c \<le> 2 ^ 31"
  shows "\<exists>c' B'. Resize c = Some c' \<and> table_rep c' B' \<and> set (concat B') = set (concat B) \<and> same_but_table c c'"
proof -
  from t have ch: "bucket_chains (next_hash c) (tb_list c) B" and ah: "at_home c (tb_length c) B" and el: "tb_elems c = length (concat B)"
    by (auto simp: table_chains_def)
  obtain k where k: "k \<le> 31" "grow_length (tb_elems c) (2 ^ 2) = Some (2 ^ k)" using grow_length_power [OF e, of 2] by auto
  define len where "len = (2::nat) ^ k"
  define idx where "idx = (\<lambda>a. the (home c len a))"
  have idx: "home c len a = Some (idx a) \<and> idx a < length (replicate len ([] :: addr list))" if "a \<in> set (concat B)" for a
  proof -
    from that ah obtain h where "handles c a = Some h"
      unfolding in_concat_nth by (auto simp: at_home_def home_def)
    with bucket_index_less [OF k(1)] show ?thesis by (simp add: home_def idx_def len_def)
  qed
  have "\<exists>ls nh. rehash_buckets len (tb_list c) (replicate len 0) 0 c = Some (ls, 0 + length (concat B), c\<lparr>next_hash := nh\<rparr>) \<and>
    bucket_chains nh ls (fold (push idx) (concat B) (replicate len []))"
    by (rule rehash_buckets_push)
       (use ch t e el idx in \<open>auto simp: bucket_chains_def table_distinct list_all2_conv_all_nth\<close>)
  then obtain ls nh where
    r: "rehash_buckets len (tb_list c) (replicate len 0) 0 c = Some (ls, length (concat B), c\<lparr>next_hash := nh\<rparr>)"
      "bucket_chains nh ls (fold (push idx) (concat B) (replicate len []))" by auto
  let ?c = "c\<lparr>next_hash := nh, tb_list := ls, tb_length := len\<rparr>" and ?B = "fold (push idx) (concat B) (replicate len [])"
  have tl: "take (tb_length c) (tb_list c) = tb_list c" using ch ah by (simp add: chains_nth at_home_def)
  have "Resize c = Some ?c" using k(2) r(1) el tl by (simp add: Resize_def len_def)
  moreover have idxl: "\<And>x. x \<in> set (concat B) \<Longrightarrow> idx x < length (replicate len ([] :: addr list))" using idx by blast
  moreover have "at_home ?c len ?B"
    unfolding at_home_def
  proof (intro conjI allI impI ballI)
    show l: "length ?B = len" using fold_push(1) [of "concat B" idx "replicate len []", OF idxl] by simp
    fix i a assume i: "i < len" and a: "a \<in> set (?B ! i)"
    have "a \<in> set (concat ?B)" unfolding in_concat_nth l using i a by blast
    then have "a \<in> set (concat B)" using fold_push(2) [of "concat B" idx "replicate len []", OF idxl] by auto
    moreover have "idx a = i" by (rule fold_push(4) [of "concat B" idx "replicate len []", OF idxl]) (use i a in auto)
    ultimately show "home ?c len a = Some i" using idx [of a] by (simp add: home_def)
  qed
  ultimately show ?thesis
    using r(2) k(1) el fold_push(2,3) [of "concat B" idx "replicate len []", OF idxl]
    by (intro exI [of _ ?c] exI [of _ ?B]) (auto simp: table_rep_def table_chains_def same_but_table_def len_def)
qed


subsection \<open>Search, insertion and removal\<close>

lemma table_handles:
  assumes "table_chains c B" and "a \<in> set (concat B)"
  shows "handles c a \<noteq> None" "a \<noteq> 0"
proof -
  from assms obtain i where i: "i < length B" "a \<in> set (B ! i)" by (auto simp only: in_concat_nth)
  with assms show "handles c a \<noteq> None" by (auto simp: table_chains_def at_home_def home_def)
  have "chain (next_hash c) (tb_list c ! i) (B ! i)" using assms(1) i(1) by (simp add: table_chains_def chains_nth)
  then have "0 \<notin> set (B ! i)" by (rule chain_zero)
  with i(2) show "a \<noteq> 0" by metis
qed

lemma FindPointer_table:
  assumes t: "table_rep c B" and ok: "\<And>a. a \<in> set (concat B) \<Longrightarrow> next_ptr c a \<noteq> a"
  shows "\<exists>i ys zs. i = bucket_index hash (tb_length c) \<and> i < length B \<and> B ! i = ys @ zs \<and>
    FindPointer key hash c = Some (slot_after (Bucket i) ys) \<and>
    read_slot (slot_after (Bucket i) ys) c = Some (case zs of [] \<Rightarrow> 0 | z # _ \<Rightarrow> z) \<and>
    (case zs of [] \<Rightarrow> \<forall>a\<in>set (concat B). \<not> matches c key hash a | z # _ \<Rightarrow> matches c key hash z)"
proof -
  let ?i = "bucket_index hash (tb_length c)" and ?P = "\<lambda>a. \<not> matches c key hash a"
  from t have tc: "table_chains c B" and ch: "bucket_chains (next_hash c) (tb_list c) B" and l: "length B = tb_length c"
    by (auto simp: table_rep_def table_chains_def at_home_def)
  obtain k where "k \<le> 31" "tb_length c = 2 ^ k" using t by (auto simp: table_rep_def)
  then have i: "?i < length B" using bucket_index_less [of k hash] l by simp
  let ?ys = "takeWhile ?P (B ! ?i)" and ?zs = "dropWhile ?P (B ! ?i)"
  have in_B: "a \<in> set (concat B)" if "a \<in> set (B ! ?i)" for a using that i by (auto simp only: in_concat_nth)
  have hok: "handle_ok c a" if "a \<in> set (B ! ?i)" for a
    using table_handles(1) [OF tc in_B [OF that]] ok [OF in_B [OF that]] by (simp add: handle_ok_def)
  have rd: "read_slot (Bucket ?i) c = Some (tb_list c ! ?i)" using i ch by (simp add: read_slot_def chains_nth)
  have cn: "chain (next_hash c) (tb_list c ! ?i) (B ! ?i)" using ch i by (simp add: chains_nth)
  have "FindPointer key hash c = Some (slot_after (Bucket ?i) ?ys)"
    unfolding FindPointer_def by (rule find_slot_chain [OF rd cn hok])
  moreover have "read_slot (slot_after (Bucket ?i) ?ys) c = Some (case ?zs of [] \<Rightarrow> 0 | z # _ \<Rightarrow> z)"
    by (rule read_slot_after [OF rd]) (use cn hok in \<open>auto simp: handle_ok_def dest: set_takeWhileD\<close>)
  moreover have "case ?zs of [] \<Rightarrow> \<forall>a\<in>set (concat B). ?P a | z # _ \<Rightarrow> matches c key hash z"
  proof (cases ?zs)
    case Nil
    have "?P a" if a: "a \<in> set (concat B)" for a
    proof
      assume m: "matches c key hash a"
      from a obtain j where j: "j < length B" "a \<in> set (B ! j)" by (auto simp only: in_concat_nth)
      with m tc have "j = ?i" by (fastforce simp: table_chains_def at_home_def home_def matches_def)
      with j m Nil show False by (auto simp: dropWhile_eq_Nil_conv)
    qed
    with Nil show ?thesis by (simp only: list.case) blast
  next
    case (Cons z zs)
    then have "matches c key hash z" using hd_dropWhile [of ?P "B ! ?i"] by simp
    with Cons show ?thesis by simp
  qed
  ultimately show ?thesis using i
    by (intro exI [of _ ?i] exI [of _ ?ys] exI [of _ ?zs]) simp
qed

lemma Table_Lookup_table:
  assumes t: "table_rep c B" and ok: "\<And>a. a \<in> set (concat B) \<Longrightarrow> next_ptr c a \<noteq> a"
  shows "\<exists>r. Table_Lookup key hash c = Some r \<and>
    (r = 0 \<and> (\<forall>a\<in>set (concat B). \<not> matches c key hash a) \<or> r \<in> set (concat B) \<and> matches c key hash r)"
proof -
  obtain i ys zs where f: "i < length B" "B ! i = ys @ zs" "FindPointer key hash c = Some (slot_after (Bucket i) ys)"
    "read_slot (slot_after (Bucket i) ys) c = Some (case zs of [] \<Rightarrow> 0 | z # _ \<Rightarrow> z)"
    "case zs of [] \<Rightarrow> \<forall>a\<in>set (concat B). \<not> matches c key hash a | z # _ \<Rightarrow> matches c key hash z"
    using FindPointer_table [OF t ok, where hash = hash and key = key] by blast
  show ?thesis
  proof (cases zs)
    case Nil
    with f show ?thesis by (simp add: Table_Lookup_def)
  next
    case (Cons z zs')
    then have "z \<in> set (concat B)" using f(1,2) by (auto simp only: in_concat_nth) auto
    with Cons f show ?thesis by (simp add: Table_Lookup_def)
  qed
qed

text \<open>Writing through the slot behind \<open>ys\<close> replaces the rest of the chain.\<close>

definition redirected :: "slot \<Rightarrow> addr \<Rightarrow> ('k, 'v) lru_cache \<Rightarrow> ('k, 'v) lru_cache" where
  "redirected s v c =
     (case s of Bucket i \<Rightarrow> c\<lparr>tb_list := (tb_list c)[i := v]\<rparr> | Next_hash a \<Rightarrow> c\<lparr>next_hash := (next_hash c)(a := v)\<rparr>)"

lemma same_but_table_redirected: "same_but_table c (redirected s v c)"
  by (simp add: same_but_table_def redirected_def split: slot.split)

lemma redirected_simps [simp]:
  "tb_elems (redirected s v c) = tb_elems c" "tb_length (redirected s v c) = tb_length c"
  "handles (redirected s v c) = handles c" "home (redirected s v c) = home c"
  by (auto simp: redirected_def home_def fun_eq_iff split: slot.split)

lemma write_slot_after:
  assumes ch: "bucket_chains (next_hash c) (tb_list c) B" and i: "i < length B" "B ! i = ys @ zs"
    and ys: "\<And>a. a \<in> set ys \<Longrightarrow> handles c a \<noteq> None"
    and v: "chain (next_hash c) v zs'" and d: "set ys \<inter> set zs' = {}"
    and oth: "\<And>j a. j < length B \<Longrightarrow> a \<in> set ys \<Longrightarrow> a \<in> set (B ! j) \<Longrightarrow> j = i"
  shows "write_slot (slot_after (Bucket i) ys) v c = Some (redirected (slot_after (Bucket i) ys) v c)"
    and "bucket_chains (next_hash (redirected (slot_after (Bucket i) ys) v c)) (tb_list (redirected (slot_after (Bucket i) ys) v c))
           (B[i := ys @ zs'])"
proof -
  have cn: "chain (next_hash c) (tb_list c ! i) (ys @ zs)" and l: "length (tb_list c) = length B"
    using ch i(1) i(2) [symmetric] by (simp_all add: chains_nth)
  show "write_slot (slot_after (Bucket i) ys) v c = Some (redirected (slot_after (Bucket i) ys) v c)"
    using i(1) l ys [of "last ys"] by (auto simp: write_slot_def redirected_def slot_after_def)
  show "bucket_chains (next_hash (redirected (slot_after (Bucket i) ys) v c)) (tb_list (redirected (slot_after (Bucket i) ys) v c))
           (B[i := ys @ zs'])"
  proof (cases ys rule: rev_cases)
    case Nil
    then show ?thesis using ch i(1) v l by (auto simp: chains_nth redirected_def nth_list_update)
  next
    case (snoc us u)
    have u: "u \<notin> set (B ! j)" if "j < length B" "j \<noteq> i" for j using oth [of j u] that snoc by auto
    have "chain ((next_hash c)(u := v)) (tb_list c ! i) (us @ [u] @ zs')"
      using chain_redirect [of "next_hash c" "tb_list c ! i" us u zs v zs'] cn v d snoc by simp
    then show ?thesis using ch i(1) l snoc u by (auto simp: chains_nth redirected_def slot_after_def nth_list_update)
  qed
qed


lemma same_but_table_trans: "same_but_table a b \<Longrightarrow> same_but_table b c \<Longrightarrow> same_but_table a c"
  by (simp add: same_but_table_def)

lemma concat_decomp:
  assumes "i < length B"
  shows "\<exists>P Q. \<forall>xs. concat (B[i := xs]) = P @ xs @ Q"
  using assms by (intro exI [of _ "concat (take i B)"] exI [of _ "concat (drop (Suc i) B)"]) (simp add: upd_conv_take_nth_drop)

lemma concat_split:
  assumes i: "i < length B" and b: "B ! i = ys @ zs" and d: "distinct (concat B)" and z: "set zs' \<inter> set (concat B) \<subseteq> set zs"
  shows "set (concat (B[i := ys @ zs'])) = (set (concat B) - set zs) \<union> set zs'"
proof -
  obtain P Q where pq: "\<And>xs. concat (B[i := xs]) = P @ xs @ Q" using concat_decomp [OF i] by blast
  have cb: "concat B = P @ (ys @ zs) @ Q" by (metis b list_update_id pq)
  show ?thesis using d z unfolding pq cb by auto
qed

lemma replace_tail:
  assumes t: "table_rep c B" and i: "i < length B" "B ! i = ys @ zs"
    and v: "chain (next_hash c) v zs'" and d: "set ys \<inter> set zs' = {}"
    and h: "\<forall>a\<in>set zs'. home c (tb_length c) a = Some i"
  defines "c' \<equiv> redirected (slot_after (Bucket i) ys) v c"
  shows "write_slot (slot_after (Bucket i) ys) v c = Some c'"
    and "n + length zs = tb_elems c + length zs' \<Longrightarrow> table_rep (c'\<lparr>tb_elems := n\<rparr>) (B[i := ys @ zs'])"
    and "same_but_table c (c'\<lparr>tb_elems := n\<rparr>)"
proof -
  have tc: "table_chains c B" and ch: "bucket_chains (next_hash c) (tb_list c) B" and ah: "at_home c (tb_length c) B"
    using t by (auto simp: table_rep_def table_chains_def)
  have hn: "handles c a \<noteq> None" if "a \<in> set ys" for a
    by (rule table_handles(1) [OF tc]) (use that i in \<open>auto simp only: in_concat_nth intro!: exI [of _ i]\<close>, simp)
  have oth: "j = i" if "j < length B" "a \<in> set ys" "a \<in> set (B ! j)" for j a
    using at_home_disjoint [OF ah, of j i a] that i ah by (simp add: at_home_def)
  note w = write_slot_after [OF ch i hn v d oth, folded c'_def]
  show "write_slot (slot_after (Bucket i) ys) v c = Some c'" by (rule w(1))
  show s: "same_but_table c (c'\<lparr>tb_elems := n\<rparr>)" for n
    using same_but_table_redirected [of c "slot_after (Bucket i) ys" v] by (simp add: same_but_table_def c'_def)
  assume e: "n + length zs = tb_elems c + length zs'"
  have "at_home c' (tb_length c) (B[i := ys @ zs'])"
    using t i h by (auto simp: c'_def table_rep_def table_chains_def at_home_def nth_list_update)
  then have "at_home (c'\<lparr>tb_elems := n\<rparr>) (tb_length c) (B[i := ys @ zs'])" by (simp add: at_home_def home_def)
  moreover have "n = length (concat (B[i := ys @ zs']))"
    using concat_update(1) [OF i(1), of "ys @ zs'"] e t i(2) by (simp add: table_rep_def table_chains_def)
  ultimately show "table_rep (c'\<lparr>tb_elems := n\<rparr>) (B[i := ys @ zs'])"
    using t w(2) by (simp add: table_rep_def table_chains_def c'_def)
qed

lemma Table_Remove_table:
  assumes t: "table_rep c B" and ok: "\<And>a. a \<in> set (concat B) \<Longrightarrow> next_ptr c a \<noteq> a" and b: "tb_elems c < 2 ^ 32"
  shows "\<exists>r c' B'. Table_Remove key hash c = Some (r, c') \<and> table_rep c' B' \<and> same_but_table c c' \<and>
    set (concat B') = set (concat B) - {r} \<and>
    (r = 0 \<and> (\<forall>a\<in>set (concat B). \<not> matches c key hash a) \<or> r \<in> set (concat B) \<and> matches c key hash r)"
proof -
  obtain i ys zs where f: "i < length B" "B ! i = ys @ zs" "FindPointer key hash c = Some (slot_after (Bucket i) ys)"
    "read_slot (slot_after (Bucket i) ys) c = Some (case zs of [] \<Rightarrow> 0 | z # _ \<Rightarrow> z)"
    "case zs of [] \<Rightarrow> \<forall>a\<in>set (concat B). \<not> matches c key hash a | z # _ \<Rightarrow> matches c key hash z"
    using FindPointer_table [OF t ok, where hash = hash and key = key] by blast
  have tc: "table_chains c B" and ch: "chain (next_hash c) (tb_list c ! i) (ys @ zs)" and ah: "at_home c (tb_length c) B"
    and el: "tb_elems c = length (concat B)"
    using t f(1) f(2) [symmetric] by (auto simp: table_rep_def table_chains_def chains_nth)
  have in_B: "a \<in> set (concat B)" if "a \<in> set (ys @ zs)" for a using that f(1,2) by (auto simp only: in_concat_nth intro!: exI [of _ i])
  show ?thesis
  proof (cases zs)
    case Nil
    then have "0 \<notin> set (concat B)" using table_handles(2) [OF tc] by blast
    with f Nil t show ?thesis
      by (intro exI [of _ 0] exI [of _ c] exI [of _ B]) (simp add: Table_Remove_def same_but_table_def)
  next
    case (Cons z zs')
    have z: "z \<in> set (concat B)" "z \<noteq> 0" using in_B [of z] table_handles(2) [OF tc, of z] Cons by auto
    have cn: "chain (next_hash c) (tb_list c ! i) (ys @ [z] @ zs')" using ch Cons by simp
    note d = chain_distinct [OF cn]
    have "0 < tb_elems c" using z(1) el by (metis length_pos_if_in_set)
    then have dec: "dec32 (tb_elems c) = tb_elems c - 1" and e: "tb_elems c - 1 + length zs = tb_elems c + length zs'"
      using b Cons by simp_all
    have "\<forall>a\<in>set zs'. home c (tb_length c) a = Some i" using ah f(1,2) Cons by (auto simp: at_home_def)
    note rt = replace_tail [OF t f(1,2) chain_prefix_next [OF cn] _ this]
    let ?c' = "redirected (slot_after (Bucket i) ys) (next_hash c z) c\<lparr>tb_elems := tb_elems c - 1\<rparr>"
    have "Table_Remove key hash c = Some (z, ?c')" using f(3,4) Cons rt(1) d z(2) dec by (simp add: Table_Remove_def)
    moreover have "table_rep ?c' (B[i := ys @ zs'])" "same_but_table c ?c'" using rt(2,3) e d by auto
    moreover have "set (concat (B[i := ys @ zs'])) = set (concat B) - {z}"
    proof -
      have "set (concat (B[i := ys @ zs'])) = (set (concat B) - set zs) \<union> set zs'"
        by (rule concat_split [OF f(1,2) table_distinct [OF tc]]) (use Cons in auto)
      also have "\<dots> = set (concat B) - {z}" using in_B Cons d by auto
      finally show ?thesis .
    qed
    ultimately show ?thesis using z f(5) Cons
      by (intro exI [of _ z] exI [of _ ?c'] exI [of _ "B[i := ys @ zs']"]) simp
  qed
qed

lemma Table_Insert_table:
  assumes t: "table_rep c B" and ok: "\<And>a. a \<in> set (concat B) \<Longrightarrow> next_ptr c a \<noteq> a" and b: "tb_elems c < 2 ^ 31"
    and a: "handles c a = Some h" "next_ptr c a \<noteq> a" "a \<notin> set (concat B)" "a \<noteq> 0"
  shows "\<exists>r c' B'. Table_Insert a c = Some (r, c') \<and> table_rep c' B' \<and> same_but_table c c' \<and>
    set (concat B') = insert a (set (concat B) - {r}) \<and>
    (r = 0 \<and> (\<forall>b\<in>set (concat B). \<not> matches c (h_key h) (h_hash h) b) \<or>
     r \<in> set (concat B) \<and> matches c (h_key h) (h_hash h) r)"
proof -
  obtain i ys zs where f: "i = bucket_index (h_hash h) (tb_length c)" "i < length B" "B ! i = ys @ zs"
    "FindPointer (h_key h) (h_hash h) c = Some (slot_after (Bucket i) ys)"
    "read_slot (slot_after (Bucket i) ys) c = Some (case zs of [] \<Rightarrow> 0 | z # _ \<Rightarrow> z)"
    "case zs of [] \<Rightarrow> \<forall>a\<in>set (concat B). \<not> matches c (h_key h) (h_hash h) a | z # _ \<Rightarrow> matches c (h_key h) (h_hash h) z"
    using FindPointer_table [OF t ok, where hash = "h_hash h" and key = "h_key h"] by blast
  define old where "old = (case zs of [] \<Rightarrow> 0 | z # _ \<Rightarrow> z)"
  define c1 where "c1 = c\<lparr>next_hash := (next_hash c)(a := (if old = 0 then 0 else next_hash c old))\<rparr>"
  have tc: "table_chains c B" and ch: "chain (next_hash c) (tb_list c ! i) (ys @ zs)" and ah: "at_home c (tb_length c) B"
    using t f(2) f(3) [symmetric] by (auto simp: table_rep_def table_chains_def chains_nth)
  have in_B: "a \<in> set (concat B)" if "a \<in> set (ys @ zs)" for a using that f(2,3) by (auto simp only: in_concat_nth intro!: exI [of _ i])
  have d: "distinct (ys @ zs)" by (rule chain_distinct [OF ch])
  have "bucket_chains (next_hash c1) (tb_list c) B = bucket_chains (next_hash c) (tb_list c) B"
    by (rule chains_frame) (use a(3) in \<open>auto simp: c1_def\<close>)
  with t have t1: "table_rep c1 B" by (simp add: table_rep_def table_chains_def at_home_def home_def c1_def)
  have old: "old = 0 \<longleftrightarrow> zs = []" using table_handles(2) [OF tc in_B] by (auto simp: old_def split: list.splits)
  have tail: "chain (next_hash c1) a (a # tl zs)"
  proof (cases zs)
    case Nil
    then show ?thesis using a(4) old by (simp add: c1_def)
  next
    case (Cons z zs')
    then have "chain (next_hash c) (next_hash c z) zs'" using ch chain_prefix_next [of "next_hash c" _ ys z zs'] by simp
    moreover have "a \<notin> set zs'" using a(3) in_B [of a] Cons by auto
    ultimately show ?thesis using Cons a(4) old by (simp add: c1_def old_def)
  qed
  have dis: "set ys \<inter> set (a # tl zs) = {}" using d a(3) in_B by (cases zs) auto
  have hm: "\<forall>x\<in>set (a # tl zs). home c1 (tb_length c1) x = Some i"
    using a(1) f(1) ah f(2,3) by (cases zs) (auto simp: c1_def home_def at_home_def)
  note rt = replace_tail [OF t1 f(2,3) tail dis hm]
  let ?n = "if old = 0 then tb_elems c + 1 else tb_elems c"
  let ?c = "redirected (slot_after (Bucket i) ys) a c1\<lparr>tb_elems := ?n\<rparr>" and ?B = "B[i := ys @ a # tl zs]"
  have e: "?n + length zs = tb_elems c1 + length (a # tl zs)" using old by (cases zs) (auto simp: c1_def)
  have tr: "table_rep ?c ?B" by (rule rt(2) [OF e])
  have sb: "same_but_table c ?c" using rt(3) [of ?n] by (simp add: same_but_table_def c1_def)
  have set: "set (concat ?B) = insert a (set (concat B) - {old})"
  proof -
    have "set (concat ?B) = (set (concat B) - set zs) \<union> set (a # tl zs)"
      by (rule concat_split [OF f(2,3) table_distinct [OF tc]]) (use a(3) in \<open>cases zs; auto\<close>)
    also have "\<dots> = insert a (set (concat B) - {old})"
      using in_B d a(3) table_handles(2) [OF tc, of 0] by (cases zs) (auto simp: old_def)
    finally show ?thesis .
  qed
  have m: "old = 0 \<and> (\<forall>b\<in>set (concat B). \<not> matches c (h_key h) (h_hash h) b) \<or>
     old \<in> set (concat B) \<and> matches c (h_key h) (h_hash h) old"
    using f(6) in_B by (cases zs) (auto simp: old_def)
  have inc: "inc32 (tb_elems c) = tb_elems c + 1" using b by simp
  have ins: "Table_Insert a c = (if old = 0 \<and> tb_elems c + 1 > tb_length c then do { c \<leftarrow> Resize ?c; Some (old, c) } else Some (old, ?c))"
    using a(1,2) f(4,5) rt(1) inc
    by (simp add: Table_Insert_def handle_key_def old_def [symmetric] c1_def [symmetric] Let_def) (simp add: c1_def)
  show ?thesis
  proof (cases "old = 0 \<and> tb_elems c + 1 > tb_length c")
    case False
    then have "Table_Insert a c = Some (old, ?c)" by (simp only: ins if_False)
    with tr sb set m show ?thesis by blast
  next
    case True
    have "table_chains ?c ?B" "tb_elems ?c \<le> 2 ^ 31" using tr b by (simp_all add: table_rep_def)
    then obtain c' B' where r: "Resize ?c = Some c'" "table_rep c' B'" "set (concat B') = set (concat ?B)" "same_but_table ?c c'"
      using Resize_table [of ?c ?B] by blast
    have "Table_Insert a c = Some (old, c')" using ins r(1) by (simp only: if_P [OF True] bind.bind_lunit)
    moreover have "set (concat B') = insert a (set (concat B) - {old})" by (simp only: r(3) set)
    ultimately show ?thesis using m r(2) same_but_table_trans [OF sb r(4)] by blast
  qed
qed

end
