(* ===== verification/Lru_Cache_Spec.thy ===== *)
theory Lru_Cache_Spec
  imports Lru_Cache_Table "HOL-Library.Multiset"
begin

text \<open>
  The specification of the cache and its refinement. The abstract cache has a list of the entries nobody
  refers to, oldest first, a list of those in use, and the handles; no pointers and no table. Every
  operation of a shard succeeds on a state that represents an abstract one and yields the abstract result.
\<close>

section \<open>The lists\<close>

definition lists_rep :: "('k, 'v) lru_cache \<Rightarrow> addr list \<Rightarrow> addr list \<Rightarrow> bool" where
  "lists_rep c L U \<longleftrightarrow>
     ring (next_ptr c) (prev_ptr c) lru_head L \<and> ring (next_ptr c) (prev_ptr c) in_use_head U \<and>
     set L \<inter> set U = {} \<and> (\<forall>a\<in>set L \<union> set U. 3 \<le> a \<and> handles c a \<noteq> None)"

definition same_but_lists :: "('k, 'v) lru_cache \<Rightarrow> ('k, 'v) lru_cache \<Rightarrow> bool" where
  "same_but_lists c c' \<longleftrightarrow>
     capacity c' = capacity c \<and> usage c' = usage c \<and> handles c' = handles c \<and> next_hash c' = next_hash c \<and>
     fresh c' = fresh c \<and> deleted c' = deleted c \<and> tb_list c' = tb_list c \<and> tb_length c' = tb_length c \<and> tb_elems c' = tb_elems c"

lemmas heads = lru_head_def in_use_head_def

lemma ring_remove1:
  assumes "ring nx pv h xs" and "e \<in> set xs"
  shows "ring (nx(pv e := nx e)) (pv(nx e := pv e)) h (remove1 e xs)"
proof -
  from split_list_first [OF assms(2)] obtain as bs where xs: "xs = as @ e # bs" "e \<notin> set as" by blast
  then have "remove1 e xs = as @ bs" by (simp add: remove1_append)
  with ring_remove [of nx pv h as e bs] assms(1) xs show ?thesis by simp
qed

lemma ring_other:
  assumes "ring nx pv h xs" and "p \<notin> set (h # xs)" and "n \<notin> set (h # xs)"
  shows "ring (nx(p := v)) (pv(n := w)) h xs"
  using assms by (subst ring_frame [of h xs _ nx _ pv]) auto

lemma LRU_Remove_lists:
  assumes l: "lists_rep c L U" and e: "e \<in> set L \<union> set U"
  shows "\<exists>c'. LRU_Remove e c = Some c' \<and> lists_rep c' (remove1 e L) (remove1 e U) \<and> same_but_lists c c' \<and>
    (\<forall>a. a \<notin> {lru_head, in_use_head} \<union> (set L \<union> set U - {e}) \<longrightarrow> next_ptr c' a = next_ptr c a)"
proof -
  let ?p = "prev_ptr c e" and ?n = "next_ptr c e"
  let ?nx = "(next_ptr c)(?p := ?n)" and ?pv = "(prev_ptr c)(?n := ?p)"
  from l have r: "ring (next_ptr c) (prev_ptr c) lru_head L" "ring (next_ptr c) (prev_ptr c) in_use_head U"
    and d: "set L \<inter> set U = {}" and v: "\<And>a. a \<in> set L \<union> set U \<Longrightarrow> 3 \<le> a \<and> handles c a \<noteq> None"
    by (auto simp: lists_rep_def)
  have hd: "lru_head \<notin> set L \<union> set U" "in_use_head \<notin> set L \<union> set U" using v [of lru_head] v [of in_use_head] by (auto simp: heads)
  have ne: "?p \<noteq> e" "?n \<noteq> e" using e ring_neighbours [OF r(1), of e] ring_neighbours [OF r(2), of e] by auto
  have "ring ?nx ?pv lru_head (remove1 e L) \<and> ring ?nx ?pv in_use_head (remove1 e U) \<and>
    ?p \<in> {lru_head, in_use_head} \<union> set L \<union> set U \<and> ?n \<in> {lru_head, in_use_head} \<union> set L \<union> set U"
  proof (cases "e \<in> set L")
    case True
    note n = ring_neighbours [OF r(1) True]
    have "e \<notin> set U" using True d by auto
    moreover have "ring ?nx ?pv in_use_head U" by (rule ring_other [OF r(2)]) (use n d hd in \<open>auto simp: heads\<close>)
    ultimately show ?thesis using ring_remove1 [OF r(1) True] n by (auto simp: remove1_idem)
  next
    case False
    then have eU: "e \<in> set U" using e by simp
    note n = ring_neighbours [OF r(2) eU]
    have "ring ?nx ?pv lru_head L" by (rule ring_other [OF r(1)]) (use n d hd in \<open>auto simp: heads\<close>)
    then show ?thesis using ring_remove1 [OF r(2) eU] n False by (auto simp: remove1_idem)
  qed
  then have rr: "ring ?nx ?pv lru_head (remove1 e L)" "ring ?nx ?pv in_use_head (remove1 e U)"
    and pn: "?p \<in> {lru_head, in_use_head} \<union> set L \<union> set U" "?n \<in> {lru_head, in_use_head} \<union> set L \<union> set U" by auto
  have "valid_ptr c e" "valid_ptr c ?p" "valid_ptr c ?n" using e pn v by (auto simp: valid_ptr_def)
  then have "LRU_Remove e c = Some (c\<lparr>prev_ptr := ?pv, next_ptr := ?nx\<rparr>)" using ne by (simp add: LRU_Remove_def Let_def)
  moreover have "lists_rep (c\<lparr>prev_ptr := ?pv, next_ptr := ?nx\<rparr>) (remove1 e L) (remove1 e U)"
    using rr d v by (auto simp: lists_rep_def dest: notin_set_remove1 set_remove1_subset [THEN subsetD])
  ultimately show ?thesis using pn(1) ne by (auto simp: same_but_lists_def)
qed

lemma LRU_Append_lists:
  assumes l: "lists_rep c L U" and e: "e \<notin> set L \<union> set U" "3 \<le> e" "handles c e \<noteq> None"
    and h: "h = lru_head \<and> L' = L @ [e] \<and> U' = U \<or> h = in_use_head \<and> L' = L \<and> U' = U @ [e]"
  shows "\<exists>c'. LRU_Append h e c = Some c' \<and> lists_rep c' L' U' \<and> same_but_lists c c' \<and>
    (\<forall>a. a \<notin> {lru_head, in_use_head} \<union> (set L' \<union> set U') \<longrightarrow> next_ptr c' a = next_ptr c a)"
proof -
  let ?p = "prev_ptr c h"
  let ?nx = "(next_ptr c)(e := h, ?p := e)" and ?pv = "(prev_ptr c)(e := ?p, h := e)"
  from l have r: "ring (next_ptr c) (prev_ptr c) lru_head L" "ring (next_ptr c) (prev_ptr c) in_use_head U"
    and d: "set L \<inter> set U = {}" and v: "\<And>a. a \<in> set L \<union> set U \<Longrightarrow> 3 \<le> a \<and> handles c a \<noteq> None"
    by (auto simp: lists_rep_def)
  have hd: "lru_head \<notin> set L \<union> set U" "in_use_head \<notin> set L \<union> set U" "e \<noteq> lru_head" "e \<noteq> in_use_head"
    using v [of lru_head] v [of in_use_head] e by (auto simp: heads)
  have p: "h = lru_head \<and> ?p \<in> set (lru_head # L) \<or> h = in_use_head \<and> ?p \<in> set (in_use_head # U)"
    using h ring_last [OF r(1)] ring_last [OF r(2)] last_in_set [of L] last_in_set [of U] by (auto split: if_splits)
  have pe: "?p \<noteq> e" "e \<noteq> h" using p e hd h by auto
  have oth: "ring ?nx ?pv k xs" if "ring (next_ptr c) (prev_ptr c) k xs" "e \<notin> set (k # xs)" "?p \<notin> set (k # xs)" "h \<notin> set (k # xs)" for k xs
    using that by (subst ring_frame [of k xs _ "next_ptr c" _ "prev_ptr c"]) auto
  have rr: "ring ?nx ?pv lru_head L' \<and> ring ?nx ?pv in_use_head U'"
    using h
  proof
    assume h: "h = lru_head \<and> L' = L @ [e] \<and> U' = U"
    have "ring ?nx ?pv in_use_head U" by (rule oth [OF r(2)]) (use p h d hd e in \<open>auto simp: heads\<close>)
    with h ring_snoc [OF r(1), of e] e hd show ?thesis by auto
  next
    assume h: "h = in_use_head \<and> L' = L \<and> U' = U @ [e]"
    have "ring ?nx ?pv lru_head L" by (rule oth [OF r(1)]) (use p h d hd e in \<open>auto simp: heads\<close>)
    with h ring_snoc [OF r(2), of e] e hd show ?thesis by auto
  qed
  have "valid_ptr c h" "valid_ptr c e" "valid_ptr c ?p" using e p v h by (auto simp: valid_ptr_def)
  then have "LRU_Append h e c = Some (c\<lparr>next_ptr := ?nx, prev_ptr := ?pv\<rparr>)" using pe by (simp add: LRU_Append_def Let_def)
  moreover have "lists_rep (c\<lparr>next_ptr := ?nx, prev_ptr := ?pv\<rparr>) L' U'" using rr d v e h by (auto simp: lists_rep_def)
  ultimately show ?thesis using p h pe by (auto simp: same_but_lists_def)
qed


lemma move_lists:
  assumes l: "lists_rep c L U" and e: "e \<in> set L \<union> set U"
    and h: "h = lru_head \<and> L' = remove1 e L @ [e] \<and> U' = remove1 e U \<or> h = in_use_head \<and> L' = remove1 e L \<and> U' = remove1 e U @ [e]"
  shows "\<exists>c'. do { c \<leftarrow> LRU_Remove e c; LRU_Append h e c } = Some c' \<and> lists_rep c' L' U' \<and> same_but_lists c c' \<and>
    (\<forall>a. a \<notin> {lru_head, in_use_head} \<union> (set L \<union> set U) \<longrightarrow> next_ptr c' a = next_ptr c a)"
proof -
  have d: "distinct L" "distinct U" and v: "3 \<le> e" "handles c e \<noteq> None"
    using l e ring_distinct [of "next_ptr c" "prev_ptr c"] by (auto simp: lists_rep_def)
  obtain c2 where c2: "LRU_Remove e c = Some c2" "lists_rep c2 (remove1 e L) (remove1 e U)" "same_but_lists c c2"
    "\<And>a. a \<notin> {lru_head, in_use_head} \<union> (set L \<union> set U - {e}) \<Longrightarrow> next_ptr c2 a = next_ptr c a"
    using LRU_Remove_lists [OF l e] by blast
  have "\<exists>c3. LRU_Append h e c2 = Some c3 \<and> lists_rep c3 L' U' \<and> same_but_lists c2 c3 \<and>
    (\<forall>a. a \<notin> {lru_head, in_use_head} \<union> (set L' \<union> set U') \<longrightarrow> next_ptr c3 a = next_ptr c2 a)"
    by (rule LRU_Append_lists [OF c2(2) _ v(1) _ h]) (use c2(3) d v in \<open>auto simp: same_but_lists_def\<close>)
  then obtain c3 where c3: "LRU_Append h e c2 = Some c3" "lists_rep c3 L' U'" "same_but_lists c2 c3"
    "\<And>a. a \<notin> {lru_head, in_use_head} \<union> (set L' \<union> set U') \<Longrightarrow> next_ptr c3 a = next_ptr c2 a" by blast
  have "set L' \<union> set U' = set L \<union> set U" using h e d by auto
  then show ?thesis using c2 c3 by (intro exI [of _ c3]) (simp add: same_but_lists_def)
qed

section \<open>The abstract cache\<close>

record ('k, 'v) acache =
  a_capacity :: "64 word"
  a_usage :: "64 word"
  a_handles :: "addr \<Rightarrow> ('k, 'v) lru_handle option"
  a_lru :: "addr list"
  a_used :: "addr list"
  a_fresh :: addr
  a_deleted :: "('k \<times> 'v) list"

definition a_cached :: "('k, 'v) acache \<Rightarrow> addr set" where
  "a_cached A = set (a_lru A) \<union> set (a_used A)"

definition a_charge :: "('k, 'v) acache \<Rightarrow> addr \<Rightarrow> 64 word" where
  "a_charge A a = (case a_handles A a of None \<Rightarrow> 0 | Some h \<Rightarrow> h_charge h)"

definition a_matches :: "('k, 'v) acache \<Rightarrow> 'k \<Rightarrow> 32 word \<Rightarrow> addr \<Rightarrow> bool" where
  "a_matches A key hash a \<longleftrightarrow> (case a_handles A a of None \<Rightarrow> False | Some h \<Rightarrow> h_hash h = hash \<and> h_key h = key)"

definition a_find :: "'k \<Rightarrow> 32 word \<Rightarrow> ('k, 'v) acache \<Rightarrow> addr option" where
  "a_find key hash A = List.find (a_matches A key hash) (a_lru A @ a_used A)"

definition a_ref :: "addr \<Rightarrow> ('k, 'v) acache \<Rightarrow> ('k, 'v) acache" where
  "a_ref e A =
     (let h = the (a_handles A e)
      in A\<lparr>a_handles := (a_handles A)(e \<mapsto> h\<lparr>refs := refs h + 1\<rparr>), a_lru := remove1 e (a_lru A),
           a_used := (if e \<in> set (a_lru A) then a_used A @ [e] else a_used A)\<rparr>)"

definition a_unref :: "addr \<Rightarrow> ('k, 'v) acache \<Rightarrow> ('k, 'v) acache" where
  "a_unref e A =
     (let h = the (a_handles A e)
      in if refs h = 1
         then A\<lparr>a_handles := (a_handles A)(e := None), a_deleted := (h_key h, h_value h) # a_deleted A\<rparr>
         else if in_cache h \<and> refs h = 2
         then A\<lparr>a_handles := (a_handles A)(e \<mapsto> h\<lparr>refs := refs h - 1\<rparr>), a_lru := a_lru A @ [e], a_used := remove1 e (a_used A)\<rparr>
         else A\<lparr>a_handles := (a_handles A)(e \<mapsto> h\<lparr>refs := refs h - 1\<rparr>)\<rparr>)"

definition a_detach :: "addr \<Rightarrow> ('k, 'v) acache \<Rightarrow> ('k, 'v) acache" where
  "a_detach e A =
     (let h = the (a_handles A e)
      in A\<lparr>a_usage := a_usage A - h_charge h, a_handles := (a_handles A)(e \<mapsto> h\<lparr>in_cache := False\<rparr>),
           a_lru := remove1 e (a_lru A), a_used := remove1 e (a_used A)\<rparr>)"

definition a_erase :: "addr \<Rightarrow> ('k, 'v) acache \<Rightarrow> ('k, 'v) acache" where
  "a_erase e A = a_unref e (a_detach e A)"

definition a_lookup :: "'k \<Rightarrow> 32 word \<Rightarrow> ('k, 'v) acache \<Rightarrow> addr \<times> ('k, 'v) acache" where
  "a_lookup key hash A = (case a_find key hash A of None \<Rightarrow> (0, A) | Some e \<Rightarrow> (e, a_ref e A))"

definition a_remove :: "'k \<Rightarrow> 32 word \<Rightarrow> ('k, 'v) acache \<Rightarrow> ('k, 'v) acache" where
  "a_remove key hash A = (case a_find key hash A of None \<Rightarrow> A | Some e \<Rightarrow> a_erase e A)"

fun a_evict :: "addr list \<Rightarrow> ('k, 'v) acache \<Rightarrow> ('k, 'v) acache" where
  "a_evict [] A = A"
| "a_evict (e # es) A = (if a_usage A > a_capacity A then a_evict es (a_erase e A) else A)"

definition a_prune :: "('k, 'v) acache \<Rightarrow> ('k, 'v) acache" where
  "a_prune A = fold a_erase (a_lru A) A"

definition a_add :: "'k \<Rightarrow> 32 word \<Rightarrow> 'v \<Rightarrow> 64 word \<Rightarrow> ('k, 'v) acache \<Rightarrow> ('k, 'v) acache" where
  "a_add key hash val chg A =
     A\<lparr>a_usage := a_usage A + chg, a_handles := (a_handles A)(a_fresh A \<mapsto>
         \<lparr>h_value = val, h_charge = chg, h_key = key, in_cache = True, refs = 2, h_hash = hash\<rparr>),
       a_used := a_used A @ [a_fresh A], a_fresh := a_fresh A + 1\<rparr>"

definition a_insert :: "'k \<Rightarrow> 32 word \<Rightarrow> 'v \<Rightarrow> 64 word \<Rightarrow> ('k, 'v) acache \<Rightarrow> ('k, 'v) acache" where
  "a_insert key hash val chg A =
     (let A' = (if a_capacity A > 0
                then case a_find key hash A of
                       None \<Rightarrow> a_add key hash val chg A
                     | Some old \<Rightarrow> a_erase old (a_add key hash val chg A)
                else A\<lparr>a_handles := (a_handles A)(a_fresh A \<mapsto>
                         \<lparr>h_value = val, h_charge = chg, h_key = key, in_cache = False, refs = 1, h_hash = hash\<rparr>),
                       a_fresh := a_fresh A + 1\<rparr>)
      in a_evict (a_lru A') A')"

text \<open>Entries nobody refers to are held by the cache alone, entries in use by clients as well, the other
  handles by clients alone.\<close>

definition a_inv :: "('k, 'v) acache \<Rightarrow> bool" where
  "a_inv A \<longleftrightarrow>
     distinct (a_lru A @ a_used A) \<and>
     (\<forall>a\<in>set (a_lru A). \<exists>h. a_handles A a = Some h \<and> in_cache h \<and> refs h = 1) \<and>
     (\<forall>a\<in>set (a_used A). \<exists>h. a_handles A a = Some h \<and> in_cache h \<and> 2 \<le> refs h) \<and>
     (\<forall>a h. a_handles A a = Some h \<and> a \<notin> a_cached A \<longrightarrow> \<not> in_cache h \<and> 1 \<le> refs h) \<and>
     (\<forall>a h. a_handles A a = Some h \<longrightarrow> 3 \<le> a \<and> a < a_fresh A \<and> refs h < 2 ^ 32) \<and>
     3 \<le> a_fresh A \<and> a_fresh A \<le> 2 ^ 31 \<and>
     a_usage A = (\<Sum>a\<in>a_cached A. a_charge A a)"

definition a_unique :: "('k, 'v) acache \<Rightarrow> addr set \<Rightarrow> bool" where
  "a_unique A T \<longleftrightarrow> (\<forall>key hash. \<forall>a\<in>T. \<forall>b\<in>T. a_matches A key hash a \<and> a_matches A key hash b \<longrightarrow> a = b)"

text \<open>\<open>T\<close> is the set of handles in the table; between the operations it is the set of cached handles.\<close>

definition rep :: "('k, 'v) lru_cache \<Rightarrow> ('k, 'v) acache \<Rightarrow> addr set \<Rightarrow> bool" where
  "rep c A T \<longleftrightarrow>
     capacity c = a_capacity A \<and> usage c = a_usage A \<and> handles c = a_handles A \<and> fresh c = a_fresh A \<and> deleted c = a_deleted A \<and>
     lists_rep c (a_lru A) (a_used A) \<and> (\<exists>B. table_rep c B \<and> set (concat B) = T) \<and> T \<subseteq> a_cached A \<and> a_unique A T \<and>
     (\<forall>a. handles c a \<noteq> None \<longrightarrow> next_ptr c a \<noteq> a) \<and> a_inv A"

definition represents :: "('k, 'v) lru_cache \<Rightarrow> ('k, 'v) acache \<Rightarrow> bool" where
  "represents c A \<longleftrightarrow> rep c A (a_cached A)"

section \<open>Frame properties\<close>

lemma table_rep_frame:
  assumes "table_rep c B" and "next_hash c' = next_hash c" "tb_list c' = tb_list c" "tb_length c' = tb_length c" "tb_elems c' = tb_elems c"
    and "\<And>a. a \<in> set (concat B) \<Longrightarrow> map_option h_hash (handles c' a) = map_option h_hash (handles c a)"
  shows "table_rep c' B"
proof -
  have "home c' n a = home c n a" if "a \<in> set (concat B)" for a n
    using assms(6) [OF that] by (auto simp: home_def map_option_case split: option.splits)
  moreover have "a \<in> set (concat B)" if "i < length B" "a \<in> set (B ! i)" for i a
    using that by (auto simp only: in_concat_nth)
  ultimately show ?thesis using assms(1-5) by (auto simp: table_rep_def table_chains_def at_home_def)
qed

lemma lists_rep_frame:
  assumes "lists_rep c L U" and "next_ptr c' = next_ptr c" "prev_ptr c' = prev_ptr c"
    and "\<And>a. a \<in> set L \<union> set U \<Longrightarrow> handles c' a \<noteq> None"
  shows "lists_rep c' L U"
  using assms by (auto simp: lists_rep_def)

lemma lists_no_loop:
  assumes "lists_rep c L U" and "a \<in> set L \<union> set U"
  shows "next_ptr c a \<noteq> a"
  using assms ring_neighbours(3) [of "next_ptr c" "prev_ptr c" _ _ a] by (auto simp: lists_rep_def)


section \<open>The abstract operations keep the invariant\<close>

lemma a_invD:
  assumes "a_inv A"
  shows "distinct (a_lru A)" "distinct (a_used A)" "set (a_lru A) \<inter> set (a_used A) = {}"
    "a \<in> set (a_lru A) \<Longrightarrow> \<exists>h. a_handles A a = Some h \<and> in_cache h \<and> refs h = 1"
    "a \<in> set (a_used A) \<Longrightarrow> \<exists>h. a_handles A a = Some h \<and> in_cache h \<and> 2 \<le> refs h"
    "a_handles A a = Some h \<Longrightarrow> a \<notin> a_cached A \<Longrightarrow> \<not> in_cache h \<and> 1 \<le> refs h"
    "a_handles A a = Some h \<Longrightarrow> 3 \<le> a \<and> a < a_fresh A \<and> refs h < 2 ^ 32"
    "a_usage A = (\<Sum>a\<in>a_cached A. a_charge A a)"
  using assms by (auto simp: a_inv_def)

lemma a_cached_handle: "a_inv A \<Longrightarrow> a \<in> a_cached A \<Longrightarrow> \<exists>h. a_handles A a = Some h \<and> in_cache h \<and> 1 \<le> refs h"
  using a_invD(4,5) [of A a] by (force simp: a_cached_def)

lemma a_ref_simps [simp]:
  "a_capacity (a_ref e A) = a_capacity A" "a_usage (a_ref e A) = a_usage A" "a_fresh (a_ref e A) = a_fresh A"
  "a_deleted (a_ref e A) = a_deleted A" "a_lru (a_ref e A) = remove1 e (a_lru A)"
  "a_used (a_ref e A) = (if e \<in> set (a_lru A) then a_used A @ [e] else a_used A)"
  "a_handles A e = Some h \<Longrightarrow> a_handles (a_ref e A) = (a_handles A)(e \<mapsto> h\<lparr>refs := refs h + 1\<rparr>)"
  by (simp_all add: a_ref_def Let_def)

lemma a_cached_ref [simp]: "a_inv A \<Longrightarrow> a_cached (a_ref e A) = a_cached A"
  using a_invD(1) [of A] by (auto simp: a_cached_def)

lemma a_inv_ref:
  assumes "a_inv A" and "e \<in> a_cached A" and "a_handles A e = Some h" and "refs h + 1 < 2 ^ 32"
  shows "a_inv (a_ref e A)"
proof -
  note i = a_invD [OF assms(1)]
  have ch: "a_charge (a_ref e A) = a_charge A" using assms(3) by (auto simp: a_charge_def fun_eq_iff)
  show ?thesis
    unfolding a_inv_def using i(1-3) assms a_cached_ref [OF assms(1), of e] i(8) ch
    by (auto simp: a_inv_def a_cached_def dest: notin_set_remove1 split: if_splits)
qed

lemma a_unref_simps [simp]:
  "a_capacity (a_unref e A) = a_capacity A" "a_usage (a_unref e A) = a_usage A" "a_fresh (a_unref e A) = a_fresh A"
  by (simp_all add: a_unref_def Let_def)

lemma a_cached_unref:
  assumes "a_inv A" and "a_handles A e = Some h" and "e \<notin> set (a_lru A)"
  shows "a_cached (a_unref e A) = a_cached A"
proof -
  have "e \<in> set (a_used A)" if "in_cache h" using a_invD(6) [OF assms(1,2)] that assms(3) by (auto simp: a_cached_def)
  with assms(2) a_invD(2) [OF assms(1)] show ?thesis by (auto simp: a_cached_def a_unref_def Let_def)
qed

lemma a_inv_unref:
  assumes A: "a_inv A" and h: "a_handles A e = Some h" and e: "e \<notin> set (a_lru A)"
  shows "a_inv (a_unref e A)"
proof -
  note i = a_invD [OF A]
  consider (free) "refs h = 1" "e \<notin> a_cached A" | (move) "refs h = 2" "in_cache h" "e \<in> set (a_used A)" | (keep) "2 < refs h \<or> 2 \<le> refs h \<and> \<not> in_cache h"
  proof (cases "e \<in> a_cached A")
    case True
    with e i(5) [of e] h that show ?thesis by (fastforce simp: a_cached_def)
  next
    case False
    with i(6) [OF h] that show ?thesis by fastforce
  qed
  then show ?thesis
  proof cases
    case free
    let ?A = "A\<lparr>a_handles := (a_handles A)(e := None), a_deleted := (h_key h, h_value h) # a_deleted A\<rparr>"
    have "a_charge ?A a = a_charge A a" if "a \<in> a_cached A" for a using that free by (auto simp: a_charge_def)
    then have "(\<Sum>a\<in>a_cached A. a_charge ?A a) = (\<Sum>a\<in>a_cached A. a_charge A a)" by (rule sum.cong [OF refl])
    then show ?thesis using A h free by (auto simp: a_unref_def Let_def a_inv_def a_cached_def)
  next
    case move
    let ?A = "A\<lparr>a_handles := (a_handles A)(e \<mapsto> h\<lparr>refs := 1\<rparr>), a_lru := a_lru A @ [e], a_used := remove1 e (a_used A)\<rparr>"
    have "a_charge ?A = a_charge A" using h by (auto simp: a_charge_def fun_eq_iff)
    moreover have "a_cached ?A = a_cached A" using i(2) move by (auto simp: a_cached_def)
    moreover have "a_unref e A = ?A" using h move by (simp add: a_unref_def)
    ultimately show ?thesis using A h move i(2) e by (auto simp: a_inv_def a_cached_def split: if_splits)
  next
    case keep
    let ?A = "A\<lparr>a_handles := (a_handles A)(e \<mapsto> h\<lparr>refs := refs h - 1\<rparr>)\<rparr>"
    have "a_charge ?A = a_charge A" using h by (auto simp: a_charge_def fun_eq_iff)
    moreover have "a_cached ?A = a_cached A" by (auto simp: a_cached_def)
    moreover have "a_unref e A = ?A" using h keep by (auto simp: a_unref_def)
    moreover have "refs h - 1 < 2 ^ 32" using i(7) [OF h] by linarith
    ultimately show ?thesis using A h keep e i(6) [OF h] by (auto simp: a_inv_def a_cached_def split: if_splits)
  qed
qed

lemma a_cached_detach: "a_inv A \<Longrightarrow> a_cached (a_detach e A) = a_cached A - {e}"
  using a_invD(1,2) [of A] by (auto simp: a_cached_def a_detach_def Let_def)

lemma a_inv_detach:
  assumes A: "a_inv A" and e: "e \<in> a_cached A"
  shows "a_inv (a_detach e A)"
proof -
  note i = a_invD [OF A]
  obtain h where h: "a_handles A e = Some h" "1 \<le> refs h" using a_cached_handle [OF A e] by blast
  let ?A = "a_detach e A"
  have ch: "a_charge ?A a = a_charge A a" for a using h by (auto simp: a_charge_def a_detach_def)
  have "(\<Sum>a\<in>a_cached A. a_charge A a) = a_charge A e + (\<Sum>a\<in>a_cached A - {e}. a_charge A a)"
    by (rule sum.remove) (use e in \<open>auto simp: a_cached_def\<close>)
  then have "a_usage ?A = (\<Sum>a\<in>a_cached ?A. a_charge ?A a)"
    using i(8) h unfolding ch a_cached_detach [OF A] by (simp add: a_detach_def a_charge_def [of A e])
  then show ?thesis
    using A h i(1,2,3) a_cached_detach [OF A, of e]
    by (auto simp: a_inv_def a_detach_def Let_def distinct_remove1 dest: notin_set_remove1 split: if_splits)
qed


section \<open>The operations of a shard refine the abstract ones\<close>

lemma repD:
  assumes "rep c A T"
  shows "capacity c = a_capacity A" "usage c = a_usage A" "handles c = a_handles A" "fresh c = a_fresh A" "deleted c = a_deleted A"
    "lists_rep c (a_lru A) (a_used A)" "\<exists>B. table_rep c B \<and> set (concat B) = T" "T \<subseteq> a_cached A" "a_unique A T"
    "handles c a \<noteq> None \<Longrightarrow> next_ptr c a \<noteq> a" "a_inv A"
  using assms by (simp_all add: rep_def)

lemma a_unique_frame:
  assumes "a_unique A T" and "\<And>a. a \<in> T \<Longrightarrow> map_option (\<lambda>h. (h_hash h, h_key h)) (a_handles A' a) = map_option (\<lambda>h. (h_hash h, h_key h)) (a_handles A a)"
  shows "a_unique A' T"
proof -
  have "a_matches A' key hash a = a_matches A key hash a" if "a \<in> T" for key hash a
    using assms(2) [OF that] by (auto simp: a_matches_def split: option.splits)
  with assms(1) show ?thesis by (simp add: a_unique_def)
qed

text \<open>A state that differs from a representing one only in the handles' counts and flags, and in the lists.\<close>

lemma rep_transfer:
  assumes r: "rep c A T" and i: "a_inv A'"
    and f: "capacity c' = a_capacity A'" "usage c' = a_usage A'" "handles c' = a_handles A'" "fresh c' = a_fresh A'" "deleted c' = a_deleted A'"
    and l: "lists_rep c' (a_lru A') (a_used A')"
    and t: "next_hash c' = next_hash c" "tb_list c' = tb_list c" "tb_length c' = tb_length c" "tb_elems c' = tb_elems c" "T \<subseteq> a_cached A'"
    and h: "\<And>a. a \<in> T \<Longrightarrow> map_option (\<lambda>h. (h_hash h, h_key h)) (a_handles A' a) = map_option (\<lambda>h. (h_hash h, h_key h)) (a_handles A a)"
    and n: "\<And>a. handles c' a \<noteq> None \<Longrightarrow> a \<notin> a_cached A' \<Longrightarrow> handles c a \<noteq> None \<and> next_ptr c' a = next_ptr c a"
  shows "rep c' A' T"
proof -
  note d = repD [OF r]
  obtain B where B: "table_rep c B" "set (concat B) = T" using d(7) by blast
  have "map_option h_hash (handles c' a) = map_option h_hash (handles c a)" if "a \<in> set (concat B)" for a
  proof -
    have "a \<in> T" using that B(2) by blast
    from h [OF this] f(3) d(3) show ?thesis by (cases "a_handles A a"; cases "a_handles A' a") simp_all
  qed
  then have "table_rep c' B" by (rule table_rep_frame [OF B(1) t(1-4)])
  moreover have "a_unique A' T" by (rule a_unique_frame [OF d(9) h])
  moreover have "next_ptr c' a \<noteq> a" if "handles c' a \<noteq> None" for a
    using lists_no_loop [OF l, of a] n [OF that] d(10) [of a] by (cases "a \<in> a_cached A'") (auto simp: a_cached_def)
  ultimately show ?thesis using f l t(5) i B(2) unfolding rep_def by blast
qed

lemma Unref_rep:
  assumes r: "rep c A T" and h: "a_handles A e = Some h" and e: "e \<notin> set (a_lru A)"
  shows "\<exists>c'. Unref e c = Some c' \<and> rep c' (a_unref e A) T"
proof -
  note d = repD [OF r] and i = a_invD [OF repD(11) [OF r]]
  have inv: "a_inv (a_unref e A)" and ca: "a_cached (a_unref e A) = a_cached A"
    using a_inv_unref [OF d(11) h e] a_cached_unref [OF d(11) h e] by auto
  have hc: "handles c e = Some h" using d(3) h by simp
  have rf: "1 \<le> refs h" "dec32 (refs h) = refs h - 1"
  proof -
    show "1 \<le> refs h" using i(6) [OF h] a_cached_handle [OF d(11), of e] h by (cases "e \<in> a_cached A") auto
    then show "dec32 (refs h) = refs h - 1" using i(7) [OF h] by simp
  qed
  let ?c1 = "c\<lparr>handles := (handles c)(e \<mapsto> h\<lparr>refs := refs h - 1\<rparr>)\<rparr>"
  have up: "upd_handle e (\<lambda>h. h\<lparr>refs := dec32 (refs h)\<rparr>) c = Some ?c1" using hc rf by (simp add: upd_handle_def)
  consider (free) "refs h = 1" "e \<notin> a_cached A" "\<not> in_cache h" | (move) "refs h = 2" "in_cache h" "e \<in> set (a_used A)"
    | (keep) "2 \<le> refs h" "\<not> (in_cache h \<and> refs h = 2)"
  proof (cases "e \<in> a_cached A")
    case True
    with e i(5) [of e] h that show ?thesis by (fastforce simp: a_cached_def)
  next
    case False
    with i(6) [OF h] that show ?thesis by fastforce
  qed
  then show ?thesis
  proof cases
    case free
    let ?c = "c\<lparr>handles := (handles c)(e := None), deleted := (h_key h, h_value h) # deleted c\<rparr>"
    have "handle_key e ?c1 = Some (h_key h)" using hc d(10) [of e] by (simp add: handle_key_def)
    then have "Unref e c = Some ?c" using hc up rf free by (simp add: Unref_def)
    moreover have "rep ?c (a_unref e A) T"
    proof (rule rep_transfer [OF r inv])
      show "lists_rep ?c (a_lru (a_unref e A)) (a_used (a_unref e A))"
        using lists_rep_frame [OF d(6), of ?c] d(6) h free by (auto simp: a_unref_def lists_rep_def a_cached_def)
    qed (use d h free ca in \<open>auto simp: a_unref_def split: if_splits\<close>)
    ultimately show ?thesis by blast
  next
    case move
    have ne: "dec32 (refs h) = 1" using rf move by simp
    have "lists_rep ?c1 (a_lru A) (a_used A)" by (rule lists_rep_frame [OF d(6)]) (use d(6) in \<open>auto simp: lists_rep_def\<close>)
    then obtain c3 where c3: "do { c \<leftarrow> LRU_Remove e ?c1; LRU_Append lru_head e c } = Some c3"
      "lists_rep c3 (remove1 e (a_lru A) @ [e]) (remove1 e (a_used A))" "same_but_lists ?c1 c3"
      "\<And>a. a \<notin> {lru_head, in_use_head} \<union> a_cached A \<Longrightarrow> next_ptr c3 a = next_ptr c a"
      using move_lists [of ?c1 "a_lru A" "a_used A" e lru_head "remove1 e (a_lru A) @ [e]" "remove1 e (a_used A)"] move
      unfolding a_cached_def by auto
    have "Unref e c = Some c3" using hc up c3(1) ne move by (simp add: Unref_def)
    moreover have "rep c3 (a_unref e A) T"
    proof (rule rep_transfer [OF r inv])
      show "lists_rep c3 (a_lru (a_unref e A)) (a_used (a_unref e A))" using c3(2) h move e by (simp add: a_unref_def remove1_idem)
      show "handles c a \<noteq> None \<and> next_ptr c3 a = next_ptr c a" if "handles c3 a \<noteq> None" "a \<notin> a_cached (a_unref e A)" for a
      proof -
        have "handles c a \<noteq> None" using that(1) c3(3) hc by (auto simp: same_but_lists_def split: if_splits)
        moreover from this have "a \<notin> {lru_head, in_use_head}" using i(7) [of a] d(3) by (auto simp: heads)
        ultimately show ?thesis using that(2) ca c3(4) [of a] by auto
      qed
    qed (use d h move c3(3) ca in \<open>auto simp: a_unref_def same_but_lists_def\<close>)
    ultimately show ?thesis by blast
  next
    case keep
    then have "Unref e c = Some ?c1" using hc up rf by (auto simp: Unref_def)
    moreover have "rep ?c1 (a_unref e A) T"
    proof (rule rep_transfer [OF r inv])
      show "lists_rep ?c1 (a_lru (a_unref e A)) (a_used (a_unref e A))"
        using lists_rep_frame [OF d(6), of ?c1] d(6) h keep by (auto simp: a_unref_def lists_rep_def)
    qed (use d h keep ca in \<open>auto simp: a_unref_def split: if_splits\<close>)
    ultimately show ?thesis by blast
  qed
qed


lemma Ref_rep:
  assumes r: "rep c A T" and e: "e \<in> a_cached A" and h: "a_handles A e = Some h" "refs h + 1 < 2 ^ 32"
  shows "\<exists>c'. Ref e c = Some c' \<and> rep c' (a_ref e A) T"
proof -
  note d = repD [OF r] and i = a_invD [OF repD(11) [OF r]]
  have inv: "a_inv (a_ref e A)" by (rule a_inv_ref [OF d(11) e h])
  have hc: "handles c e = Some h" using d(3) h by simp
  have ic: "in_cache h" using a_cached_handle [OF d(11) e] h by auto
  have rf: "refs h = 1 \<longleftrightarrow> e \<in> set (a_lru A)" using i(4,5) [of e] e h by (fastforce simp: a_cached_def)
  have inc: "inc32 (refs h) = refs h + 1" using h(2) by simp
  have "\<exists>c2. (if refs h = 1 \<and> in_cache h then do { c \<leftarrow> LRU_Remove e c; LRU_Append in_use_head e c } else Some c) = Some c2 \<and>
    lists_rep c2 (a_lru (a_ref e A)) (a_used (a_ref e A)) \<and> same_but_lists c c2 \<and>
    (\<forall>a. a \<notin> {lru_head, in_use_head} \<union> a_cached A \<longrightarrow> next_ptr c2 a = next_ptr c a)"
  proof (cases "e \<in> set (a_lru A)")
    case True
    then have "e \<notin> set (a_used A)" using i(3) by auto
    with True show ?thesis
      using move_lists [OF d(6), of e in_use_head "remove1 e (a_lru A)" "remove1 e (a_used A) @ [e]"] ic rf
      by (simp add: a_cached_def remove1_idem)
  next
    case False
    with d(6) rf show ?thesis by (simp add: same_but_lists_def remove1_idem)
  qed
  then obtain c2 where c2: "(if refs h = 1 \<and> in_cache h then do { c \<leftarrow> LRU_Remove e c; LRU_Append in_use_head e c } else Some c) = Some c2"
    "lists_rep c2 (a_lru (a_ref e A)) (a_used (a_ref e A))" "same_but_lists c c2"
    "\<And>a. a \<notin> {lru_head, in_use_head} \<union> a_cached A \<Longrightarrow> next_ptr c2 a = next_ptr c a" by blast
  let ?c = "c2\<lparr>handles := (handles c2)(e \<mapsto> h\<lparr>refs := refs h + 1\<rparr>)\<rparr>"
  have "Ref e c = Some ?c" using hc c2(1,3) inc by (simp add: Ref_def upd_handle_def same_but_lists_def)
  moreover have "rep ?c (a_ref e A) T"
  proof (rule rep_transfer [OF r inv])
    show "lists_rep ?c (a_lru (a_ref e A)) (a_used (a_ref e A))"
      by (rule lists_rep_frame [OF c2(2)]) (use c2(2) in \<open>auto simp: lists_rep_def\<close>)
    show "handles c a \<noteq> None \<and> next_ptr ?c a = next_ptr c a" if "handles ?c a \<noteq> None" "a \<notin> a_cached (a_ref e A)" for a
    proof -
      have a: "handles c a \<noteq> None" using that(1) c2(3) hc by (auto simp: same_but_lists_def split: if_splits)
      then have "a \<notin> {lru_head, in_use_head}" using i(7) [of a] d(3) by (auto simp: heads)
      with a that(2) c2(4) [of a] d(11) show ?thesis by auto
    qed
  qed (use d h c2(3) in \<open>auto simp: same_but_lists_def\<close>)
  ultimately show ?thesis by blast
qed

lemma FinishErase_rep:
  assumes r: "rep c A T" and e: "e \<in> a_cached A" "e \<notin> T"
  shows "\<exists>c'. FinishErase e c = Some (True, c') \<and> rep c' (a_erase e A) T"
proof -
  note d = repD [OF r] and i = a_invD [OF repD(11) [OF r]]
  obtain h where h: "a_handles A e = Some h" "in_cache h" using a_cached_handle [OF d(11) e(1)] by blast
  have hc: "handles c e = Some h" using d(3) h by simp
  have inv: "a_inv (a_detach e A)" by (rule a_inv_detach [OF d(11) e(1)])
  have ca: "a_cached (a_detach e A) = a_cached A - {e}" by (rule a_cached_detach [OF d(11)])
  obtain c2 where c2: "LRU_Remove e c = Some c2" "lists_rep c2 (remove1 e (a_lru A)) (remove1 e (a_used A))" "same_but_lists c c2"
    "\<And>a. a \<notin> {lru_head, in_use_head} \<union> (a_cached A - {e}) \<Longrightarrow> next_ptr c2 a = next_ptr c a"
    using LRU_Remove_lists [OF d(6), of e] e unfolding a_cached_def by blast
  let ?c = "c2\<lparr>handles := (handles c2)(e \<mapsto> h\<lparr>in_cache := False\<rparr>), usage := usage c2 - h_charge h\<rparr>"
  have "rep ?c (a_detach e A) T"
  proof (rule rep_transfer [OF r inv])
    show "lists_rep ?c (a_lru (a_detach e A)) (a_used (a_detach e A))"
      using lists_rep_frame [OF c2(2), of ?c] c2(2) by (auto simp: lists_rep_def a_detach_def Let_def)
    show "handles c a \<noteq> None \<and> next_ptr ?c a = next_ptr c a" if "handles ?c a \<noteq> None" "a \<notin> a_cached (a_detach e A)" for a
    proof -
      have a: "handles c a \<noteq> None" using that(1) c2(3) hc by (auto simp: same_but_lists_def split: if_splits)
      then have "a \<notin> {lru_head, in_use_head}" using i(7) [of a] d(3) by (auto simp: heads)
      with a that(2) c2(4) [of a] ca show ?thesis by auto
    qed
    show "T \<subseteq> a_cached (a_detach e A)" using d(8) e(2) ca by auto
  qed (use d h c2(3) e(2) in \<open>auto simp: same_but_lists_def a_detach_def\<close>)
  moreover have "a_handles (a_detach e A) e = Some (h\<lparr>in_cache := False\<rparr>)" using h by (simp add: a_detach_def)
  moreover have "e \<notin> set (a_lru (a_detach e A))" using ca by (auto simp: a_cached_def)
  ultimately obtain c' where c': "Unref e ?c = Some c'" "rep c' (a_erase e A) T"
    using Unref_rep [of ?c "a_detach e A" T e] unfolding a_erase_def by blast
  moreover have "e \<noteq> 0" using i(7) [OF h(1)] by auto
  ultimately show ?thesis using c2(1,3) hc h by (simp add: FinishErase_def upd_handle_def same_but_lists_def)
qed


lemma a_erase_simps [simp]:
  "a_capacity (a_erase e A) = a_capacity A" "a_fresh (a_erase e A) = a_fresh A"
  "a_lru (a_erase e A) = remove1 e (a_lru A)" "a_used (a_erase e A) = remove1 e (a_used A)"
  by (simp_all add: a_erase_def a_unref_def a_detach_def Let_def)

lemma a_cached_erase: "a_inv A \<Longrightarrow> a_cached (a_erase e A) = a_cached A - {e}"
  using a_invD(1,2) [of A] by (auto simp: a_cached_def)

lemma rep_matches: "rep c A T \<Longrightarrow> matches c = a_matches A"
  using repD(3) [of c A T] by (auto simp: matches_def a_matches_def fun_eq_iff split: option.splits)

lemma a_find_None: "a_find key hash A = None \<longleftrightarrow> (\<forall>a\<in>a_cached A. \<not> a_matches A key hash a)"
  by (auto simp: a_find_def find_None_iff a_cached_def)

lemma a_find_Some: "a_find key hash A = Some e \<Longrightarrow> e \<in> a_cached A \<and> a_matches A key hash e"
  using find_SomeD [of "a_matches A key hash" "a_lru A @ a_used A" e] by (simp add: a_find_def a_cached_def)

lemma a_find_unique: "a_unique A (a_cached A) \<Longrightarrow> e \<in> a_cached A \<Longrightarrow> a_matches A key hash e \<Longrightarrow> a_find key hash A = Some e"
  using a_find_None [of key hash A] a_find_Some [of key hash A] by (cases "a_find key hash A") (auto simp: a_unique_def)

lemma rep_elems:
  assumes r: "rep c A T" and "table_rep c B" "set (concat B) = T"
  shows "tb_elems c < 2 ^ 31"
proof -
  have "T \<subseteq> {3..<a_fresh A}" using repD(8) [OF r] a_cached_handle [OF repD(11) [OF r]] a_invD(7) [OF repD(11) [OF r]] by fastforce
  then have "card T \<le> a_fresh A - 3" using card_mono [of "{3..<a_fresh A}" T] by simp
  moreover have "tb_elems c = card T"
    using assms(2,3) table_distinct [of c B] distinct_card [of "concat B"] by (simp add: table_rep_def table_chains_def)
  moreover have "3 \<le> a_fresh A" "a_fresh A \<le> 2 ^ 31" using repD(11) [OF r] by (auto simp: a_inv_def)
  ultimately show ?thesis by linarith
qed

text \<open>A change of the table alone.\<close>

lemma rep_table:
  assumes r: "rep c A T" and s: "same_but_table c c'" and B: "table_rep c' B" "set (concat B) = T'"
    and T': "T' \<subseteq> a_cached A" "a_unique A T'"
  shows "rep c' A T'"
  using r s B T' unfolding rep_def same_but_table_def lists_rep_def by auto

lemma Table_Remove_rep:
  assumes r: "rep c A T"
  shows "\<exists>e c'. Table_Remove key hash c = Some (e, c') \<and> rep c' A (T - {e}) \<and>
    (e = 0 \<and> (\<forall>a\<in>T. \<not> a_matches A key hash a) \<or> e \<in> T \<and> a_matches A key hash e)"
proof -
  note d = repD [OF r]
  obtain B where B: "table_rep c B" "set (concat B) = T" using d(7) by blast
  have n: "next_ptr c a \<noteq> a" if "a \<in> set (concat B)" for a
    by (rule d(10)) (use that B(1) table_handles(1) [of c B a] in \<open>auto simp: table_rep_def\<close>)
  have "tb_elems c < 2 ^ 32" using rep_elems [OF r B] by simp
  from Table_Remove_table [OF B(1) n this, where key = key and hash = hash] obtain e c' B' where
    t: "Table_Remove key hash c = Some (e, c')" "table_rep c' B'" "same_but_table c c'" "set (concat B') = T - {e}"
      "e = 0 \<and> (\<forall>a\<in>T. \<not> a_matches A key hash a) \<or> e \<in> T \<and> a_matches A key hash e"
    unfolding B(2) rep_matches [OF r] by blast
  moreover have "rep c' A (T - {e})" by (rule rep_table [OF r t(3,2,4)]) (use d(8,9) in \<open>auto simp: a_unique_def\<close>)
  ultimately show ?thesis by blast
qed

lemma Table_Insert_rep:
  assumes r: "rep c A T" and a: "a \<in> a_cached A" "a \<notin> T" "a_handles A a = Some h"
  shows "\<exists>e c'. Table_Insert a c = Some (e, c') \<and> rep c' A (insert a (T - {e})) \<and>
    (e = 0 \<and> (\<forall>b\<in>T. \<not> a_matches A (h_key h) (h_hash h) b) \<or> e \<in> T \<and> a_matches A (h_key h) (h_hash h) e)"
proof -
  note d = repD [OF r]
  obtain B where B: "table_rep c B" "set (concat B) = T" using d(7) by blast
  have n: "next_ptr c a \<noteq> a" if "a \<in> set (concat B)" for a
    by (rule d(10)) (use that B(1) table_handles(1) [of c B a] in \<open>auto simp: table_rep_def\<close>)
  have ha: "handles c a = Some h" "next_ptr c a \<noteq> a" "a \<notin> set (concat B)" "a \<noteq> 0"
    using a d(3) d(10) [of a] B(2) a_invD(7) [OF d(11) a(3)] by auto
  from Table_Insert_table [OF B(1) n rep_elems [OF r B] ha] obtain e c' B' where
    t: "Table_Insert a c = Some (e, c')" "table_rep c' B'" "same_but_table c c'" "set (concat B') = insert a (T - {e})"
      "e = 0 \<and> (\<forall>b\<in>T. \<not> a_matches A (h_key h) (h_hash h) b) \<or> e \<in> T \<and> a_matches A (h_key h) (h_hash h) e"
    unfolding B(2) rep_matches [OF r] by blast
  have "a_unique A (insert a (T - {e}))"
  proof -
    have "b \<notin> T - {e}" if "a_matches A key hash a" "a_matches A key hash b" for key hash b
      using that a(3) t(5) d(9) by (auto simp: a_unique_def a_matches_def [of A _ _ a])
    with d(9) show ?thesis by (auto simp: a_unique_def)
  qed
  then have "rep c' A (insert a (T - {e}))" by (intro rep_table [OF r t(3,2,4)]) (use d(8) a in auto)
  with t show ?thesis by blast
qed

lemma Cache_Lookup_rep:
  assumes r: "represents c A" and b: "\<And>a h. a_handles A a = Some h \<Longrightarrow> refs h + 1 < 2 ^ 32"
  shows "\<exists>c'. Cache_Lookup key hash c = Some (fst (a_lookup key hash A), c') \<and> represents c' (snd (a_lookup key hash A))"
proof -
  note r = r [unfolded represents_def] and d = repD [OF r [unfolded represents_def]]
  obtain B where B: "table_rep c B" "set (concat B) = a_cached A" using d(7) by blast
  have n: "next_ptr c a \<noteq> a" if "a \<in> set (concat B)" for a
    by (rule d(10)) (use that B(1) table_handles(1) [of c B a] in \<open>auto simp: table_rep_def\<close>)
  from Table_Lookup_table [OF B(1) n, where key = key and hash = hash] obtain e where
    e: "Table_Lookup key hash c = Some e"
      "e = 0 \<and> (\<forall>a\<in>a_cached A. \<not> a_matches A key hash a) \<or> e \<in> a_cached A \<and> a_matches A key hash e"
    unfolding B(2) rep_matches [OF r] by blast
  from e(2) show ?thesis
  proof
    assume "e = 0 \<and> (\<forall>a\<in>a_cached A. \<not> a_matches A key hash a)"
    moreover from this have "a_find key hash A = None" by (simp add: a_find_None)
    ultimately show ?thesis using e(1) r by (simp add: Cache_Lookup_def a_lookup_def represents_def)
  next
    assume m: "e \<in> a_cached A \<and> a_matches A key hash e"
    then have f: "a_find key hash A = Some e" using a_find_unique [of A e key hash] d(9) by simp
    obtain h where h: "a_handles A e = Some h" using a_cached_handle [OF d(11)] m by blast
    from Ref_rep [OF r _ h b [OF h]] m obtain c' where "Ref e c = Some c'" "rep c' (a_ref e A) (a_cached A)" by blast
    moreover have "e \<noteq> 0" using a_invD(7) [OF d(11) h] by auto
    ultimately show ?thesis using e(1) f d(11) by (simp add: Cache_Lookup_def a_lookup_def represents_def)
  qed
qed

lemma Cache_Release_rep:
  assumes "represents c A" and "a_handles A e = Some h" and "e \<notin> set (a_lru A)"
  shows "\<exists>c'. Cache_Release e c = Some c' \<and> represents c' (a_unref e A)"
  using Unref_rep [of c A "a_cached A" e h] assms a_cached_unref [of A e h] repD(11) [of c A "a_cached A"]
  by (auto simp: Cache_Release_def represents_def)

lemma erase_rep:
  assumes r: "represents c A"
  shows "\<exists>e c' b. Table_Remove key hash c = Some (e, c') \<and>
    (\<exists>c''. FinishErase e c' = Some (b, c'') \<and> represents c'' (a_remove key hash A)) \<and> (b \<longleftrightarrow> a_find key hash A \<noteq> None)"
proof -
  note r = r [unfolded represents_def] and d = repD [OF r [unfolded represents_def]]
  obtain e c' where t: "Table_Remove key hash c = Some (e, c')" "rep c' A (a_cached A - {e})"
    "e = 0 \<and> (\<forall>a\<in>a_cached A. \<not> a_matches A key hash a) \<or> e \<in> a_cached A \<and> a_matches A key hash e"
    using Table_Remove_rep [OF r, where key = key and hash = hash] by blast
  from t(3) show ?thesis
  proof
    assume e: "e = 0 \<and> (\<forall>a\<in>a_cached A. \<not> a_matches A key hash a)"
    then have "a_find key hash A = None" by (simp add: a_find_None)
    moreover have "0 \<notin> a_cached A" using a_cached_handle [OF d(11), of 0] a_invD(7) [OF d(11), of 0] by auto
    ultimately show ?thesis using t e by (auto simp: FinishErase_def a_remove_def represents_def)
  next
    assume e: "e \<in> a_cached A \<and> a_matches A key hash e"
    then have f: "a_find key hash A = Some e" using a_find_unique [of A e key hash] d(9) by simp
    from FinishErase_rep [OF t(2), of e] e obtain c'' where
      "FinishErase e c' = Some (True, c'')" "rep c'' (a_erase e A) (a_cached A - {e})" by blast
    then show ?thesis using t(1) f d(11) by (auto simp: a_remove_def represents_def a_cached_erase)
  qed
qed

lemma Cache_Erase_rep:
  assumes "represents c A"
  shows "\<exists>c'. Cache_Erase key hash c = Some c' \<and> represents c' (a_remove key hash A)"
  using erase_rep [OF assms, where key = key and hash = hash] by (auto simp: Cache_Erase_def)


section \<open>Eviction, insertion, construction and destruction\<close>

lemma erase_oldest_rep:
  assumes r: "represents c A" and l: "a_lru A = e # es"
  shows "\<exists>c'. erase_oldest c = Some c' \<and> represents c' (a_erase e A)"
proof -
  note d = repD [OF r [unfolded represents_def]]
  have nx: "next_ptr c lru_head = e" using ring_first [of "next_ptr c" "prev_ptr c" lru_head "a_lru A"] d(6) l by (simp add: lists_rep_def)
  obtain h where h: "a_handles A e = Some h" "refs h = 1" using a_invD(4) [OF d(11), of e] l by auto
  have "a_find (h_key h) (h_hash h) A = Some e"
    by (rule a_find_unique [OF d(9)]) (use l h in \<open>auto simp: a_cached_def a_matches_def\<close>)
  then have "a_remove (h_key h) (h_hash h) A = a_erase e A" by (simp add: a_remove_def)
  with erase_rep [OF r, where key = "h_key h" and hash = "h_hash h"] \<open>a_find _ _ A = Some e\<close> obtain e' c' c'' where
    "Table_Remove (h_key h) (h_hash h) c = Some (e', c')" "FinishErase e' c' = Some (True, c'')" "represents c'' (a_erase e A)" by auto
  moreover have "handle_key e c = Some (h_key h)" "handles c e = Some h" using d(3) d(10) [of e] h by (auto simp: handle_key_def)
  ultimately show ?thesis using h nx by (simp add: erase_oldest_def)
qed

lemma lru_is_empty: "represents c A \<Longrightarrow> next_ptr c lru_head = lru_head \<longleftrightarrow> a_lru A = []"
  using repD(6) [of c A "a_cached A"] ring_is_empty [of "next_ptr c" "prev_ptr c" lru_head "a_lru A"]
  by (simp add: represents_def lists_rep_def)

lemma evict_loop_rep:
  "represents c A \<Longrightarrow> \<exists>c'. evict_loop c = Some c' \<and> represents c' (a_evict (a_lru A) A)"
proof (induction "a_lru A" arbitrary: c A)
  case Nil
  then show ?case using lru_is_empty [of c A] by (subst evict_loop.simps) auto
next
  case (Cons e es)
  note d = repD [OF Cons.prems [unfolded represents_def]]
  show ?case
  proof (cases "a_usage A > a_capacity A")
    case True
    obtain c1 where c1: "erase_oldest c = Some c1" "represents c1 (a_erase e A)"
      using erase_oldest_rep [OF Cons.prems, of e es] Cons.hyps(2) by auto
    from Cons.hyps(1) [OF _ c1(2)] obtain c' where
      "evict_loop c1 = Some c'" "represents c' (a_evict es (a_erase e A))" by (auto simp: Cons.hyps(2) [symmetric])
    then show ?thesis using True d(1,2) c1(1) lru_is_empty [OF Cons.prems] Cons.hyps(2) [symmetric]
      by (subst evict_loop.simps) auto
  next
    case False
    then show ?thesis using d(1,2) Cons.prems Cons.hyps(2) [symmetric] by (subst evict_loop.simps) auto
  qed
qed

lemma Cache_Prune_rep:
  "represents c A \<Longrightarrow> \<exists>c'. Cache_Prune c = Some c' \<and> represents c' (a_prune A)"
  unfolding Cache_Prune_def a_prune_def
proof (induction "a_lru A" arbitrary: c A)
  case Nil
  then show ?case using lru_is_empty [of c A] by (subst Prune_loop.simps) auto
next
  case (Cons e es)
  obtain c1 where c1: "erase_oldest c = Some c1" "represents c1 (a_erase e A)"
    using erase_oldest_rep [OF Cons.prems, of e es] Cons.hyps(2) by auto
  from Cons.hyps(1) [OF _ c1(2)] obtain c' where
    "Prune_loop c1 = Some c'" "represents c' (fold a_erase es (a_erase e A))" by (auto simp: Cons.hyps(2) [symmetric])
  then show ?case using c1(1) lru_is_empty [OF Cons.prems] Cons.hyps(2) [symmetric] by (subst Prune_loop.simps) auto
qed

lemma a_fresh_unused:
  assumes "a_inv A"
  shows "a_handles A (a_fresh A) = None" "a_fresh A \<notin> a_cached A"
  using a_invD(7) [OF assms, of "a_fresh A"] a_cached_handle [OF assms, of "a_fresh A"] by (cases "a_handles A (a_fresh A)"; auto)+

lemma a_inv_add:
  assumes A: "a_inv A" and f: "a_fresh A + 1 \<le> 2 ^ 31"
  shows "a_inv (a_add key hash val chg A)" "a_cached (a_add key hash val chg A) = insert (a_fresh A) (a_cached A)"
proof -
  let ?A = "a_add key hash val chg A"
  note fr = a_fresh_unused [OF A]
  show ca: "a_cached ?A = insert (a_fresh A) (a_cached A)" by (simp add: a_cached_def a_add_def)
  have "a_charge ?A a = a_charge A a" if "a \<in> a_cached A" for a using that fr by (auto simp: a_charge_def a_add_def)
  then have "(\<Sum>a\<in>a_cached A. a_charge ?A a) = (\<Sum>a\<in>a_cached A. a_charge A a)" by (rule sum.cong [OF refl])
  moreover have "a_charge ?A (a_fresh A) = chg" by (simp add: a_charge_def a_add_def)
  moreover have "finite (a_cached A)" by (simp add: a_cached_def)
  ultimately have "a_usage ?A = (\<Sum>a\<in>a_cached ?A. a_charge ?A a)"
    using fr(2) a_invD(8) [OF A] unfolding ca by (simp add: a_add_def)
  moreover have "distinct (a_lru ?A @ a_used ?A)" using A fr(2) by (auto simp: a_add_def a_inv_def a_cached_def)
  moreover have "3 \<le> a \<and> a < a_fresh ?A \<and> refs h < 2 ^ 32" if "a_handles ?A a = Some h" for a h
    using that a_invD(7) [OF A, of a h] A by (auto simp: a_add_def a_inv_def less_SucI split: if_splits)
  moreover have "a_fresh ?A \<le> 2 ^ 31" "3 \<le> a_fresh ?A" using f A by (auto simp: a_add_def a_inv_def)
  ultimately show "a_inv ?A"
    using a_invD(4-6) [OF A] fr unfolding a_inv_def [of ?A] ca by (auto simp: a_add_def a_cached_def)
qed

lemma a_inv_alloc:
  assumes A: "a_inv A" and f: "a_fresh A + 1 \<le> 2 ^ 31" and h: "\<not> in_cache h" "refs h = 1"
  shows "a_inv (A\<lparr>a_handles := (a_handles A)(a_fresh A \<mapsto> h), a_fresh := a_fresh A + 1\<rparr>)" (is "a_inv ?A")
proof -
  note fr = a_fresh_unused [OF A]
  have ca: "a_cached ?A = a_cached A" by (simp add: a_cached_def)
  have "a_charge ?A a = a_charge A a" if "a \<in> a_cached A" for a using that fr by (auto simp: a_charge_def)
  then have "(\<Sum>a\<in>a_cached A. a_charge ?A a) = (\<Sum>a\<in>a_cached A. a_charge A a)" by (rule sum.cong [OF refl])
  moreover have "3 \<le> a \<and> a < a_fresh ?A \<and> refs h' < 2 ^ 32" if "a_handles ?A a = Some h'" for a h'
    using that a_invD(7) [OF A, of a h'] A h by (auto simp: a_inv_def less_SucI split: if_splits)
  moreover have "3 \<le> a_fresh ?A" using A by (simp add: a_inv_def)
  ultimately show ?thesis using A fr f h unfolding a_inv_def [of ?A] ca by (auto simp: a_inv_def a_cached_def)
qed


lemma insert_cached_rep:
  fixes key :: 'k and val :: 'v
  assumes r: "represents c A" and f: "a_fresh A + 1 \<le> 2 ^ 31"
    and c0: "c0 = c\<lparr>fresh := a_fresh A + 1, handles := (a_handles A)(a_fresh A \<mapsto>
      \<lparr>h_value = val, h_charge = chg, h_key = key, in_cache = True, refs = 2, h_hash = hash\<rparr>)\<rparr>"
  shows "\<exists>c'. do { c \<leftarrow> LRU_Append in_use_head (a_fresh A) c0;
      (old, c) \<leftarrow> Table_Insert (a_fresh A) (c\<lparr>usage := usage c + chg\<rparr>); (_, c) \<leftarrow> FinishErase old c; Some c } = Some c' \<and>
    represents c' (case a_find key hash A of None \<Rightarrow> a_add key hash val chg A | Some old \<Rightarrow> a_erase old (a_add key hash val chg A))"
proof -
  note r' = r [unfolded represents_def]
  note d = repD [OF r']
  note fr = a_fresh_unused [OF d(11)]
  let ?A = "a_add key hash val chg A" and ?e = "a_fresh A"
  note inv = a_inv_add [OF d(11) f, of key hash val chg]
  have "lists_rep c0 (a_lru A) (a_used A)"
    by (rule lists_rep_frame [OF d(6)]) (use d(3,6) in \<open>auto simp: lists_rep_def c0\<close>)
  then have "\<exists>c'. LRU_Append in_use_head ?e c0 = Some c' \<and> lists_rep c' (a_lru A) (a_used A @ [?e]) \<and> same_but_lists c0 c' \<and>
    (\<forall>a. a \<notin> {lru_head, in_use_head} \<union> (set (a_lru A) \<union> set (a_used A @ [?e])) \<longrightarrow> next_ptr c' a = next_ptr c0 a)"
    by (rule LRU_Append_lists) (use fr d(4,11) in \<open>auto simp: c0 a_cached_def a_inv_def\<close>)
  then obtain c1 where c1: "LRU_Append in_use_head ?e c0 = Some c1" "lists_rep c1 (a_lru A) (a_used A @ [?e])" "same_but_lists c0 c1"
    "\<And>a. a \<notin> {lru_head, in_use_head} \<union> a_cached ?A \<Longrightarrow> next_ptr c1 a = next_ptr c a"
    unfolding inv(2) by (auto simp: a_cached_def c0)
  let ?c1 = "c1\<lparr>usage := usage c1 + chg\<rparr>"
  have r1: "rep ?c1 ?A (a_cached A)"
  proof (rule rep_transfer [OF r' inv(1)])
    show "lists_rep ?c1 (a_lru ?A) (a_used ?A)"
      using lists_rep_frame [OF c1(2), of ?c1] c1(2) by (auto simp: a_add_def lists_rep_def)
    show "handles c a \<noteq> None \<and> next_ptr ?c1 a = next_ptr c a" if "handles ?c1 a \<noteq> None" "a \<notin> a_cached ?A" for a
    proof -
      have a: "handles c a \<noteq> None" using that c1(3) d(3) inv(2) by (auto simp: same_but_lists_def c0 split: if_splits)
      then have "a \<notin> {lru_head, in_use_head}" using a_invD(7) [OF d(11), of a] d(3) by (auto simp: heads)
      with a that(2) c1(4) [of a] show ?thesis by auto
    qed
    show "a_cached A \<subseteq> a_cached ?A" using inv(2) by auto
  qed (use d(1-5) c1(3) fr in \<open>auto simp: same_but_lists_def c0 a_add_def\<close>)
  have mt: "a_matches ?A key hash a = a_matches A key hash a" if "a \<in> a_cached A" for a
    using that fr by (auto simp: a_matches_def a_add_def)
  have he: "a_handles ?A ?e = Some \<lparr>h_value = val, h_charge = chg, h_key = key, in_cache = True, refs = 2, h_hash = hash\<rparr>"
    by (simp add: a_add_def)
  obtain old c2 where t: "Table_Insert ?e ?c1 = Some (old, c2)" "rep c2 ?A (insert ?e (a_cached A - {old}))"
    "old = 0 \<and> (\<forall>b\<in>a_cached A. \<not> a_matches ?A key hash b) \<or> old \<in> a_cached A \<and> a_matches ?A key hash old"
    using Table_Insert_rep [OF r1 _ fr(2) he] inv(2) by auto
  from t(3) show ?thesis
  proof
    assume o: "old = 0 \<and> (\<forall>b\<in>a_cached A. \<not> a_matches ?A key hash b)"
    then have "a_find key hash A = None" using mt by (auto simp: a_find_None)
    moreover have "0 \<notin> a_cached A" using a_cached_handle [OF d(11), of 0] a_invD(7) [OF d(11), of 0] by auto
    ultimately show ?thesis using o t(1,2) c1(1) inv(2) by (simp add: represents_def FinishErase_def)
  next
    assume o: "old \<in> a_cached A \<and> a_matches ?A key hash old"
    then have fd: "a_find key hash A = Some old" using a_find_unique [OF d(9), of old key hash] mt [of old] by simp
    have "old \<noteq> ?e" using o fr by auto
    with FinishErase_rep [OF t(2), of old] o inv(2) obtain c3 where
      c3: "FinishErase old c2 = Some (True, c3)" "rep c3 (a_erase old ?A) (insert ?e (a_cached A - {old}))" by auto
    have "a_cached (a_erase old ?A) = insert ?e (a_cached A - {old})"
      using a_cached_erase [OF inv(1), of old] inv(2) \<open>old \<noteq> ?e\<close> by auto
    then show ?thesis using fd c3 t(1) c1(1) by (simp add: represents_def)
  qed
qed

lemma inc32_one: "inc32 1 = 2"
  by (simp add: inc32_def)

lemma Cache_Insert_rep:
  fixes key :: 'k and val :: 'v
  assumes r: "represents c A" and f: "a_fresh A + 1 \<le> 2 ^ 31"
  shows "\<exists>c'. Cache_Insert key hash val chg c = Some (a_fresh A, c') \<and> represents c' (a_insert key hash val chg A)"
proof -
  note r' = r [unfolded represents_def]
  note d = repD [OF r']
  note fr = a_fresh_unused [OF d(11)]
  let ?h = "\<lparr>h_value = val, h_charge = chg, h_key = key, in_cache = False, refs = 1, h_hash = hash\<rparr>"
  define A' where "A' = (if a_capacity A > 0
     then case a_find key hash A of None \<Rightarrow> a_add key hash val chg A | Some old \<Rightarrow> a_erase old (a_add key hash val chg A)
     else A\<lparr>a_handles := (a_handles A)(a_fresh A \<mapsto> ?h), a_fresh := a_fresh A + 1\<rparr>)"
  have ai: "a_insert key hash val chg A = a_evict (a_lru A') A'" by (simp add: a_insert_def A'_def Let_def)
  show ?thesis
  proof (cases "a_capacity A > 0")
    case True
    define c0 where "c0 = c\<lparr>fresh := a_fresh A + 1, handles := (a_handles A)(a_fresh A \<mapsto>
      \<lparr>h_value = val, h_charge = chg, h_key = key, in_cache = True, refs = 2, h_hash = hash\<rparr>)\<rparr>"
    from insert_cached_rep [OF r f c0_def] True obtain c1 where
      c1: "do { c \<leftarrow> LRU_Append in_use_head (a_fresh A) c0; (old, c) \<leftarrow> Table_Insert (a_fresh A) (c\<lparr>usage := usage c + chg\<rparr>);
             (_, c) \<leftarrow> FinishErase old c; Some c } = Some c1" "represents c1 A'"
      by (auto simp: A'_def)
    obtain c' where "evict_loop c1 = Some c'" "represents c' (a_evict (a_lru A') A')" using evict_loop_rep [OF c1(2)] by blast
    moreover from c1(1) obtain y old z b where
      "LRU_Append in_use_head (a_fresh A) c0 = Some y" "Table_Insert (a_fresh A) (y\<lparr>usage := usage y + chg\<rparr>) = Some (old, z)"
      "FinishErase old z = Some (b, c1)"
      by (auto simp: Option.bind_eq_Some_conv)
    then have "Cache_Insert key hash val chg c = do { c \<leftarrow> evict_loop c1; Some (a_fresh A, c) }"
      using True d(1,3,4) inc32_one by (simp add: Cache_Insert_def upd_handle_def c0_def Let_def del: inc32_small)
    ultimately show ?thesis using ai by simp
  next
    case False
    let ?c = "c\<lparr>fresh := a_fresh A + 1, handles := (a_handles A)(a_fresh A \<mapsto> ?h), next_ptr := (next_ptr c)(a_fresh A := 0)\<rparr>"
    have A': "A' = A\<lparr>a_handles := (a_handles A)(a_fresh A \<mapsto> ?h), a_fresh := a_fresh A + 1\<rparr>" using False by (simp add: A'_def)
    have inv: "a_inv A'" using a_inv_alloc [OF d(11) f, of ?h] by (simp add: A')
    have ca: "a_cached A' = a_cached A" by (simp add: A' a_cached_def)
    have ge: "3 \<le> a_fresh A" using d(11) by (simp add: a_inv_def)
    obtain B where B: "table_rep c B" "set (concat B) = a_cached A" using d(7) by blast
    have "lists_rep ?c (a_lru A) (a_used A)"
    proof -
      have "ring (next_ptr ?c) (prev_ptr ?c) h xs" if "ring (next_ptr c) (prev_ptr c) h xs" "h \<noteq> a_fresh A" "a_fresh A \<notin> set xs" for h xs
        using that by (subst ring_frame [of h xs _ "next_ptr c" _ "prev_ptr c"]) auto
      then show ?thesis using d(3,6) fr(2) ge by (auto simp: lists_rep_def a_cached_def heads)
    qed
    moreover have "table_rep ?c B" by (rule table_rep_frame [OF B(1)]) (use fr(2) B(2) d(3) in auto)
    moreover have "a_unique A' (a_cached A)" by (rule a_unique_frame [OF d(9)]) (use fr(2) in \<open>auto simp: A'\<close>)
    moreover have "next_ptr ?c a \<noteq> a" if "handles ?c a \<noteq> None" for a using that d(3) d(10) [of a] ge by (auto split: if_splits)
    ultimately have "rep ?c A' (a_cached A')" using d(1-5) B(2) inv unfolding rep_def ca by (auto simp: A')
    then obtain c' where "evict_loop ?c = Some c'" "represents c' (a_evict (a_lru A') A')"
      using evict_loop_rep [of ?c A'] by (auto simp: represents_def)
    moreover have "Cache_Insert key hash val chg c = do { c \<leftarrow> evict_loop ?c; Some (a_fresh A, c) }"
      using False d(1,3,4) by (simp add: Cache_Insert_def Let_def)
    ultimately show ?thesis using ai by simp
  qed
qed


definition a_empty :: "64 word \<Rightarrow> ('k, 'v) acache" where
  "a_empty cap = \<lparr>a_capacity = cap, a_usage = 0, a_handles = (\<lambda>_. None), a_lru = [], a_used = [], a_fresh = 3, a_deleted = []\<rparr>"

lemma LRUCache_rep: "\<exists>c :: ('k, 'v) lru_cache. LRUCache = Some c \<and> represents (SetCapacity cap c) (a_empty cap)"
proof -
  let ?c = "\<lparr>capacity = 0, usage = 0, handles = (\<lambda>_. None), next_ptr = id, prev_ptr = id, next_hash = (\<lambda>_. 0), fresh = 3,
       tb_length = 0, tb_elems = 0, tb_list = [], deleted = []\<rparr> :: ('k, 'v) lru_cache"
  obtain c B where c: "Resize ?c = Some c" "table_rep c B" "set (concat B) = {}" "same_but_table ?c c"
    using Resize_table [of ?c "[]"] by (auto simp: table_chains_def bucket_chains_def at_home_def)
  have "table_rep (SetCapacity cap c) B" by (rule table_rep_frame [OF c(2)]) (simp_all add: SetCapacity_def)
  with c(3,4) have "represents (SetCapacity cap c) (a_empty cap)"
    unfolding represents_def rep_def
    by (auto simp: a_empty_def SetCapacity_def same_but_table_def lists_rep_def a_cached_def a_unique_def a_inv_def intro!: exI [of _ B])
  with c(1) show ?thesis by (auto simp: LRUCache_def)
qed

definition a_entry :: "('k, 'v) acache \<Rightarrow> addr \<Rightarrow> 'k \<times> 'v" where
  "a_entry A a = (let h = the (a_handles A a) in (h_key h, h_value h))"

lemma destroy_loop_frees:
  assumes "links (next_ptr c) (prev_ptr c) (es @ [lru_head])" and "distinct es" and "lru_head \<notin> set es"
    and "\<And>a. a \<in> set es \<Longrightarrow> next_ptr c a \<noteq> a \<and> (\<exists>h. handles c a = Some h \<and> in_cache h \<and> refs h = 1)"
  shows "\<exists>c'. destroy_loop (hd (es @ [lru_head])) c = Some c' \<and> handles c' = (\<lambda>a. if a \<in> set es then None else handles c a) \<and>
    deleted c' = rev (map (\<lambda>a. (h_key (the (handles c a)), h_value (the (handles c a)))) es) @ deleted c"
  using assms
proof (induction es arbitrary: c)
  case Nil
  then show ?case by (subst destroy_loop.simps) simp
next
  case (Cons e es)
  obtain h where h: "handles c e = Some h" "in_cache h" "refs h = 1" "next_ptr c e \<noteq> e" using Cons.prems(4) [of e] by auto
  have nx: "next_ptr c e = hd (es @ [lru_head])" and lk: "links (next_ptr c) (prev_ptr c) (es @ [lru_head])"
    using Cons.prems(1) by (simp_all add: links_Cons)
  let ?c = "c\<lparr>handles := (handles c)(e := None), deleted := (h_key h, h_value h) # deleted c\<rparr>"
  have un: "Unref e (c\<lparr>handles := (handles c)(e \<mapsto> h\<lparr>in_cache := False\<rparr>)\<rparr>) = Some ?c"
    using h by (simp add: Unref_def upd_handle_def handle_key_def dec32_def)
  have "\<exists>c'. destroy_loop (hd (es @ [lru_head])) ?c = Some c' \<and> handles c' = (\<lambda>a. if a \<in> set es then None else handles ?c a) \<and>
    deleted c' = rev (map (\<lambda>a. (h_key (the (handles ?c a)), h_value (the (handles ?c a)))) es) @ deleted ?c"
    by (rule Cons.IH) (use Cons.prems lk in auto)
  then obtain c' where c': "destroy_loop (next_ptr c e) ?c = Some c'" "handles c' = (\<lambda>a. if a \<in> set es then None else handles ?c a)"
    "deleted c' = rev (map (\<lambda>a. (h_key (the (handles ?c a)), h_value (the (handles ?c a)))) es) @ deleted ?c"
    using nx by auto
  have "destroy_loop e c = Some c'" using h c'(1) un Cons.prems(3) by (subst destroy_loop.simps) (simp add: upd_handle_def Let_def)
  moreover have "handles c' = (\<lambda>a. if a \<in> set (e # es) then None else handles c a)" using c'(2) by auto
  moreover have "map (\<lambda>a. (h_key (the (handles ?c a)), h_value (the (handles ?c a)))) es = map (\<lambda>a. (h_key (the (handles c a)), h_value (the (handles c a)))) es"
    using Cons.prems(2) by auto
  ultimately show ?case using c'(3) h by simp
qed

lemma LRUCache_destroy_rep:
  assumes r: "represents c A" and u: "a_used A = []"
  shows "\<exists>c'. LRUCache_destroy c = Some c' \<and> handles c' = (\<lambda>a. if a \<in> set (a_lru A) then None else a_handles A a) \<and>
    deleted c' = rev (map (a_entry A) (a_lru A)) @ a_deleted A"
proof -
  note d = repD [OF r [unfolded represents_def]]
  from d(6) have rg: "ring (next_ptr c) (prev_ptr c) lru_head (a_lru A)" "ring (next_ptr c) (prev_ptr c) in_use_head []"
    using u by (auto simp: lists_rep_def)
  have "\<exists>c'. destroy_loop (hd (a_lru A @ [lru_head])) c = Some c' \<and> handles c' = (\<lambda>a. if a \<in> set (a_lru A) then None else handles c a) \<and>
    deleted c' = rev (map (\<lambda>a. (h_key (the (handles c a)), h_value (the (handles c a)))) (a_lru A)) @ deleted c"
  proof (rule destroy_loop_frees)
    show "links (next_ptr c) (prev_ptr c) (a_lru A @ [lru_head])" using rg(1) by (simp add: ring_def links_Cons)
    show "distinct (a_lru A)" "lru_head \<notin> set (a_lru A)" using rg(1) by (auto simp: ring_def)
    fix a assume a: "a \<in> set (a_lru A)"
    then obtain h where "a_handles A a = Some h" "in_cache h" "refs h = 1" using a_invD(4) [OF d(11)] by blast
    with d(3) d(10) [of a] show "next_ptr c a \<noteq> a \<and> (\<exists>h. handles c a = Some h \<and> in_cache h \<and> refs h = 1)" by auto
  qed
  then show ?thesis unfolding d(3,5) using rg(2) ring_first [OF rg(1)] a_entry_def [of A, abs_def] by (simp add: LRUCache_destroy_def Let_def)
qed

end
