(* ===== verification/Lru_Cache_Client.thy ===== *)
theory Lru_Cache_Client
  imports Lru_Cache_Spec
begin

text \<open>
  What the clients of the sharded cache can rely on, whatever they do: no operation fails as long as
  clients release only what they hold, every entry is handed to its deleter exactly once, an entry that was
  inserted is found, and eviction takes the least recently used entries first and stops as early as it can.
\<close>

section \<open>References and entries\<close>

definition held :: "('k, 'v) acache \<Rightarrow> addr \<Rightarrow> nat" where
  "held A a = (case a_handles A a of None \<Rightarrow> 0 | Some h \<Rightarrow> refs h - (if in_cache h then 1 else 0))"

definition live :: "('k, 'v) acache \<Rightarrow> ('k \<times> 'v) multiset" where
  "live A = image_mset (a_entry A) (mset_set (dom (a_handles A)))"

definition accounted :: "('k, 'v) acache \<Rightarrow> ('k \<times> 'v) multiset" where
  "accounted A = mset (a_deleted A) + live A"

lemma finite_handles: "a_inv A \<Longrightarrow> finite (dom (a_handles A))"
  by (rule finite_subset [of _ "{..<a_fresh A}"]) (auto dest: a_invD(7))

lemma live_cong:
  assumes "dom (a_handles A') = dom (a_handles A)" and "\<And>a. a \<in> dom (a_handles A) \<Longrightarrow> a_entry A' a = a_entry A a"
  shows "live A' = live A"
proof (cases "finite (dom (a_handles A))")
  case True
  then show ?thesis unfolding live_def assms(1) by (intro image_mset_cong) (simp add: assms(2))
qed (simp add: live_def assms(1))

lemma a_inv_refs: "a_inv A \<Longrightarrow> a_handles A a = Some h \<Longrightarrow> 1 \<le> refs h"
  using a_invD(6) [of A a h] a_cached_handle [of A a] by (cases "a \<in> a_cached A") auto

lemma held_lru: "a_inv A \<Longrightarrow> a \<in> set (a_lru A) \<Longrightarrow> held A a = 0"
  using a_invD(4) [of A a] by (auto simp: held_def)

lemma held_ref:
  assumes "a_inv A" and "a_handles A e = Some h"
  shows "held (a_ref e A) = (held A)(e := held A e + 1)" "accounted (a_ref e A) = accounted A"
proof -
  show "held (a_ref e A) = (held A)(e := held A e + 1)"
    using assms a_inv_refs [OF assms] by (auto simp: held_def fun_eq_iff)
  have "live (a_ref e A) = live A" by (rule live_cong) (use assms in \<open>auto simp: a_entry_def\<close>)
  then show "accounted (a_ref e A) = accounted A" by (simp add: accounted_def)
qed

lemma held_unref:
  assumes "a_inv A" and h: "a_handles A e = Some h"
  shows "held (a_unref e A) = (held A)(e := held A e - 1)" "accounted (a_unref e A) = accounted A"
proof -
  show "held (a_unref e A) = (held A)(e := held A e - 1)"
    using h by (auto simp: held_def fun_eq_iff a_unref_def Let_def)
  show "accounted (a_unref e A) = accounted A"
  proof (cases "refs h = 1")
    case True
    let ?A = "A\<lparr>a_handles := (a_handles A)(e := None), a_deleted := (h_key h, h_value h) # a_deleted A\<rparr>"
    have un: "a_unref e A = ?A" using h True by (simp add: a_unref_def)
    have "mset_set (dom (a_handles A)) = add_mset e (mset_set (dom (a_handles A) - {e}))"
      by (rule mset_set.remove) (use finite_handles [OF assms(1)] h in auto)
    moreover have "image_mset (a_entry ?A) (mset_set (dom (a_handles A) - {e})) = image_mset (a_entry A) (mset_set (dom (a_handles A) - {e}))"
      using finite_handles [OF assms(1)] by (intro image_mset_cong) (auto simp: a_entry_def)
    moreover have "a_entry A e = (h_key h, h_value h)" using h by (simp add: a_entry_def)
    ultimately show ?thesis unfolding un by (simp add: accounted_def live_def)
  next
    case False
    have "live (a_unref e A) = live A"
      by (rule live_cong) (use h False in \<open>auto simp: a_entry_def a_unref_def Let_def split: if_splits\<close>)
    then show ?thesis using h False by (simp add: accounted_def a_unref_def Let_def)
  qed
qed

lemma held_erase:
  assumes A: "a_inv A" and e: "e \<in> a_cached A"
  shows "held (a_erase e A) = held A" "accounted (a_erase e A) = accounted A" "a_inv (a_erase e A)"
proof -
  obtain h where h: "a_handles A e = Some h" "in_cache h" "1 \<le> refs h" using a_cached_handle [OF A e] by blast
  have h': "a_handles (a_detach e A) e = Some (h\<lparr>in_cache := False\<rparr>)" using h by (simp add: a_detach_def)
  have inv: "a_inv (a_detach e A)" by (rule a_inv_detach [OF A e])
  have "held (a_detach e A) = (held A)(e := held A e + 1)" using h by (auto simp: held_def a_detach_def fun_eq_iff)
  then show "held (a_erase e A) = held A" using held_unref(1) [OF inv h'] by (simp add: a_erase_def)
  have "live (a_detach e A) = live A" by (rule live_cong) (use h in \<open>auto simp: a_entry_def a_detach_def\<close>)
  then have "accounted (a_detach e A) = accounted A" by (simp add: accounted_def a_detach_def Let_def)
  then show "accounted (a_erase e A) = accounted A" using held_unref(2) [OF inv h'] by (simp add: a_erase_def)
  have "e \<notin> set (a_lru (a_detach e A))" using a_cached_detach [OF A, of e] by (auto simp: a_cached_def)
  then show "a_inv (a_erase e A)" unfolding a_erase_def by (rule a_inv_unref [OF inv h'])
qed

definition same_entry :: "('k, 'v) lru_handle \<Rightarrow> ('k, 'v) lru_handle \<Rightarrow> bool" where
  "same_entry h h' \<longleftrightarrow> h_hash h' = h_hash h \<and> h_key h' = h_key h \<and> h_value h' = h_value h"

lemma same_entry_refl [simp]: "same_entry h h"
  by (simp add: same_entry_def)

lemma same_entry_trans: "same_entry h h' \<Longrightarrow> same_entry h' h'' \<Longrightarrow> same_entry h h''"
  by (simp add: same_entry_def)

lemma same_entry_hash: "same_entry h h' \<Longrightarrow> h_hash h' = h_hash h"
  by (simp add: same_entry_def)

lemma erase_handles: "a_handles (a_erase e A) a = Some h \<Longrightarrow> e \<in> dom (a_handles A) \<Longrightarrow> \<exists>h'. a_handles A a = Some h' \<and> same_entry h h'"
  by (auto simp: same_entry_def a_erase_def a_detach_def a_unref_def Let_def split: if_splits)

text \<open>A sequence of erasures of entries nobody refers to.\<close>

inductive erases :: "('k, 'v) acache \<Rightarrow> ('k, 'v) acache \<Rightarrow> bool" where
  erases_refl: "erases A A"
| erases_step: "erases A B \<Longrightarrow> e \<in> a_cached B \<Longrightarrow> erases A (a_erase e B)"

lemma erases_keep:
  assumes "erases A B" and "a_inv A"
  shows "a_inv B \<and> held B = held A \<and> accounted B = accounted A \<and> a_capacity B = a_capacity A \<and> a_fresh B = a_fresh A \<and>
    (\<forall>a h. a_handles B a = Some h \<longrightarrow> (\<exists>h'. a_handles A a = Some h' \<and> same_entry h h'))"
  using assms
proof induction
  case (erases_step A B e)
  have "e \<in> dom (a_handles B)" using a_cached_handle [of B e] erases_step by auto
  with erases_step erase_handles [of e B] show ?case by (auto simp: held_erase) (meson same_entry_trans)
qed auto

lemma erases_trans: "erases B C \<Longrightarrow> erases A B \<Longrightarrow> erases A C"
  by (induction rule: erases.induct) (auto intro: erases_step)

lemma erases_remove: "erases A (a_remove key hash A)"
  by (auto simp: a_remove_def intro: erases_refl erases_step [OF erases_refl] dest: a_find_Some split: option.split)

lemma erases_evict: "a_inv A \<Longrightarrow> a_lru A = es \<Longrightarrow> erases A (a_evict es A)"
proof (induction es arbitrary: A)
  case (Cons e es)
  then have e: "e \<in> a_cached A" by (simp add: a_cached_def)
  have "erases (a_erase e A) (a_evict es (a_erase e A))"
    by (rule Cons.IH) (use Cons.prems held_erase(3) [OF Cons.prems(1) e] in auto)
  then have "erases A (a_evict es (a_erase e A))"
    by (rule erases_trans) (rule erases_step [OF erases_refl e])
  then show ?case by (auto intro: erases_refl)
qed (auto intro: erases_refl)

lemma erases_prune: "a_inv A \<Longrightarrow> erases A (a_prune A)"
  unfolding a_prune_def
proof (induction "a_lru A" arbitrary: A)
  case (Cons e es)
  have e: "e \<in> a_cached A" using Cons.hyps(2) by (simp add: a_cached_def flip: Cons.hyps(2))
  have "erases (a_erase e A) (fold a_erase (a_lru (a_erase e A)) (a_erase e A))"
    by (rule Cons.hyps(1)) (use held_erase(3) [OF Cons.prems e] in \<open>auto simp flip: Cons.hyps(2)\<close>)
  then have "erases A (fold a_erase es (a_erase e A))"
    by (intro erases_trans [OF _ erases_step [OF erases_refl e]]) (simp flip: Cons.hyps(2))
  then show ?case by (simp flip: Cons.hyps(2))
qed (auto intro: erases_refl)


lemma held_alloc:
  assumes A: "a_inv A" and h: "refs h = (if in_cache h then 2 else 1)"
    and A': "a_handles A' = (a_handles A)(a_fresh A \<mapsto> h)" "a_deleted A' = a_deleted A"
  shows "held A' = (held A)(a_fresh A := 1)" "accounted A' = add_mset (h_key h, h_value h) (accounted A)"
proof -
  show "held A' = (held A)(a_fresh A := 1)" using h A' by (auto simp: held_def fun_eq_iff)
  have n: "a_fresh A \<notin> dom (a_handles A)" using a_fresh_unused(1) [OF A] by auto
  have "mset_set (dom (a_handles A')) = add_mset (a_fresh A) (mset_set (dom (a_handles A)))"
    using finite_handles [OF A] n by (simp add: A')
  moreover have "image_mset (a_entry A') (mset_set (dom (a_handles A))) = image_mset (a_entry A) (mset_set (dom (a_handles A)))"
    using finite_handles [OF A] n by (intro image_mset_cong) (auto simp: a_entry_def A')
  moreover have "a_entry A' (a_fresh A) = (h_key h, h_value h)" by (simp add: a_entry_def A')
  ultimately show "accounted A' = add_mset (h_key h, h_value h) (accounted A)" by (simp add: accounted_def live_def A')
qed

lemma held_insert:
  fixes key :: 'k and val :: 'v and hash :: "32 word" and chg :: "64 word"
  assumes A: "a_inv A" and f: "a_fresh A + 1 \<le> 2 ^ 31"
  defines "B \<equiv> a_insert key hash val chg A"
  shows "held B = (held A)(a_fresh A := 1) \<and> accounted B = add_mset (key, val) (accounted A) \<and>
    a_capacity B = a_capacity A \<and> a_fresh B = a_fresh A + 1 \<and>
    (\<forall>a h. a_handles B a = Some h \<longrightarrow> (if a = a_fresh A then h_hash h = hash \<and> h_key h = key \<and> h_value h = val else \<exists>h'. a_handles A a = Some h' \<and> same_entry h h'))"
proof -
  let ?h = "\<lparr>h_value = val, h_charge = chg, h_key = key, in_cache = a_capacity A > 0, refs = (if a_capacity A > 0 then 2 else 1), h_hash = hash\<rparr>"
  define A1 where "A1 = (if a_capacity A > 0 then a_add key hash val chg A
     else A\<lparr>a_handles := (a_handles A)(a_fresh A \<mapsto> ?h), a_fresh := a_fresh A + 1\<rparr>)"
  define A' where "A' = (if a_capacity A > 0
     then case a_find key hash A of None \<Rightarrow> a_add key hash val chg A | Some old \<Rightarrow> a_erase old (a_add key hash val chg A)
     else A1)"
  have B: "B = a_evict (a_lru A') A'" by (simp add: B_def a_insert_def A'_def A1_def Let_def)
  have i1: "a_inv A1" using a_inv_add(1) [OF A f] a_inv_alloc [OF A f, of ?h] by (simp add: A1_def)
  have e1: "erases A1 A'"
  proof -
    have "old \<in> a_cached (a_add key hash val chg A)" if "a_find key hash A = Some old" for old
      using a_find_Some [OF that] a_inv_add(2) [OF A f] by simp
    then show ?thesis by (auto simp: A1_def A'_def intro: erases_refl erases_step [OF erases_refl] split: option.split)
  qed
  have i': "a_inv A'" using erases_keep [OF e1 i1] by simp
  have "erases A1 B" unfolding B by (rule erases_trans [OF erases_evict [OF i' refl] e1])
  note k = erases_keep [OF this i1]
  have h1: "a_handles A1 = (a_handles A)(a_fresh A \<mapsto> ?h)" "a_deleted A1 = a_deleted A" "a_capacity A1 = a_capacity A" "a_fresh A1 = a_fresh A + 1"
    by (simp_all add: A1_def a_add_def)
  note s = held_alloc [OF A _ h1(1,2)]
  have "held B = (held A)(a_fresh A := 1)" "accounted B = add_mset (key, val) (accounted A)" using k s by auto
  moreover have "(if a = a_fresh A then h_hash h = hash \<and> h_key h = key \<and> h_value h = val else \<exists>h'. a_handles A a = Some h' \<and> same_entry h h')" if "a_handles B a = Some h" for a h
    using k that unfolding h1(1) by (force simp: same_entry_def)
  ultimately show ?thesis using k h1 by auto
qed

text \<open>Eviction erases the shortest prefix of the list after which the charges fit.\<close>

lemma erase_lru:
  assumes A: "a_inv A" and e: "a_lru A = e # es"
  shows "a_erase e A = A\<lparr>a_usage := a_usage A - a_charge A e, a_handles := (a_handles A)(e := None), a_lru := es,
    a_deleted := a_entry A e # a_deleted A\<rparr>"
proof -
  obtain h where h: "a_handles A e = Some h" "refs h = 1" using a_invD(4) [OF A, of e] e by auto
  have "e \<notin> set (a_used A)" using a_invD(3) [OF A] e by auto
  with h e show ?thesis by (simp add: a_erase_def a_unref_def a_detach_def a_charge_def a_entry_def remove1_idem)
qed

definition evicted :: "nat \<Rightarrow> ('k, 'v) acache \<Rightarrow> ('k, 'v) acache" where
  "evicted k A =
     A\<lparr>a_usage := a_usage A - sum_list (map (a_charge A) (take k (a_lru A))),
       a_handles := (\<lambda>a. if a \<in> set (take k (a_lru A)) then None else a_handles A a), a_lru := drop k (a_lru A),
       a_deleted := rev (map (a_entry A) (take k (a_lru A))) @ a_deleted A\<rparr>"

definition fits :: "('k, 'v) acache \<Rightarrow> bool" where
  "fits A \<longleftrightarrow> a_usage A \<le> a_capacity A"

lemma evicted_0: "evicted 0 A = A"
  by (simp add: evicted_def)

lemma evicted_Suc:
  assumes A: "a_inv A" and e: "a_lru A = e # es"
  shows "evicted k (a_erase e A) = evicted (Suc k) A"
proof -
  have n: "e \<notin> set (take k es)" using a_invD(1) [OF A] e by (auto dest: in_set_takeD)
  have c: "map (a_charge (a_erase e A)) (take k es) = map (a_charge A) (take k es)"
    "map (a_entry (a_erase e A)) (take k es) = map (a_entry A) (take k es)"
    using n by (auto simp: erase_lru [OF A e] a_charge_def a_entry_def)
  have l: "a_lru (a_erase e A) = es" using e by simp
  have f: "a_usage (a_erase e A) = a_usage A - a_charge A e" "a_handles (a_erase e A) = (a_handles A)(e := None)"
    "a_deleted (a_erase e A) = a_entry A e # a_deleted A"
    by (simp_all add: erase_lru [OF A e])
  have u: "remove1 e (a_used A) = a_used A" using a_invD(3) [OF A] e by (intro remove1_idem) auto
  show ?thesis
    by (rule acache.equality) (simp_all add: evicted_def l e f c u diff_diff_eq fun_eq_iff del: map_eq_conv)
qed

lemma a_evict_prefix:
  "a_inv A \<Longrightarrow> \<exists>k\<le>length (a_lru A). a_evict (a_lru A) A = evicted k A \<and>
    (fits (evicted k A) \<or> k = length (a_lru A)) \<and> (\<forall>j<k. \<not> fits (evicted j A))"
proof (induction "a_lru A" arbitrary: A)
  case Nil
  then show ?case by (simp flip: Nil.hyps add: evicted_0)
next
  case (Cons e es)
  show ?case
  proof (cases "a_usage A > a_capacity A")
    case True
    have "e \<in> a_cached A" by (simp add: a_cached_def flip: Cons.hyps(2))
    then have i: "a_inv (a_erase e A)" by (rule held_erase(3) [OF Cons.prems])
    have l: "a_lru (a_erase e A) = es" by (simp flip: Cons.hyps(2))
    from Cons.hyps(1) [OF l [symmetric] i] obtain k where k: "k \<le> length es" "a_evict es (a_erase e A) = evicted k (a_erase e A)"
      "fits (evicted k (a_erase e A)) \<or> k = length es" "\<forall>j<k. \<not> fits (evicted j (a_erase e A))" unfolding l by blast
    note s = evicted_Suc [OF Cons.prems Cons.hyps(2) [symmetric]]
    have "\<not> fits (evicted j A)" if "j < Suc k" for j
      using that k(4) True by (cases j) (auto simp: evicted_0 fits_def [of A] s)
    then show ?thesis using k True
      by (intro exI [of _ "Suc k"]) (auto simp: s simp flip: Cons.hyps(2))
  next
    case False
    then show ?thesis by (intro exI [of _ 0]) (auto simp: evicted_0 fits_def simp flip: Cons.hyps(2))
  qed
qed


section \<open>The sharded cache\<close>

lemma Shard_less: "Shard hash < kNumShards"
proof -
  have "unat hash < 2 ^ LENGTH(32)" by (rule unsigned_less)
  then have "unat hash < 2 ^ 4 * 2 ^ 28" by simp
  then have "unat (drop_bit 28 hash) < 2 ^ 4"
    by (simp only: unat_drop_bit_eq) (simp only: drop_bit_eq_div less_mult_imp_div_less)
  then show ?thesis by (simp add: Shard_def kNumShards_def kNumShardBits_def)
qed

lemma kNumShards_16: "kNumShards = 16"
  by (simp add: kNumShards_def kNumShardBits_def)

definition shards_inv ::
    "64 word \<Rightarrow> nat \<Rightarrow> ('k, 'v) sharded_cache \<Rightarrow> saddr multiset \<Rightarrow> ('k \<times> 'v) multiset \<Rightarrow> (nat \<Rightarrow> ('k, 'v) acache) \<Rightarrow> bool" where
  "shards_inv cap n s M I As \<longleftrightarrow>
     length (shards s) = kNumShards \<and>
     (\<forall>i<kNumShards. represents (shards s ! i) (As i) \<and> a_capacity (As i) = cap \<and> a_fresh (As i) \<le> 3 + n \<and>
        (\<forall>a. held (As i) a = count M (i, a)) \<and> (\<forall>a h. a_handles (As i) a = Some h \<longrightarrow> Shard (h_hash h) = i)) \<and>
     (\<Sum>i<kNumShards. accounted (As i)) = I \<and> size M \<le> n \<and> (\<forall>p\<in>#M. fst p < kNumShards)"

lemma shards_invD:
  assumes "shards_inv cap n s M I As"
  shows "length (shards s) = kNumShards"
    "i < kNumShards \<Longrightarrow> represents (shards s ! i) (As i)" "i < kNumShards \<Longrightarrow> a_capacity (As i) = cap"
    "i < kNumShards \<Longrightarrow> a_fresh (As i) \<le> 3 + n" "i < kNumShards \<Longrightarrow> held (As i) a = count M (i, a)"
    "i < kNumShards \<Longrightarrow> a_handles (As i) a = Some h \<Longrightarrow> Shard (h_hash h) = i"
    "p \<in># M \<Longrightarrow> fst p < kNumShards" "size M \<le> n" "i < kNumShards \<Longrightarrow> a_inv (As i)"
  using assms repD(11) [of "shards s ! i" "As i" "a_cached (As i)"] by (auto simp: shards_inv_def represents_def)

lemma shards_inv_update:
  assumes s: "shards_inv cap n s M I As" and i: "i < kNumShards"
    and r: "represents c A" "a_capacity A = cap" "a_fresh A \<le> 3 + m" "\<And>a. held A a = count M' (i, a)"
      "\<And>a h. a_handles A a = Some h \<Longrightarrow> Shard (h_hash h) = i"
    and m: "n \<le> m" "size M' \<le> m" "\<And>p. p \<in># M' \<Longrightarrow> fst p < kNumShards" "\<And>j a. j \<noteq> i \<Longrightarrow> count M' (j, a) = count M (j, a)"
    and t: "accounted A = D + accounted (As i)"
  shows "shards_inv cap m (s\<lparr>shards := (shards s)[i := c]\<rparr>) M' (D + I) (As(i := A))"
proof -
  have "(\<Sum>j<kNumShards. accounted ((As(i := A)) j)) = accounted A + (\<Sum>j\<in>{..<kNumShards} - {i}. accounted ((As(i := A)) j))"
    using i by (subst sum.remove [of _ i]) auto
  also have "(\<Sum>j\<in>{..<kNumShards} - {i}. accounted ((As(i := A)) j)) = (\<Sum>j\<in>{..<kNumShards} - {i}. accounted (As j))"
    by (rule sum.cong) auto
  also have "accounted A + \<dots> = D + (\<Sum>j<kNumShards. accounted (As j))"
    using i t by (subst (2) sum.remove [of _ i]) (auto simp: ac_simps)
  finally have "(\<Sum>j<kNumShards. accounted ((As(i := A)) j)) = D + I" using s by (simp add: shards_inv_def)
  then show ?thesis using s i r m
    by (auto simp: shards_inv_def nth_list_update dest: le_trans)
qed

lemma held_refs:
  assumes s: "shards_inv cap n s M I As" and i: "i < kNumShards" and h: "a_handles (As i) a = Some h"
  shows "refs h \<le> n + 1"
proof -
  have "refs h \<le> held (As i) a + 1" using h by (auto simp: held_def)
  also have "held (As i) a \<le> size M" using shards_invD(5) [OF s i] count_le_size [of M] by simp
  finally show ?thesis using shards_invD(8) [OF s] by simp
qed

lemma Sharded_Insert_step:
  assumes s: "shards_inv cap n s M I As" and n: "n + 5 \<le> 2 ^ 31"
  shows "\<exists>p s' As'. Sharded_Insert Hash key val chg s = Some (Some p, s') \<and>
    shards_inv cap (Suc n) s' (add_mset p M) (add_mset (key, val) I) As' \<and>
    p = (Shard (Hash key 0), a_fresh (As (Shard (Hash key 0)))) \<and>
    As' = As(fst p := a_insert key (Hash key 0) val chg (As (fst p)))"
proof -
  let ?h = "Hash key 0" let ?i = "Shard ?h" let ?A = "As ?i"
  have i: "?i < kNumShards" by (rule Shard_less)
  note d = shards_invD [OF s]
  have f: "a_fresh ?A + 1 \<le> 2 ^ 31" using d(4) [OF i] n by simp
  obtain c' where c': "Cache_Insert key ?h val chg (shards s ! ?i) = Some (a_fresh ?A, c')" "represents c' (a_insert key ?h val chg ?A)"
    using Cache_Insert_rep [OF d(2) [OF i] f] by blast
  have "0 < a_fresh ?A" using d(9) [OF i] by (simp add: a_inv_def)
  then have "Sharded_Insert Hash key val chg s = Some (Some (?i, a_fresh ?A), s\<lparr>shards := (shards s)[?i := c']\<rparr>)"
    using c'(1) d(1) i by (simp add: Sharded_Insert_def HashSlice_def on_shard_def shard_ptr_def Let_def)
  moreover have z: "count M (?i, a_fresh ?A) = 0"
    using d(5) [OF i, of "a_fresh ?A"] a_fresh_unused(1) [OF d(9) [OF i]] by (simp add: held_def)
  have hi: "held (a_insert key ?h val chg ?A) = (held ?A)(a_fresh ?A := 1)" "accounted (a_insert key ?h val chg ?A) = add_mset (key, val) (accounted ?A)"
    "a_capacity (a_insert key ?h val chg ?A) = a_capacity ?A" "a_fresh (a_insert key ?h val chg ?A) = a_fresh ?A + 1"
    using held_insert [OF d(9) [OF i] f, of key ?h val chg] by blast+
  have "shards_inv cap (Suc n) (s\<lparr>shards := (shards s)[?i := c']\<rparr>) (add_mset (?i, a_fresh ?A) M) ({#(key, val)#} + I)
    (As(?i := a_insert key ?h val chg ?A))"
  proof (rule shards_inv_update [OF s i c'(2)])
    show "held (a_insert key ?h val chg ?A) a = count (add_mset (?i, a_fresh ?A) M) (?i, a)" for a
      using hi d(5) [OF i] z by auto
    show "Shard (h_hash h) = ?i" if "a_handles (a_insert key ?h val chg ?A) a = Some h" for a h
    proof -
      have "if a = a_fresh ?A then h_hash h = ?h \<and> h_key h = key \<and> h_value h = val else \<exists>h'. a_handles ?A a = Some h' \<and> same_entry h h'"
        using held_insert [OF d(9) [OF i] f, of key ?h val chg] that by blast
      then show ?thesis using d(6) [OF i, of a] by (auto simp: same_entry_def split: if_splits)
    qed
    show "fst p < kNumShards" if "p \<in># add_mset (?i, a_fresh ?A) M" for p using that i d(7) [of p] by auto
  qed (use hi d(3,7,8) d(4) [OF i] i in auto)
  ultimately show ?thesis by (intro exI conjI) (assumption | simp)+
qed


lemma shard_handle_pos: "a_inv A \<Longrightarrow> a_handles A a = Some h \<Longrightarrow> a \<noteq> 0"
  using a_invD(7) [of A a h] by auto

lemma Sharded_Lookup_step:
  assumes s: "shards_inv cap n s M I As" and n: "n + 5 \<le> 2 ^ 31"
  shows "\<exists>r s' As'. Sharded_Lookup Hash key s = Some (r, s') \<and>
    shards_inv cap (Suc n) s' (case r of None \<Rightarrow> M | Some p \<Rightarrow> add_mset p M) I As' \<and>
    r = map_option (Pair (Shard (Hash key 0))) (a_find key (Hash key 0) (As (Shard (Hash key 0))))"
proof -
  let ?h = "Hash key 0" let ?i = "Shard ?h" let ?A = "As ?i"
  have i: "?i < kNumShards" by (rule Shard_less)
  note d = shards_invD [OF s]
  have "refs h + 1 < 2 ^ 32" if "a_handles ?A a = Some h" for a h using held_refs [OF s i that] n by simp
  then obtain c' where c': "Cache_Lookup key ?h (shards s ! ?i) = Some (fst (a_lookup key ?h ?A), c')" "represents c' (snd (a_lookup key ?h ?A))"
    using Cache_Lookup_rep [OF d(2) [OF i]] by blast
  let ?s = "s\<lparr>shards := (shards s)[?i := c']\<rparr>"
  show ?thesis
  proof (cases "a_find key ?h ?A")
    case None
    then have a: "a_lookup key ?h ?A = (0, ?A)" by (simp add: a_lookup_def)
    have "Sharded_Lookup Hash key s = Some (None, ?s)"
      using c'(1) a d(1) i by (simp add: Sharded_Lookup_def HashSlice_def on_shard_def shard_ptr_def Let_def)
    moreover have "shards_inv cap (Suc n) ?s M ({#} + I) (As(?i := ?A))"
      by (rule shards_inv_update [OF s i]) (use c'(2) a d(1-3,5-9) d(4) [OF i] i in \<open>auto intro: le_SucI\<close>)
    ultimately show ?thesis using None by (intro exI [of _ None] exI [of _ ?s]) auto
  next
    case (Some e)
    then have a: "a_lookup key ?h ?A = (e, a_ref e ?A)" by (simp add: a_lookup_def)
    have e: "e \<in> a_cached ?A" using a_find_Some [OF Some] by simp
    obtain h where h: "a_handles ?A e = Some h" using a_cached_handle [OF d(9) [OF i] e] by blast
    have "Sharded_Lookup Hash key s = Some (Some (?i, e), ?s)"
      using c'(1) a d(1) i shard_handle_pos [OF d(9) [OF i] h]
      by (simp add: Sharded_Lookup_def HashSlice_def on_shard_def shard_ptr_def Let_def)
    moreover have "shards_inv cap (Suc n) ?s (add_mset (?i, e) M) ({#} + I) (As(?i := a_ref e ?A))"
    proof (rule shards_inv_update [OF s i])
      show "held (a_ref e ?A) a = count (add_mset (?i, e) M) (?i, a)" for a using held_ref(1) [OF d(9) [OF i] h] d(5) [OF i] by simp
      show "Shard (h_hash h') = ?i" if "a_handles (a_ref e ?A) a = Some h'" for a h'
        using that d(6) [OF i] h by (auto split: if_splits)
      show "fst p < kNumShards" if "p \<in># add_mset (?i, e) M" for p using that i d(7) [of p] by auto
    qed (use c'(2) a d(1-3,5-9) d(4) [OF i] i held_ref(2) [OF d(9) [OF i] h] in \<open>auto intro: le_SucI\<close>)
    ultimately show ?thesis using Some by (intro exI [of _ "Some (?i, e)"] exI [of _ ?s]) auto
  qed
qed

lemma Sharded_Release_step:
  assumes s: "shards_inv cap n s M I As" and p: "p \<in># M"
  shows "\<exists>s' As'. Sharded_Release p s = Some ((), s') \<and> shards_inv cap (Suc n) s' (M - {#p#}) I As' \<and> get_handle p s \<noteq> None"
proof -
  obtain i e where pe: "p = (i, e)" by (cases p)
  note d = shards_invD [OF s]
  have i: "i < kNumShards" using d(7) [OF p] pe by simp
  let ?A = "As i"
  have c: "0 < held ?A e" using d(5) [OF i, of e] p pe by simp
  then obtain h where h: "a_handles ?A e = Some h" by (auto simp: held_def split: option.splits)
  have "e \<notin> set (a_lru ?A)" using held_lru [OF d(9) [OF i], of e] c by auto
  then obtain c' where c': "Cache_Release e (shards s ! i) = Some c'" "represents c' (a_unref e ?A)"
    using Cache_Release_rep [OF d(2) [OF i] h] by blast
  have gh: "get_handle p s = Some h"
    using d(1) i h repD(3) [OF d(2) [OF i, unfolded represents_def]] pe by (simp add: get_handle_def)
  let ?s = "s\<lparr>shards := (shards s)[i := c']\<rparr>"
  have "Sharded_Release p s = Some ((), ?s)"
    using gh d(1) i d(6) [OF i h] c'(1) pe by (simp add: Sharded_Release_def on_shard_def)
  moreover have "shards_inv cap (Suc n) ?s (M - {#p#}) ({#} + I) (As(i := a_unref e ?A))"
  proof (rule shards_inv_update [OF s i c'(2)])
    show "held (a_unref e ?A) a = count (M - {#p#}) (i, a)" for a using held_unref(1) [OF d(9) [OF i] h] d(5) [OF i] pe by simp
    show "Shard (h_hash h') = i" if "a_handles (a_unref e ?A) a = Some h'" for a h'
      using that d(6) [OF i] h by (auto simp: a_unref_def Let_def split: if_splits)
    show "fst q < kNumShards" if "q \<in># M - {#p#}" for q using that d(7) [of q] by (auto dest: in_diffD)
    show "size (M - {#p#}) \<le> Suc n" using d(8) p by (simp add: size_Diff_singleton)
    show "count (M - {#p#}) (j, a) = count M (j, a)" if "j \<noteq> i" for j a using that pe by simp
  qed (use d(1-3,5-9) d(4) [OF i] i held_unref(2) [OF d(9) [OF i] h] in \<open>auto intro: le_SucI\<close>)
  ultimately show ?thesis using gh by auto
qed

lemma shards_inv_erases:
  assumes s: "shards_inv cap n s M I As" and i: "i < kNumShards" and e: "erases (As i) A" and c: "represents c A"
  shows "shards_inv cap (Suc n) (s\<lparr>shards := (shards s)[i := c]\<rparr>) M I (As(i := A))"
proof -
  note d = shards_invD [OF s]
  note k = erases_keep [OF e d(9) [OF i]]
  have "shards_inv cap (Suc n) (s\<lparr>shards := (shards s)[i := c]\<rparr>) M ({#} + I) (As(i := A))"
  proof (rule shards_inv_update [OF s i c])
    show "Shard (h_hash h') = i" if "a_handles A a = Some h'" for a h' using that d(6) [OF i] k same_entry_hash by metis
  qed (use d(1-3,5-9) d(4) [OF i] i k in \<open>auto intro: le_SucI\<close>)
  then show ?thesis by simp
qed

lemma Sharded_Erase_step:
  assumes s: "shards_inv cap n s M I As"
  shows "\<exists>s' As'. Sharded_Erase Hash key s = Some ((), s') \<and> shards_inv cap (Suc n) s' M I As'"
proof -
  let ?h = "Hash key 0" let ?i = "Shard ?h" let ?A = "As ?i"
  have i: "?i < kNumShards" by (rule Shard_less)
  note d = shards_invD [OF s]
  obtain c' where c': "Cache_Erase key ?h (shards s ! ?i) = Some c'" "represents c' (a_remove key ?h ?A)"
    using Cache_Erase_rep [OF d(2) [OF i]] by blast
  from shards_inv_erases [OF s i erases_remove c'(2)] show ?thesis
    using c'(1) d(1) i by (auto simp: Sharded_Erase_def HashSlice_def on_shard_def Let_def)
qed


lemma prune_shards_rep:
  "list_all2 represents cs As \<Longrightarrow> \<exists>cs'. prune_shards cs = Some cs' \<and> list_all2 represents cs' (map a_prune As)"
proof (induction cs As rule: list_all2_induct)
  case (Cons c cs A As)
  then obtain cs' where "prune_shards cs = Some cs'" "list_all2 represents cs' (map a_prune As)" by blast
  moreover obtain c' where "Cache_Prune c = Some c'" "represents c' (a_prune A)" using Cache_Prune_rep [OF Cons.hyps(1)] by blast
  ultimately show ?case by simp
qed simp

lemma shards_all2: "shards_inv cap n s M I As \<Longrightarrow> list_all2 represents (shards s) (map As [0..<kNumShards])"
  by (simp add: shards_inv_def list_all2_conv_all_nth)

lemma Sharded_Prune_step:
  assumes s: "shards_inv cap n s M I As"
  shows "\<exists>s' As'. Sharded_Prune s = Some s' \<and> shards_inv cap (Suc n) s' M I As'"
proof -
  note d = shards_invD [OF s]
  obtain cs where cs: "prune_shards (shards s) = Some cs" "list_all2 represents cs (map a_prune (map As [0..<kNumShards]))"
    using prune_shards_rep [OF shards_all2 [OF s]] by blast
  have k: "a_inv (a_prune (As i)) \<and> held (a_prune (As i)) = held (As i) \<and> accounted (a_prune (As i)) = accounted (As i) \<and>
    a_capacity (a_prune (As i)) = a_capacity (As i) \<and> a_fresh (a_prune (As i)) = a_fresh (As i) \<and>
    (\<forall>a h. a_handles (a_prune (As i)) a = Some h \<longrightarrow> (\<exists>h'. a_handles (As i) a = Some h' \<and> same_entry h h'))" if "i < kNumShards" for i
    by (rule erases_keep [OF erases_prune]) (use d(9) [OF that] in simp_all)
  have h: "Shard (h_hash h) = i" if "i < kNumShards" "a_handles (a_prune (As i)) a = Some h" for i a h
    using k [OF that(1)] that d(6) [OF that(1)] same_entry_hash by metis
  have "(\<Sum>i<kNumShards. accounted (a_prune (As i))) = (\<Sum>i<kNumShards. accounted (As i))" by (rule sum.cong) (use k in auto)
  then have "shards_inv cap (Suc n) (s\<lparr>shards := cs\<rparr>) M I (\<lambda>i. a_prune (As i))"
    using s k h cs(2) by (auto simp: shards_inv_def list_all2_conv_all_nth le_SucI)
  then show ?thesis using cs(1) by (auto simp: Sharded_Prune_def)
qed

lemma make_shards_rep:
  "\<exists>cs :: ('k, 'v) lru_cache list. make_shards n cap = Some cs \<and> length cs = n \<and> (\<forall>c\<in>set cs. represents c (a_empty cap))"
proof (induction n)
  case (Suc n)
  then obtain cs :: "('k, 'v) lru_cache list" where cs: "make_shards n cap = Some cs" "length cs = n" "\<forall>c\<in>set cs. represents c (a_empty cap)" by blast
  obtain c :: "('k, 'v) lru_cache" where c: "LRUCache = Some c" "represents (SetCapacity cap c) (a_empty cap)"
    using LRUCache_rep by blast
  have "make_shards (Suc n) cap = Some (SetCapacity cap c # cs)" unfolding make_shards.simps c(1) cs(1) by simp
  with c cs show ?case by simp
qed simp

definition per_shard :: "64 word \<Rightarrow> 64 word" where
  "per_shard cap = (cap + (of_nat kNumShards - 1)) div of_nat kNumShards"

lemma NewLRUCache_start:
  "\<exists>s :: ('k, 'v) sharded_cache. NewLRUCache cap = Some s \<and> shards_inv (per_shard cap) 0 s {#} {#} (\<lambda>_. a_empty (per_shard cap))"
proof -
  obtain cs :: "('k, 'v) lru_cache list" where
    "make_shards kNumShards (per_shard cap) = Some cs" "length cs = kNumShards" "\<forall>c\<in>set cs. represents c (a_empty (per_shard cap))"
    using make_shards_rep by blast
  then show ?thesis
    by (auto simp: NewLRUCache_def ShardedLRUCache_def per_shard_def [symmetric] shards_inv_def a_empty_def [of "per_shard cap"]
        held_def accounted_def live_def)
qed

lemma destroy_shards_rep:
  assumes "list_all2 represents cs As" and "\<And>A a. A \<in> set As \<Longrightarrow> held A a = 0"
  shows "\<exists>cs'. destroy_shards cs = Some cs' \<and> (\<forall>c\<in>set cs'. handles c = (\<lambda>_. None)) \<and>
    sum_list (map (\<lambda>c. mset (deleted c)) cs') = sum_list (map accounted As)"
  using assms
proof (induction cs As rule: list_all2_induct)
  case (Cons c cs A As)
  obtain cs' where cs': "destroy_shards cs = Some cs'" "\<forall>c\<in>set cs'. handles c = (\<lambda>_. None)"
    "sum_list (map (\<lambda>c. mset (deleted c)) cs') = sum_list (map accounted As)" using Cons.IH Cons.prems by auto
  note i = repD(11) [OF Cons.hyps(1) [unfolded represents_def]]
  have z: "held A a = 0" for a using Cons.prems by simp
  have u: "a_used A = []"
  proof (rule ccontr)
    assume "a_used A \<noteq> []"
    then have "hd (a_used A) \<in> set (a_used A)" by simp
    from a_invD(5) [OF i this] z [of "hd (a_used A)"] show False by (auto simp: held_def)
  qed
  have dom: "dom (a_handles A) = set (a_lru A)"
  proof (rule set_eqI)
    fix a
    show "a \<in> dom (a_handles A) \<longleftrightarrow> a \<in> set (a_lru A)"
      using a_invD(4) [OF i, of a] a_invD(6) [OF i, of a] z [of a] u
      by (cases "a \<in> set (a_lru A)") (auto simp: held_def a_cached_def split: if_splits)
  qed
  obtain c' where c': "LRUCache_destroy c = Some c'" "handles c' = (\<lambda>a. if a \<in> set (a_lru A) then None else a_handles A a)"
    "deleted c' = rev (map (a_entry A) (a_lru A)) @ a_deleted A" using LRUCache_destroy_rep [OF Cons.hyps(1) u] by blast
  have "handles c' = (\<lambda>_. None)" using c'(2) dom by (auto simp: fun_eq_iff)
  moreover have "mset (deleted c') = accounted A"
    using c'(3) dom mset_set_set [OF a_invD(1) [OF i]] by (simp add: accounted_def live_def)
  ultimately show ?case using c'(1) cs' by simp
qed simp

section \<open>Any sequence of client operations\<close>

text \<open>\<open>M\<close> are the handles that clients hold, \<open>I\<close> the entries inserted so far, \<open>n\<close> the number of operations.\<close>

inductive cache_run ::
    "('k \<Rightarrow> 32 word \<Rightarrow> 32 word) \<Rightarrow> 64 word \<Rightarrow> nat \<Rightarrow> ('k, 'v) sharded_cache \<Rightarrow> saddr multiset \<Rightarrow> ('k \<times> 'v) multiset \<Rightarrow> bool"
  for Hash cap where
  run_new: "NewLRUCache cap = Some s \<Longrightarrow> cache_run Hash cap 0 s {#} {#}"
| run_insert: "cache_run Hash cap n s M I \<Longrightarrow> Sharded_Insert Hash key val chg s = Some (Some p, s') \<Longrightarrow>
    cache_run Hash cap (Suc n) s' (add_mset p M) (add_mset (key, val) I)"
| run_hit: "cache_run Hash cap n s M I \<Longrightarrow> Sharded_Lookup Hash key s = Some (Some p, s') \<Longrightarrow>
    cache_run Hash cap (Suc n) s' (add_mset p M) I"
| run_miss: "cache_run Hash cap n s M I \<Longrightarrow> Sharded_Lookup Hash key s = Some (None, s') \<Longrightarrow> cache_run Hash cap (Suc n) s' M I"
| run_release: "cache_run Hash cap n s M I \<Longrightarrow> p \<in># M \<Longrightarrow> Sharded_Release p s = Some ((), s') \<Longrightarrow>
    cache_run Hash cap (Suc n) s' (M - {#p#}) I"
| run_erase: "cache_run Hash cap n s M I \<Longrightarrow> Sharded_Erase Hash key s = Some ((), s') \<Longrightarrow> cache_run Hash cap (Suc n) s' M I"
| run_prune: "cache_run Hash cap n s M I \<Longrightarrow> Sharded_Prune s = Some s' \<Longrightarrow> cache_run Hash cap (Suc n) s' M I"
| run_new_id: "cache_run Hash cap n s M I \<Longrightarrow> NewId s = (i, s') \<Longrightarrow> cache_run Hash cap (Suc n) s' M I"

lemma cache_run_inv:
  fixes s :: "('k, 'v) sharded_cache"
  shows "cache_run Hash cap n s M I \<Longrightarrow> n + 4 \<le> 2 ^ 31 \<Longrightarrow> \<exists>As. shards_inv (per_shard cap) n s M I As"
proof (induction rule: cache_run.induct)
  case (run_new s)
  obtain s' :: "('k, 'v) sharded_cache" where "NewLRUCache cap = Some s'" "shards_inv (per_shard cap) 0 s' {#} {#} (\<lambda>_. a_empty (per_shard cap))"
    using NewLRUCache_start by blast
  with run_new show ?case by (intro exI [of _ "\<lambda>_. a_empty (per_shard cap)"]) simp
next
  case (run_insert n s M I key val chg p s')
  then obtain As where "shards_inv (per_shard cap) n s M I As" by auto
  from Sharded_Insert_step [OF this, of Hash key val chg] run_insert show ?case by auto
next
  case (run_hit n s M I key p s')
  then obtain As where "shards_inv (per_shard cap) n s M I As" by auto
  from Sharded_Lookup_step [OF this, of Hash key] run_hit show ?case by auto
next
  case (run_miss n s M I key s')
  then obtain As where "shards_inv (per_shard cap) n s M I As" by auto
  from Sharded_Lookup_step [OF this, of Hash key] run_miss show ?case by auto
next
  case (run_release n s M I p s')
  then obtain As where "shards_inv (per_shard cap) n s M I As" by auto
  from Sharded_Release_step [OF this run_release.hyps(2)] run_release show ?case by auto
next
  case (run_erase n s M I key s')
  then obtain As where "shards_inv (per_shard cap) n s M I As" by auto
  from Sharded_Erase_step [OF this, of Hash key] run_erase show ?case by auto
next
  case (run_prune n s M I s')
  then obtain As where "shards_inv (per_shard cap) n s M I As" by auto
  from Sharded_Prune_step [OF this] run_prune show ?case by auto
next
  case (run_new_id n s M I i s')
  then obtain As where "shards_inv (per_shard cap) n s M I As" by auto
  then have "shards_inv (per_shard cap) (Suc n) s' M I As" using run_new_id.hyps(2)
    by (auto simp: NewId_def shards_inv_def le_SucI)
  then show ?case by blast
qed


lemma a_find_inserted:
  assumes r: "represents c (a_insert key hash val chg A)" and A: "a_inv A" and f: "a_fresh A + 1 \<le> 2 ^ 31" and cap: "0 < a_capacity A"
  shows "a_find key hash (a_insert key hash val chg A) = Some (a_fresh A)"
    "\<exists>h. a_handles (a_insert key hash val chg A) (a_fresh A) = Some h \<and> h_value h = val"
proof -
  let ?B = "a_insert key hash val chg A" and ?A1 = "a_add key hash val chg A"
  define A' where "A' = (case a_find key hash A of None \<Rightarrow> ?A1 | Some old \<Rightarrow> a_erase old ?A1)"
  have B: "?B = a_evict (a_lru A') A'" using cap by (simp add: a_insert_def A'_def Let_def)
  have old: "old \<in> a_cached ?A1 \<and> old \<noteq> a_fresh A" if "a_find key hash A = Some old" for old
    using a_find_Some [OF that] a_inv_add(2) [OF A f] a_fresh_unused(2) [OF A] by auto
  have i: "a_inv A'" using old held_erase(3) [OF a_inv_add(1) [OF A f]] a_inv_add(1) [OF A f] by (auto simp: A'_def split: option.split)
  have u: "a_fresh A \<in> set (a_used A')" using old by (auto simp: A'_def a_add_def split: option.split)
  obtain k where "?B = evicted k A'" using a_evict_prefix [OF i] B by auto
  then have ca: "a_fresh A \<in> a_cached ?B" using u by (simp add: evicted_def a_cached_def)
  note d = repD [OF r [unfolded represents_def]]
  obtain h where h: "a_handles ?B (a_fresh A) = Some h" using a_cached_handle [OF d(11) ca] by blast
  then have hv: "h_hash h = hash \<and> h_key h = key \<and> h_value h = val" using held_insert [OF A f, of key hash val chg] by auto
  show "a_find key hash ?B = Some (a_fresh A)"
    by (rule a_find_unique [OF d(9) ca]) (use h hv in \<open>simp add: a_matches_def\<close>)
  show "\<exists>h. a_handles ?B (a_fresh A) = Some h \<and> h_value h = val" using h hv by simp
qed

lemma a_find_removed:
  assumes r: "represents c A"
  shows "a_find key hash (a_remove key hash A) = None"
proof (cases "a_find key hash A")
  case (Some e)
  note d = repD [OF r [unfolded represents_def]]
  have "\<not> a_matches (a_erase e A) key hash a" if a: "a \<in> a_cached (a_erase e A)" for a
  proof
    assume m: "a_matches (a_erase e A) key hash a"
    have "e \<in> dom (a_handles A)" using a_find_Some [OF Some] a_cached_handle [OF d(11)] by blast
    then have "a_matches A key hash a" using m erase_handles [of e A a] by (auto simp: a_matches_def same_entry_def split: option.splits)
    moreover have "a \<in> a_cached A" "a \<noteq> e" using a a_cached_erase [OF d(11)] by auto
    ultimately show False using d(9) a_find_Some [OF Some] by (auto simp: a_unique_def)
  qed
  then show ?thesis using Some by (simp add: a_remove_def a_find_None)
qed (simp add: a_remove_def)

section \<open>Properties\<close>

text \<open>C12: every operation of a shard refines the abstract cache, a pair of lists without pointers or hash
  table: on a state that represents an abstract one it succeeds, returns the abstract result and leaves a state that
  represents the abstract successor. Eviction removes the shortest prefix of the list of unreferenced entries, oldest
  first, after which the usage fits.\<close>

theorem cache_refines_lru:
  assumes "represents c A" and "a_fresh A < 2 ^ 31" and "\<forall>a h. a_handles A a = Some h \<longrightarrow> refs h < 2 ^ 32 - 1"
  shows "(\<exists>c'. Cache_Insert key hash val chg c = Some (a_fresh A, c') \<and> represents c' (a_insert key hash val chg A)) \<and>
    (\<exists>c'. Cache_Lookup key hash c = Some (fst (a_lookup key hash A), c') \<and> represents c' (snd (a_lookup key hash A))) \<and>
    (\<forall>e. 0 < held A e \<longrightarrow> (\<exists>c'. Cache_Release e c = Some c' \<and> represents c' (a_unref e A))) \<and>
    (\<exists>c'. Cache_Erase key hash c = Some c' \<and> represents c' (a_remove key hash A)) \<and>
    (\<exists>c'. Cache_Prune c = Some c' \<and> represents c' (a_prune A)) \<and>
    (\<exists>c' k. evict_loop c = Some c' \<and> represents c' (evicted k A) \<and> k \<le> length (a_lru A) \<and>
       (fits (evicted k A) \<or> k = length (a_lru A)) \<and> (\<forall>j<k. \<not> fits (evicted j A)))"
proof (intro conjI allI impI)
  note i = repD(11) [OF assms(1) [unfolded represents_def]]
  show "\<exists>c'. Cache_Insert key hash val chg c = Some (a_fresh A, c') \<and> represents c' (a_insert key hash val chg A)"
    by (rule Cache_Insert_rep [OF assms(1)]) (use assms(2) in simp)
  show "\<exists>c'. Cache_Lookup key hash c = Some (fst (a_lookup key hash A), c') \<and> represents c' (snd (a_lookup key hash A))"
    by (rule Cache_Lookup_rep [OF assms(1)]) (use assms(3) in fastforce)
  show "\<exists>c'. Cache_Release e c = Some c' \<and> represents c' (a_unref e A)" if "0 < held A e" for e
  proof -
    from that obtain h where "a_handles A e = Some h" by (auto simp: held_def split: option.splits)
    moreover have "e \<notin> set (a_lru A)" using that held_lru [OF i, of e] by auto
    ultimately show ?thesis by (rule Cache_Release_rep [OF assms(1)])
  qed
  show "\<exists>c'. Cache_Erase key hash c = Some c' \<and> represents c' (a_remove key hash A)" by (rule Cache_Erase_rep [OF assms(1)])
  show "\<exists>c'. Cache_Prune c = Some c' \<and> represents c' (a_prune A)" by (rule Cache_Prune_rep [OF assms(1)])
  show "\<exists>c' k. evict_loop c = Some c' \<and> represents c' (evicted k A) \<and> k \<le> length (a_lru A) \<and>
       (fits (evicted k A) \<or> k = length (a_lru A)) \<and> (\<forall>j<k. \<not> fits (evicted j A))"
    using evict_loop_rep [OF assms(1)] a_evict_prefix [OF i] by auto
qed

theorem cache_refines_lru_witness:
  "\<exists>(c :: (nat, nat) lru_cache) c' c''. LRUCache = Some c \<and> represents (SetCapacity 5 c) (a_empty 5) \<and>
     Cache_Insert 7 1 8 2 (SetCapacity 5 c) = Some (3, c') \<and> represents c' (a_insert 7 1 8 2 (a_empty 5)) \<and>
     Cache_Lookup 7 1 c' = Some (3, c'')"
proof -
  obtain c :: "(nat, nat) lru_cache" where c: "LRUCache = Some c" "represents (SetCapacity 5 c) (a_empty 5)"
    using LRUCache_rep by blast
  have e: "a_fresh (a_empty 5) = 3" "a_handles (a_empty 5) = (\<lambda>_. None)" by (simp_all add: a_empty_def)
  obtain c' where c': "Cache_Insert 7 1 8 2 (SetCapacity 5 c) = Some (3, c')" "represents c' (a_insert 7 1 8 2 (a_empty 5))"
    using cache_refines_lru [OF c(2), of 7 1 8 2] by (auto simp: e)
  have i: "a_insert (7 :: nat) 1 (8 :: nat) 2 (a_empty 5) = a_add 7 1 8 2 (a_empty 5)"
    by (simp add: a_insert_def a_empty_def a_find_def a_add_def Let_def)
  have "a_lookup 7 1 (a_insert (7 :: nat) 1 (8 :: nat) 2 (a_empty 5)) = (3, a_ref 3 (a_insert 7 1 8 2 (a_empty 5)))"
    unfolding i by (simp add: a_lookup_def a_find_def a_add_def a_empty_def a_matches_def)
  moreover have b: "a_fresh (a_insert (7 :: nat) 1 (8 :: nat) 2 (a_empty 5)) < 2 ^ 31"
    "\<forall>a h. a_handles (a_insert (7 :: nat) 1 (8 :: nat) 2 (a_empty 5)) a = Some h \<longrightarrow> refs h < 2 ^ 32 - 1"
    unfolding i by (auto simp: a_add_def a_empty_def)
  moreover have "\<exists>c''. Cache_Lookup 7 1 c' = Some (fst (a_lookup 7 1 (a_insert (7 :: nat) 1 (8 :: nat) 2 (a_empty 5))), c'')"
    using cache_refines_lru [OF c'(2) b, of 7 1 8 2] by blast
  ultimately show ?thesis using c c' by auto
qed

text \<open>C13: no operation of the sharded cache fails, neither by an assertion nor by access to freed memory,
  whatever a sequence of client operations came before, as long as clients release only handles they hold and there are fewer
  than 2^31 - 4 operations (the 32-bit counters do not wrap); a handle a client holds has a value.\<close>

theorem cache_clients_safe:
  assumes "cache_run Hash cap n s M I" and "n < 2 ^ 31 - 4"
  shows "(\<exists>p s'. Sharded_Insert Hash key val chg s = Some (Some p, s')) \<and>
    (\<exists>r s'. Sharded_Lookup Hash key s = Some (r, s')) \<and>
    (\<exists>s'. Sharded_Erase Hash key s = Some ((), s')) \<and> (\<exists>s'. Sharded_Prune s = Some s') \<and>
    (\<forall>p. p \<in># M \<longrightarrow> (\<exists>s'. Sharded_Release p s = Some ((), s')) \<and> (\<exists>v. Sharded_Value p s = Some v))"
proof -
  obtain As where s: "shards_inv (per_shard cap) n s M I As" using cache_run_inv [OF assms(1)] assms(2) by auto
  have n: "n + 5 \<le> 2 ^ 31" using assms(2) by simp
  show ?thesis
    using Sharded_Insert_step [OF s n, of Hash key val chg] Sharded_Lookup_step [OF s n, of Hash key]
      Sharded_Erase_step [OF s, of Hash key] Sharded_Prune_step [OF s] Sharded_Release_step [OF s]
    by (fastforce simp: Sharded_Value_def)
qed

theorem cache_clients_safe_witness:
  "\<exists>(s :: (nat, nat) sharded_cache) p s1 s2. NewLRUCache 64 = Some s \<and> Sharded_Insert (\<lambda>k _. of_nat k) 7 8 1 s = Some (Some p, s1) \<and>
     Sharded_Release p s1 = Some ((), s2)"
proof -
  let ?H = "\<lambda>k _. of_nat k :: 32 word"
  obtain s :: "(nat, nat) sharded_cache" where s: "NewLRUCache 64 = Some s" using NewLRUCache_start by blast
  have r: "cache_run ?H 64 0 s {#} {#}" using s by (rule run_new)
  obtain p s1 where i: "Sharded_Insert ?H 7 8 1 s = Some (Some p, s1)" using cache_clients_safe [OF r, of 7 8 1] by auto
  have "cache_run ?H 64 (Suc 0) s1 {#p#} {#(7, 8)#}" using run_insert [OF r i] by simp
  from cache_clients_safe [OF this, of 7 8 1] obtain s2 where "Sharded_Release p s1 = Some ((), s2)" by auto
  with s i show ?thesis by blast
qed

text \<open>C14: every entry inserted into the cache is handed to its deleter exactly once. When the clients have released all
  handles, destroying the cache succeeds, frees every handle, and the calls of the deleter over the whole life of
  the cache are, as a multiset, the insertions.\<close>

theorem cache_deletes_once:
  assumes "cache_run Hash cap n s {#} I" and "n < 2 ^ 31 - 4"
  shows "\<exists>s'. Sharded_destroy s = Some s' \<and> (\<forall>c. c \<in> set (shards s') \<longrightarrow> handles c = (\<lambda>_. None)) \<and>
    sum_list (map (\<lambda>c. mset (deleted c)) (shards s')) = I"
proof -
  obtain As where s: "shards_inv (per_shard cap) n s {#} I As" using cache_run_inv [OF assms(1)] assms(2) by auto
  note d = shards_invD [OF s]
  obtain cs where cs: "destroy_shards (shards s) = Some cs" "\<forall>c\<in>set cs. handles c = (\<lambda>_. None)"
    "sum_list (map (\<lambda>c. mset (deleted c)) cs) = sum_list (map accounted (map As [0..<kNumShards]))"
    using destroy_shards_rep [OF shards_all2 [OF s]] d(5) by fastforce
  have "sum_list (map accounted (map As [0..<kNumShards])) = I"
    using s by (simp add: shards_inv_def sum_list_distinct_conv_sum_set atLeast0LessThan comp_def)
  then show ?thesis using cs by (intro exI [of _ "s\<lparr>shards := cs\<rparr>"]) (simp add: Sharded_destroy_def)
qed

theorem cache_deletes_once_witness:
  "\<exists>(s :: (nat, nat) sharded_cache) p s1 s2 s3. NewLRUCache 64 = Some s \<and> Sharded_Insert (\<lambda>k _. of_nat k) 7 8 1 s = Some (Some p, s1) \<and>
     Sharded_Release p s1 = Some ((), s2) \<and> Sharded_destroy s2 = Some s3 \<and>
     sum_list (map (\<lambda>c. mset (deleted c)) (shards s3)) = {#(7, 8)#}"
proof -
  let ?H = "\<lambda>k _. of_nat k :: 32 word"
  obtain s :: "(nat, nat) sharded_cache" where s: "NewLRUCache 64 = Some s" "shards_inv (per_shard 64) 0 s {#} {#} (\<lambda>_. a_empty (per_shard 64))"
    using NewLRUCache_start by blast
  have r: "cache_run ?H 64 0 s {#} {#}" using s(1) by (rule run_new)
  obtain p s1 As where i: "Sharded_Insert ?H 7 8 1 s = Some (Some p, s1)" "shards_inv (per_shard 64) (Suc 0) s1 {#p#} {#(7, 8)#} As"
    using Sharded_Insert_step [OF s(2), of ?H 7 8 1] by auto
  obtain s2 where l: "Sharded_Release p s1 = Some ((), s2)" using Sharded_Release_step [OF i(2), of p] by auto
  have "cache_run ?H 64 (Suc 0) s1 {#p#} {#(7, 8)#}" using run_insert [OF r i(1)] by simp
  from run_release [OF this _ l] have "cache_run ?H 64 (Suc (Suc 0)) s2 {#} {#(7, 8)#}" by simp
  from cache_deletes_once [OF this] obtain s3 where
    "Sharded_destroy s2 = Some s3" "sum_list (map (\<lambda>c. mset (deleted c)) (shards s3)) = {#(7, 8)#}" by auto
  with s(1) i(1) l show ?thesis by blast
qed

text \<open>What was inserted is found and what was erased is not. After an insertion into a cache with
  a capacity a lookup of the key returns the handle of that insertion, even when the insertion evicted other entries or replaced an
  older one, and the handle has the inserted value; after an erasure of the key a lookup finds nothing.\<close>

theorem cache_lookup_after:
  assumes "cache_run Hash cap n s M I" and "n < 2 ^ 31 - 6"
  shows "(0 < per_shard cap \<longrightarrow> (\<exists>p s1 s2. Sharded_Insert Hash key val chg s = Some (Some p, s1) \<and>
      Sharded_Lookup Hash key s1 = Some (Some p, s2) \<and> Sharded_Value p s1 = Some val)) \<and>
    (\<exists>s1 s2. Sharded_Erase Hash key s = Some ((), s1) \<and> Sharded_Lookup Hash key s1 = Some (None, s2))"
proof
  obtain As where s: "shards_inv (per_shard cap) n s M I As" using cache_run_inv [OF assms(1)] assms(2) by auto
  let ?h = "Hash key 0" let ?i = "Shard ?h" let ?A = "As ?i"
  have i: "?i < kNumShards" by (rule Shard_less)
  note d = shards_invD [OF s]
  have n: "n + 5 \<le> 2 ^ 31" "Suc n + 5 \<le> 2 ^ 31" using assms(2) by simp_all
  show "0 < per_shard cap \<longrightarrow> (\<exists>p s1 s2. Sharded_Insert Hash key val chg s = Some (Some p, s1) \<and>
      Sharded_Lookup Hash key s1 = Some (Some p, s2) \<and> Sharded_Value p s1 = Some val)"
  proof
    assume cap: "0 < per_shard cap"
    obtain s1 where s1: "Sharded_Insert Hash key val chg s = Some (Some (?i, a_fresh ?A), s1)"
      "shards_inv (per_shard cap) (Suc n) s1 (add_mset (?i, a_fresh ?A) M) (add_mset (key, val) I) (As(?i := a_insert key ?h val chg ?A))"
      using Sharded_Insert_step [OF s n(1), of Hash key val chg] by auto
    note r1 = shards_invD(2) [OF s1(2) i]
    have f: "a_fresh ?A + 1 \<le> 2 ^ 31" using d(4) [OF i] n by simp
    have r1': "represents (shards s1 ! ?i) (a_insert key ?h val chg ?A)" using r1 by simp
    note fi = a_find_inserted [OF r1' d(9) [OF i] f]
    have "a_find key ?h (a_insert key ?h val chg ?A) = Some (a_fresh ?A)" using fi(1) d(3) [OF i] cap by simp
    then obtain s2 where "Sharded_Lookup Hash key s1 = Some (Some (?i, a_fresh ?A), s2)"
      using Sharded_Lookup_step [OF s1(2) n(2), of Hash key] by auto
    moreover have "Sharded_Value (?i, a_fresh ?A) s1 = Some val"
      using fi(2) d(3) [OF i] cap shards_invD(1) [OF s1(2)] i repD(3) [OF r1' [unfolded represents_def]]
      by (auto simp: Sharded_Value_def get_handle_def)
    ultimately show "\<exists>p s1 s2. Sharded_Insert Hash key val chg s = Some (Some p, s1) \<and>
      Sharded_Lookup Hash key s1 = Some (Some p, s2) \<and> Sharded_Value p s1 = Some val" using s1(1) by blast
  qed
  show "\<exists>s1 s2. Sharded_Erase Hash key s = Some ((), s1) \<and> Sharded_Lookup Hash key s1 = Some (None, s2)"
  proof -
    obtain c' where c': "Cache_Erase key ?h (shards s ! ?i) = Some c'" "represents c' (a_remove key ?h ?A)"
      using Cache_Erase_rep [OF d(2) [OF i]] by blast
    let ?s1 = "s\<lparr>shards := (shards s)[?i := c']\<rparr>"
    have s1: "shards_inv (per_shard cap) (Suc n) ?s1 M I (As(?i := a_remove key ?h ?A))" by (rule shards_inv_erases [OF s i erases_remove c'(2)])
    have "a_find key ?h (a_remove key ?h ?A) = None" by (rule a_find_removed [OF d(2) [OF i]])
    then obtain s2 where "Sharded_Lookup Hash key ?s1 = Some (None, s2)" using Sharded_Lookup_step [OF s1 n(2), of Hash key] by auto
    moreover have "Sharded_Erase Hash key s = Some ((), ?s1)"
      using c'(1) d(1) i by (simp add: Sharded_Erase_def HashSlice_def on_shard_def Let_def)
    ultimately show ?thesis by blast
  qed
qed

theorem cache_lookup_after_witness:
  "\<exists>(s :: (nat, nat) sharded_cache) p s1 s2. NewLRUCache 64 = Some s \<and> Sharded_Insert (\<lambda>k _. of_nat k) 7 8 1 s = Some (Some p, s1) \<and>
     Sharded_Lookup (\<lambda>k _. of_nat k) 7 s1 = Some (Some p, s2) \<and> Sharded_Value p s1 = Some 8"
proof -
  let ?H = "\<lambda>k _. of_nat k :: 32 word"
  obtain s :: "(nat, nat) sharded_cache" where s: "NewLRUCache 64 = Some s" using NewLRUCache_start by blast
  have r: "cache_run ?H 64 0 s {#} {#}" using s by (rule run_new)
  have "0 < per_shard 64" by (simp add: per_shard_def kNumShards_def kNumShardBits_def)
  with cache_lookup_after [OF r, of 7 8 1] s show ?thesis by simp
qed

end
