(* ===== verification/Block.thy ===== *)
theory Block
  imports Iterators "HOL-Library.Word"
begin

text \<open>
  The blocks of leveldb's table files (\<open>table/block.cc\<close>): prefix-compressed entries, followed by an array of
  restart points and their number, and the iterator over them.

  A block is a byte string; a pointer into it is an offset. \<open>None\<close> is a failed assertion, an access outside the
  block, or a loop that does not end. Offsets and counters are numbers; where the code computes them in 32
  bits the result is taken modulo \<open>2 ^ 32\<close>. The codecs of \<open>util/coding.h\<close> are the parameter \<open>cd\<close>.
\<close>

section \<open>The block\<close>

text \<open>\<open>GetVarint32Ptr\<close> gets the bytes from the pointer to the limit; it returns the value and the number of bytes
  it took.\<close>

record block_coding =
  DecodeFixed32 :: "string \<Rightarrow> 32 word"
  GetVarint32Ptr :: "string \<Rightarrow> (32 word \<times> nat) option"

definition read_bytes :: "string \<Rightarrow> nat \<Rightarrow> nat \<Rightarrow> string option" where
  "read_bytes data p n = (if p + n \<le> length data then Some (take n (drop p data)) else None)"

record block =
  blk_data :: string
  blk_size :: nat
  restart_offset :: nat

definition NumRestarts :: "block_coding \<Rightarrow> block \<Rightarrow> nat option" where
  "NumRestarts cd b =
     (if blk_size b \<ge> 4
      then do { s \<leftarrow> read_bytes (blk_data b) (blk_size b - 4) 4; Some (unat (DecodeFixed32 cd s)) }
      else None)"

definition Block :: "block_coding \<Rightarrow> string \<Rightarrow> block option" where
  "Block cd contents =
     (let b = \<lparr>blk_data = contents, blk_size = length contents, restart_offset = 0\<rparr>
      in if blk_size b < 4 then Some (b\<lparr>blk_size := 0\<rparr>)
         else do { n \<leftarrow> NumRestarts cd b;
                   let max_restarts_allowed = (blk_size b - 4) div 4;
                   if n > max_restarts_allowed then Some (b\<lparr>blk_size := 0\<rparr>)
                   else Some (b\<lparr>restart_offset := (blk_size b - (1 + n) mod 2 ^ 32 * 4) mod 2 ^ 32\<rparr>) })"

text \<open>The result \<open>Some None\<close> is the null pointer.\<close>

definition DecodeEntry ::
    "block_coding \<Rightarrow> string \<Rightarrow> nat \<Rightarrow> nat \<Rightarrow> (nat \<times> nat \<times> nat \<times> nat) option option" where
  "DecodeEntry cd data p limit =
     (if limit < p + 3 then Some None
      else do { s \<leftarrow> read_bytes data p (limit - p);
                let shared = (of_char (s ! 0) :: nat);
                let non_shared = (of_char (s ! 1) :: nat);
                let value_length = (of_char (s ! 2) :: nat);
                let r = (if shared < 128 \<and> non_shared < 128 \<and> value_length < 128
                         then Some (p + 3, shared, non_shared, value_length)
                         else do { (a, i) \<leftarrow> GetVarint32Ptr cd s;
                                   (b, j) \<leftarrow> GetVarint32Ptr cd (drop i s);
                                   (c, k) \<leftarrow> GetVarint32Ptr cd (drop (i + j) s);
                                   Some (p + i + j + k, unat a, unat b, unat c) });
                Some (case r of
                        None \<Rightarrow> None
                      | Some (p, shared, non_shared, value_length) \<Rightarrow>
                          if (limit - p) mod 2 ^ 32 < (non_shared + value_length) mod 2 ^ 32 then None
                          else Some (p, shared, non_shared, value_length)) })"

section \<open>The iterator\<close>

datatype bstatus = BOk | BCorruption string

text \<open>\<open>bi_value\<close> is the offset and the length of the value slice; \<open>None\<close> is the empty slice outside the block.\<close>

record block_iter =
  bi_data :: string
  restarts :: nat
  num_restarts :: nat
  current :: nat
  restart_index :: nat
  bi_key :: string
  bi_value :: "(nat \<times> nat) option"
  bi_status :: bstatus

definition NextEntryOffset :: "block_iter \<Rightarrow> nat option" where
  "NextEntryOffset it = do { (off, len) \<leftarrow> bi_value it; Some ((off + len) mod 2 ^ 32) }"

definition GetRestartPoint :: "block_coding \<Rightarrow> nat \<Rightarrow> block_iter \<Rightarrow> nat option" where
  "GetRestartPoint cd index it =
     (if index < num_restarts it
      then do { s \<leftarrow> read_bytes (bi_data it) (restarts it + index * 4) 4; Some (unat (DecodeFixed32 cd s)) }
      else None)"

definition SeekToRestartPoint :: "block_coding \<Rightarrow> nat \<Rightarrow> block_iter \<Rightarrow> block_iter option" where
  "SeekToRestartPoint cd index it =
     do { let it = it\<lparr>bi_key := [], restart_index := index\<rparr>;
          offset \<leftarrow> GetRestartPoint cd index it;
          Some (it\<lparr>bi_value := Some (offset, 0)\<rparr>) }"

definition Iter :: "string \<Rightarrow> nat \<Rightarrow> nat \<Rightarrow> block_iter option" where
  "Iter data rs num =
     (if num > 0
      then Some \<lparr>bi_data = data, restarts = rs, num_restarts = num, current = rs, restart_index = num, bi_key = [],
                 bi_value = None, bi_status = BOk\<rparr>
      else None)"

definition Block_Valid :: "block_iter \<Rightarrow> bool" where
  "Block_Valid it \<longleftrightarrow> current it < restarts it"

definition Block_key :: "block_iter \<Rightarrow> string option" where
  "Block_key it = (if Block_Valid it then Some (bi_key it) else None)"

definition Block_value :: "block_iter \<Rightarrow> string option" where
  "Block_value it =
     (if Block_Valid it then case bi_value it of None \<Rightarrow> Some [] | Some (off, len) \<Rightarrow> read_bytes (bi_data it) off len else None)"

definition CorruptionError :: "block_iter \<Rightarrow> block_iter" where
  "CorruptionError it =
     it\<lparr>current := restarts it, restart_index := num_restarts it, bi_status := BCorruption ''bad entry in block'', bi_key := [],
        bi_value := None\<rparr>"

function advance_restart :: "block_coding \<Rightarrow> block_iter \<Rightarrow> block_iter option" where
  "advance_restart cd it =
     (if restart_index it + 1 < num_restarts it
      then do { g \<leftarrow> GetRestartPoint cd (restart_index it + 1) it;
                if g < current it then advance_restart cd (it\<lparr>restart_index := restart_index it + 1\<rparr>) else Some it }
      else Some it)"
  by pat_completeness auto
termination by (relation "measure (\<lambda>(cd, it). num_restarts it - restart_index it)") auto

declare advance_restart.simps [simp del]

definition ParseNextKey :: "block_coding \<Rightarrow> block_iter \<Rightarrow> (bool \<times> block_iter) option" where
  "ParseNextKey cd it =
     do { c \<leftarrow> NextEntryOffset it;
          let it = it\<lparr>current := c\<rparr>;
          if c \<ge> restarts it then Some (False, it\<lparr>current := restarts it, restart_index := num_restarts it\<rparr>)
          else do { d \<leftarrow> DecodeEntry cd (bi_data it) c (restarts it);
                    case d of
                      None \<Rightarrow> Some (False, CorruptionError it)
                    | Some (p, shared, non_shared, value_length) \<Rightarrow>
                        if length (bi_key it) < shared then Some (False, CorruptionError it)
                        else do { delta \<leftarrow> read_bytes (bi_data it) p non_shared;
                                  it \<leftarrow> advance_restart cd
                                         (it\<lparr>bi_key := take shared (bi_key it) @ delta,
                                             bi_value := Some (p + non_shared, value_length)\<rparr>);
                                  Some (True, it) } } }"

definition Block_Next :: "block_coding \<Rightarrow> block_iter \<Rightarrow> block_iter option" where
  "Block_Next cd it = (if Block_Valid it then do { (_, it) \<leftarrow> ParseNextKey cd it; Some it } else None)"

text \<open>The last restart point before \<open>original\<close>, \<open>Some None\<close> when there is none.\<close>

fun scan_back :: "block_coding \<Rightarrow> nat \<Rightarrow> nat \<Rightarrow> block_iter \<Rightarrow> nat option option" where
  "scan_back cd original r it =
     do { g \<leftarrow> GetRestartPoint cd r it;
          if g \<ge> original then (if r = 0 then Some None else scan_back cd original (r - 1) it) else Some (Some r) }"

declare scan_back.simps [simp del]

text \<open>The loops of \<open>Prev\<close> and \<open>SeekToLast\<close>: parse until the end of the entry reaches \<open>limit\<close>.\<close>

partial_function (option) skip_until :: "block_coding \<Rightarrow> nat \<Rightarrow> block_iter \<Rightarrow> block_iter option" where
  "skip_until cd limit it =
     do { (ok, it) \<leftarrow> ParseNextKey cd it;
          if ok then do { e \<leftarrow> NextEntryOffset it; if e < limit then skip_until cd limit it else Some it } else Some it }"

definition Block_Prev :: "block_coding \<Rightarrow> block_iter \<Rightarrow> block_iter option" where
  "Block_Prev cd it =
     (if Block_Valid it
      then do { r \<leftarrow> scan_back cd (current it) (restart_index it) it;
                case r of
                  None \<Rightarrow> Some (it\<lparr>current := restarts it, restart_index := num_restarts it\<rparr>)
                | Some r \<Rightarrow> do { it' \<leftarrow> SeekToRestartPoint cd r it; skip_until cd (current it) it' } }
      else None)"

text \<open>The binary search: \<open>Some None\<close> when it meets a corrupt entry.\<close>

partial_function (option) seek_restart ::
    "block_coding \<Rightarrow> (string \<Rightarrow> string \<Rightarrow> int) \<Rightarrow> string \<Rightarrow> nat \<Rightarrow> nat \<Rightarrow> block_iter \<Rightarrow> nat option option" where
  "seek_restart cd cmp target left right it =
     (if left < right
      then do { let mid = (left + right + 1) mod 2 ^ 32 div 2;
                region_offset \<leftarrow> GetRestartPoint cd mid it;
                d \<leftarrow> DecodeEntry cd (bi_data it) region_offset (restarts it);
                case d of
                  None \<Rightarrow> Some None
                | Some (p, shared, non_shared, value_length) \<Rightarrow>
                    if shared \<noteq> 0 then Some None
                    else do { mid_key \<leftarrow> read_bytes (bi_data it) p non_shared;
                              if cmp mid_key target < 0 then seek_restart cd cmp target mid right it
                              else seek_restart cd cmp target left (mid - 1) it } }
      else Some (Some left))"

partial_function (option) seek_linear ::
    "block_coding \<Rightarrow> (string \<Rightarrow> string \<Rightarrow> int) \<Rightarrow> string \<Rightarrow> block_iter \<Rightarrow> block_iter option" where
  "seek_linear cd cmp target it =
     do { (ok, it) \<leftarrow> ParseNextKey cd it;
          if \<not> ok then Some it else if cmp (bi_key it) target \<ge> 0 then Some it else seek_linear cd cmp target it }"

definition Block_Seek ::
    "block_coding \<Rightarrow> (string \<Rightarrow> string \<Rightarrow> int) \<Rightarrow> string \<Rightarrow> block_iter \<Rightarrow> block_iter option" where
  "Block_Seek cd cmp target it =
     do { r \<leftarrow> seek_restart cd cmp target 0 (num_restarts it - 1) it;
          case r of
            None \<Rightarrow> Some (CorruptionError it)
          | Some left \<Rightarrow> do { it \<leftarrow> SeekToRestartPoint cd left it; seek_linear cd cmp target it } }"

definition Block_SeekToFirst :: "block_coding \<Rightarrow> block_iter \<Rightarrow> block_iter option" where
  "Block_SeekToFirst cd it = do { it \<leftarrow> SeekToRestartPoint cd 0 it; (_, it) \<leftarrow> ParseNextKey cd it; Some it }"

definition Block_SeekToLast :: "block_coding \<Rightarrow> block_iter \<Rightarrow> block_iter option" where
  "Block_SeekToLast cd it =
     do { it \<leftarrow> SeekToRestartPoint cd (num_restarts it - 1) it; skip_until cd (restarts it) it }"

declare skip_until.simps [code] seek_restart.simps [code] seek_linear.simps [code]

datatype new_iterator = ErrorIterator bstatus | EmptyIterator | BlockIterator block_iter

definition NewIterator :: "block_coding \<Rightarrow> block \<Rightarrow> new_iterator option" where
  "NewIterator cd b =
     (if blk_size b < 4 then Some (ErrorIterator (BCorruption ''bad block contents''))
      else do { n \<leftarrow> NumRestarts cd b;
                if n = 0 then Some EmptyIterator
                else do { it \<leftarrow> Iter (blk_data b) (restart_offset b) n; Some (BlockIterator it) } })"

definition block_iter_ops :: "block_coding \<Rightarrow> (string \<Rightarrow> string \<Rightarrow> int) \<Rightarrow> (block_iter, string, string) iter_ops" where
  "block_iter_ops cd cmp =
     \<lparr>iValid = Block_Valid, iKey = Block_key, iValue = Block_value, iNext = Block_Next cd, iPrev = Block_Prev cd,
      iSeek = Block_Seek cd cmp, iSeekToFirst = Block_SeekToFirst cd, iSeekToLast = Block_SeekToLast cd\<rparr>"

end
