(* ===== verification/Block_Spec.thy ===== *)
theory Block_Spec
  imports Block
begin

text \<open>
  The block iterator. On any bytes at all it stays inside the block, ends its loops and never fails an assertion,
  provided the two lengths of an entry do not overflow their 32-bit sum; on the bytes of a sorted sequence of
  entries it is the iterator over that sequence.
\<close>

section \<open>Decoding one entry\<close>

text \<open>\<open>GetVarint32Ptr\<close> takes at least one byte and stops before the limit.\<close>

definition coding_ok :: "block_coding \<Rightarrow> bool" where
  "coding_ok cd \<longleftrightarrow> (\<forall>s v n. GetVarint32Ptr cd s = Some (v, n) \<longrightarrow> 0 < n \<and> n \<le> length s)"

lemma coding_okD: "coding_ok cd \<Longrightarrow> GetVarint32Ptr cd s = Some (v, n) \<Longrightarrow> 0 < n \<and> n \<le> length s"
  by (simp add: coding_ok_def)

lemma DecodeEntry_total: "limit \<le> length data \<Longrightarrow> \<exists>d. DecodeEntry cd data p limit = Some d"
  by (simp add: DecodeEntry_def read_bytes_def Let_def)

lemma case_checked_eq_Some:
  "(case r of None \<Rightarrow> None | Some (p, a, b, c) \<Rightarrow> if P p a b c then None else Some (p, a, b, c)) = Some (p, a, b, c) \<longleftrightarrow>
    r = Some (p, a, b, c) \<and> \<not> P p a b c"
  by (auto split: option.splits)

lemma DecodeEntry_bounds:
  assumes "coding_ok cd" and "limit < 2 ^ 32"
    and "DecodeEntry cd data off limit = Some (Some (p, shared, non_shared, value_length))"
    and "non_shared + value_length < 2 ^ 32"
  shows "off + 3 \<le> p" and "p + non_shared + value_length \<le> limit"
proof -
  from assms(3) have l: "off + 3 \<le> limit" "limit \<le> length data"
    by (auto simp: DecodeEntry_def read_bytes_def split: if_splits)
  let ?s = "take (limit - off) (drop off data)"
  define r where "r = (if of_char (?s ! 0) < (128 :: nat) \<and> of_char (?s ! 1) < (128 :: nat) \<and> of_char (?s ! 2) < (128 :: nat)
    then Some (off + 3, of_char (?s ! 0), of_char (?s ! 1), of_char (?s ! 2))
    else do { (a, i) \<leftarrow> GetVarint32Ptr cd ?s; (b, j) \<leftarrow> GetVarint32Ptr cd (drop i ?s);
              (c, k) \<leftarrow> GetVarint32Ptr cd (drop (i + j) ?s); Some (off + i + j + k, unat a, unat b, unat c) })"
  have "DecodeEntry cd data off limit = Some (case r of None \<Rightarrow> None | Some (p, shared, non_shared, value_length) \<Rightarrow>
      if (limit - p) mod 2 ^ 32 < (non_shared + value_length) mod 2 ^ 32 then None
      else Some (p, shared, non_shared, value_length))"
    unfolding DecodeEntry_def read_bytes_def Let_def r_def using l by simp
  from this [unfolded assms(3), symmetric]
  have d: "r = Some (p, shared, non_shared, value_length)"
    and c: "\<not> (limit - p) mod 2 ^ 32 < (non_shared + value_length) mod 2 ^ 32"
    unfolding option.inject case_checked_eq_Some by blast+
  have "off + 3 \<le> p \<and> p \<le> limit"
    using d l unfolding r_def by (auto simp: bind_eq_Some_conv split: if_splits dest!: coding_okD [OF assms(1)])
  with c assms(2,4) show "off + 3 \<le> p" "p + non_shared + value_length \<le> limit" by auto
qed

text \<open>Where all bytes are below 128, every entry has its lengths in one byte each.\<close>

lemma DecodeEntry_short:
  assumes "list_all (\<lambda>c. of_char c < (128 :: nat)) data"
    and "DecodeEntry cd data off limit = Some (Some (p, shared, non_shared, value_length))"
  shows "non_shared + value_length < 2 ^ 32"
proof -
  have b: "of_char (data ! i) < (128 :: nat)" if "i < length data" for i
    using assms(1) that by (simp add: list_all_length)
  from assms(2) have "off + 3 \<le> limit" "limit \<le> length data"
    by (auto simp: DecodeEntry_def read_bytes_def split: if_splits)
  with assms(2) b [of off] b [of "Suc off"] b [of "Suc (Suc off)"] show ?thesis
    by (auto simp: DecodeEntry_def read_bytes_def Let_def split: if_splits)
qed

section \<open>No access outside the block\<close>

definition in_block :: "block_iter \<Rightarrow> bool" where
  "in_block it \<longleftrightarrow>
     0 < num_restarts it \<and> restarts it + 4 * num_restarts it \<le> length (bi_data it) \<and> length (bi_data it) < 2 ^ 32"

definition entries_fit :: "block_coding \<Rightarrow> string \<Rightarrow> nat \<Rightarrow> bool" where
  "entries_fit cd data limit \<longleftrightarrow>
     (\<forall>off p shared non_shared value_length.
        DecodeEntry cd data off limit = Some (Some (p, shared, non_shared, value_length)) \<longrightarrow>
        non_shared + value_length < 2 ^ 32)"

definition same_block :: "block_iter \<Rightarrow> block_iter \<Rightarrow> bool" where
  "same_block it it' \<longleftrightarrow>
     bi_data it' = bi_data it \<and> restarts it' = restarts it \<and> num_restarts it' = num_restarts it"

lemma same_block_refl [simp]: "same_block it it" by (simp add: same_block_def)

lemma same_block_trans [trans]: "same_block a b \<Longrightarrow> same_block b c \<Longrightarrow> same_block a c" by (simp add: same_block_def)

lemma in_block_same: "same_block it it' \<Longrightarrow> in_block it' \<longleftrightarrow> in_block it" by (simp add: in_block_def same_block_def)

definition restart_point :: "block_coding \<Rightarrow> block_iter \<Rightarrow> nat \<Rightarrow> nat" where
  "restart_point cd it j = unat (DecodeFixed32 cd (take 4 (drop (restarts it + j * 4) (bi_data it))))"

lemma restart_point_same: "same_block it it' \<Longrightarrow> restart_point cd it' = restart_point cd it"
  by (simp add: restart_point_def same_block_def fun_eq_iff)

lemma restart_point_less: "restart_point cd it j < 2 ^ 32"
  unfolding restart_point_def by (rule order_less_le_trans [OF unsigned_less]) simp

lemma GetRestartPoint_eq:
  "in_block it \<Longrightarrow> j < num_restarts it \<Longrightarrow> GetRestartPoint cd j it = Some (restart_point cd it j)"
  by (simp add: GetRestartPoint_def in_block_def read_bytes_def restart_point_def)

lemma SeekToRestartPoint_eq:
  "in_block it \<Longrightarrow> j < num_restarts it \<Longrightarrow>
    SeekToRestartPoint cd j it = Some (it\<lparr>bi_key := [], restart_index := j, bi_value := Some (restart_point cd it j, 0)\<rparr>)"
  by (simp add: SeekToRestartPoint_def GetRestartPoint_def in_block_def read_bytes_def restart_point_def)

text \<open>The restart index moves up past restart points before the current entry only.\<close>

lemma advance_restart_spec:
  assumes "in_block it" and "restart_index it < num_restarts it"
  shows "\<exists>r. advance_restart cd it = Some (it\<lparr>restart_index := r\<rparr>) \<and> r < num_restarts it \<and>
    (r = restart_index it \<or> restart_point cd it r < current it)"
  using assms
proof (induction cd it rule: advance_restart.induct)
  case (1 cd it)
  show ?case
  proof (cases "restart_index it + 1 < num_restarts it \<and> restart_point cd it (restart_index it + 1) < current it")
    case True
    let ?it = "it\<lparr>restart_index := restart_index it + 1\<rparr>"
    have s: "in_block ?it" "restart_point cd ?it = restart_point cd it"
      using 1(2) by (simp_all add: in_block_def restart_point_def fun_eq_iff)
    from 1(1) [OF _ _ _ s(1)] True GetRestartPoint_eq [OF 1(2), of "restart_index it + 1" cd]
    obtain r where "advance_restart cd ?it = Some (it\<lparr>restart_index := r\<rparr>)" "r < num_restarts it"
      "r = restart_index it + 1 \<or> restart_point cd it r < current it" using s(2) by auto
    with True GetRestartPoint_eq [OF 1(2), of "restart_index it + 1" cd] show ?thesis
      by (intro exI [of _ r]) (subst advance_restart.simps, auto)
  next
    case False
    with 1(2,3) GetRestartPoint_eq [OF 1(2), of "restart_index it + 1" cd] show ?thesis
      by (intro exI [of _ "restart_index it"]) (subst advance_restart.simps, auto)
  qed
qed

text \<open>
  An iterator that stands on an entry knows where the entry ends; \<open>scanning\<close> is the state between two entries
  of a scan, where only that end matters.
\<close>

definition scanning :: "block_coding \<Rightarrow> nat \<Rightarrow> block_iter \<Rightarrow> bool" where
  "scanning cd off it \<longleftrightarrow>
     in_block it \<and> entries_fit cd (bi_data it) (restarts it) \<and> restart_index it < num_restarts it \<and> off < 2 ^ 32 \<and>
     NextEntryOffset it = Some off"

definition block_iter_ok :: "block_coding \<Rightarrow> block_iter \<Rightarrow> bool" where
  "block_iter_ok cd it \<longleftrightarrow>
     in_block it \<and> entries_fit cd (bi_data it) (restarts it) \<and> current it \<le> restarts it \<and>
     (Block_Valid it \<longrightarrow>
        restart_index it < num_restarts it \<and>
        (\<exists>off len. bi_value it = Some (off, len) \<and> current it < off + len \<and> off + len \<le> restarts it))"

lemma block_iter_ok_scanning:
  assumes "block_iter_ok cd it" and "Block_Valid it"
  shows "\<exists>off. scanning cd off it \<and> current it < off"
  using assms by (auto simp: block_iter_ok_def scanning_def NextEntryOffset_def in_block_def)

lemma SeekToRestartPoint_scanning:
  assumes "in_block it" and "entries_fit cd (bi_data it) (restarts it)" and "j < num_restarts it"
  shows "\<exists>it'. SeekToRestartPoint cd j it = Some it' \<and> scanning cd (restart_point cd it j) it' \<and> same_block it it'"
  using assms restart_point_less [of cd it j]
  by (simp add: SeekToRestartPoint_eq scanning_def in_block_def same_block_def NextEntryOffset_def)

lemma ParseNextKey_ok:
  assumes cd: "coding_ok cd" and it: "scanning cd off it"
  shows "\<exists>ok it'. ParseNextKey cd it = Some (ok, it') \<and> block_iter_ok cd it' \<and> same_block it it' \<and> Block_Valid it' = ok \<and>
    (ok \<longrightarrow> current it' = off)"
proof -
  have g: "in_block it" "entries_fit cd (bi_data it) (restarts it)" "restart_index it < num_restarts it"
    "NextEntryOffset it = Some off" using it by (auto simp: scanning_def)
  from g(1) have r: "restarts it \<le> length (bi_data it)" "restarts it < 2 ^ 32" by (auto simp: in_block_def)
  consider "restarts it \<le> off" | "off < restarts it" "DecodeEntry cd (bi_data it) off (restarts it) = Some None"
    | d where "off < restarts it" "DecodeEntry cd (bi_data it) off (restarts it) = Some (Some d)"
    using DecodeEntry_total [OF r(1), of cd off] by (metis not_less option.exhaust)
  then show ?thesis
  proof cases
    case 1
    with g show ?thesis
      by (auto simp: ParseNextKey_def block_iter_ok_def same_block_def Block_Valid_def in_block_def)
  next
    case 2
    with g show ?thesis
      by (auto simp: ParseNextKey_def CorruptionError_def block_iter_ok_def same_block_def Block_Valid_def in_block_def)
  next
    case 3
    obtain p sh ns vl where d: "d = (p, sh, ns, vl)" by (cases d)
    from g(2) 3(2) d have "ns + vl < 2 ^ 32" unfolding entries_fit_def by blast
    from DecodeEntry_bounds [OF cd r(2) 3(2) [unfolded d] this] have b: "off + 3 \<le> p" "p + ns + vl \<le> restarts it" by auto
    show ?thesis
    proof (cases "length (bi_key it) < sh")
      case True
      with 3 g d show ?thesis
        by (auto simp: ParseNextKey_def CorruptionError_def block_iter_ok_def same_block_def Block_Valid_def in_block_def)
    next
      case False
      let ?it = "it\<lparr>current := off, bi_key := take sh (bi_key it) @ take ns (drop p (bi_data it)),
        bi_value := Some (p + ns, vl)\<rparr>"
      have "in_block ?it" "restart_index ?it < num_restarts ?it" using g by (auto simp: in_block_def)
      from advance_restart_spec [OF this] obtain r' where
        "advance_restart cd ?it = Some (?it\<lparr>restart_index := r'\<rparr>)" "r' < num_restarts it" by auto
      with False 3 g d b r show ?thesis
        by (auto simp: ParseNextKey_def read_bytes_def block_iter_ok_def same_block_def Block_Valid_def in_block_def)
    qed
  qed
qed

lemma skip_until_ok:
  assumes cd: "coding_ok cd"
  shows "scanning cd off it \<Longrightarrow> \<exists>it'. skip_until cd limit it = Some it' \<and> block_iter_ok cd it' \<and> same_block it it'"
proof (induction "restarts it - off" arbitrary: it off rule: less_induct)
  case less
  from ParseNextKey_ok [OF cd less.prems] obtain ok it1 where
    p: "ParseNextKey cd it = Some (ok, it1)" "block_iter_ok cd it1" "same_block it it1" "Block_Valid it1 = ok"
      "ok \<longrightarrow> current it1 = off" by blast
  show ?case
  proof (cases ok)
    case True
    with p(4) block_iter_ok_scanning [OF p(2)] obtain e where e: "scanning cd e it1" "current it1 < e" by blast
    from True p(3,4,5) have "off < restarts it" "restarts it1 = restarts it"
      by (auto simp: Block_Valid_def same_block_def)
    with e(2) p(5) True have m: "restarts it1 - e < restarts it - off" by auto
    have o: "NextEntryOffset it1 = Some e" using e(1) by (simp add: scanning_def)
    show ?thesis
    proof (cases "e < limit")
      case True
      from less.hyps [OF m e(1)] obtain it2 where
        "skip_until cd limit it1 = Some it2" "block_iter_ok cd it2" "same_block it1 it2" by blast
      with True \<open>ok\<close> p(1,3) o show ?thesis
        by (subst skip_until.simps) (auto intro: same_block_trans)
    next
      case False
      with \<open>ok\<close> p o show ?thesis by (subst skip_until.simps) auto
    qed
  next
    case False
    with p show ?thesis by (subst skip_until.simps) auto
  qed
qed

lemma seek_linear_ok:
  assumes cd: "coding_ok cd"
  shows "scanning cd off it \<Longrightarrow> \<exists>it'. seek_linear cd cmp t it = Some it' \<and> block_iter_ok cd it' \<and> same_block it it'"
proof (induction "restarts it - off" arbitrary: it off rule: less_induct)
  case less
  from ParseNextKey_ok [OF cd less.prems] obtain ok it1 where
    p: "ParseNextKey cd it = Some (ok, it1)" "block_iter_ok cd it1" "same_block it it1" "Block_Valid it1 = ok"
      "ok \<longrightarrow> current it1 = off" by blast
  show ?case
  proof (cases "ok \<and> \<not> cmp (bi_key it1) t \<ge> 0")
    case True
    with p(4) block_iter_ok_scanning [OF p(2)] obtain e where e: "scanning cd e it1" "current it1 < e" by blast
    from True p(3,4,5) have "off < restarts it" "restarts it1 = restarts it"
      by (auto simp: Block_Valid_def same_block_def)
    with e(2) p(5) True have "restarts it1 - e < restarts it - off" by auto
    from less.hyps [OF this e(1)] obtain it2 where
      "seek_linear cd cmp t it1 = Some it2" "block_iter_ok cd it2" "same_block it1 it2" by blast
    with True p(1,3) show ?thesis by (subst seek_linear.simps) (auto intro: same_block_trans)
  next
    case False
    with p show ?thesis by (subst seek_linear.simps) auto
  qed
qed

text \<open>The binary search keeps to the restart array, whatever the keys are.\<close>

lemma mid_between:
  assumes "in_block it" and "left < right" and "right < num_restarts it"
  shows "left < (left + right + 1) mod 2 ^ 32 div 2" and "(left + right + 1) mod 2 ^ 32 div 2 \<le> right"
proof -
  from assms have "left + right + 1 < 2 ^ 32" by (simp add: in_block_def)
  then have "(left + right + 1) mod 2 ^ 32 = left + right + 1" by (rule mod_less)
  with assms(2) show "left < (left + right + 1) mod 2 ^ 32 div 2" "(left + right + 1) mod 2 ^ 32 div 2 \<le> right" by simp_all
qed

lemma seek_restart_ok:
  assumes cd: "coding_ok cd" and it: "in_block it" "entries_fit cd (bi_data it) (restarts it)"
  shows "left \<le> right \<Longrightarrow> right < num_restarts it \<Longrightarrow>
    \<exists>r. seek_restart cd cmp t left right it = Some r \<and> (\<forall>l. r = Some l \<longrightarrow> l < num_restarts it)"
proof (induction "right - left" arbitrary: left right rule: less_induct)
  case less
  let ?mid = "(left + right + 1) mod 2 ^ 32 div 2"
  from it(1) have r: "restarts it \<le> length (bi_data it)" "restarts it < 2 ^ 32" by (auto simp: in_block_def)
  show ?case
  proof (cases "left < right")
    case True
    note m = mid_between [OF it(1) True less.prems(2)]
    have g: "GetRestartPoint cd ?mid it = Some (restart_point cd it ?mid)"
      using GetRestartPoint_eq [OF it(1)] m(2) less.prems(2) by auto
    obtain d where d: "DecodeEntry cd (bi_data it) (restart_point cd it ?mid) (restarts it) = Some d"
      using DecodeEntry_total [OF r(1)] by blast
    have hi: "\<exists>r. seek_restart cd cmp t ?mid right it = Some r \<and> (\<forall>l. r = Some l \<longrightarrow> l < num_restarts it)"
      by (rule less.hyps) (use m less.prems in auto)
    have lo: "\<exists>r. seek_restart cd cmp t left (?mid - 1) it = Some r \<and> (\<forall>l. r = Some l \<longrightarrow> l < num_restarts it)"
      by (rule less.hyps) (use m less.prems in auto)
    show ?thesis
    proof (cases d)
      case None
      with True g d show ?thesis by (subst seek_restart.simps) (simp add: Let_def)
    next
      case (Some q)
      obtain p sh ns vl where q: "q = (p, sh, ns, vl)" by (cases q)
      from it(2) d Some q have "ns + vl < 2 ^ 32" unfolding entries_fit_def by blast
      from DecodeEntry_bounds [OF cd r(2) d [unfolded Some q] this] r(1)
      have "read_bytes (bi_data it) p ns = Some (take ns (drop p (bi_data it)))" by (simp add: read_bytes_def)
      with True g d Some q hi lo show ?thesis by (subst seek_restart.simps) (simp add: Let_def)
    qed
  next
    case False
    with less.prems show ?thesis by (subst seek_restart.simps) simp
  qed
qed

lemma scan_back_spec:
  assumes it: "in_block it"
  shows "r < num_restarts it \<Longrightarrow>
    \<exists>x. scan_back cd original r it = Some x \<and> (\<forall>l. x = Some l \<longrightarrow> l \<le> r \<and> restart_point cd it l < original) \<and>
      (x = None \<longrightarrow> original \<le> restart_point cd it 0)"
proof (induction r)
  case 0
  with GetRestartPoint_eq [OF it, of 0 cd] show ?case by (subst scan_back.simps) auto
next
  case (Suc r)
  with GetRestartPoint_eq [OF it, of "Suc r" cd] show ?case by (subst scan_back.simps) (auto intro: le_SucI)
qed

lemma block_Next_ok:
  assumes cd: "coding_ok cd" and it: "block_iter_ok cd it" and v: "Block_Valid it"
  shows "\<exists>it'. Block_Next cd it = Some it' \<and> block_iter_ok cd it'"
proof -
  from block_iter_ok_scanning [OF it v] obtain off where "scanning cd off it" by blast
  from ParseNextKey_ok [OF cd this] v show ?thesis by (auto simp: Block_Next_def)
qed

lemma block_iter_ok_seek:
  assumes "block_iter_ok cd it" and "j < num_restarts it"
  shows "\<exists>it'. SeekToRestartPoint cd j it = Some it' \<and> scanning cd (restart_point cd it j) it'"
  using SeekToRestartPoint_scanning [of it cd j] assms by (auto simp: block_iter_ok_def)

lemma block_iter_ok_invalid:
  assumes "block_iter_ok cd it"
  shows "block_iter_ok cd (it\<lparr>current := restarts it, restart_index := num_restarts it\<rparr>)"
    and "block_iter_ok cd (CorruptionError it)"
  using assms by (simp_all add: block_iter_ok_def in_block_def Block_Valid_def CorruptionError_def)

lemma block_Prev_ok:
  assumes cd: "coding_ok cd" and it: "block_iter_ok cd it" and v: "Block_Valid it"
  shows "\<exists>it'. Block_Prev cd it = Some it' \<and> block_iter_ok cd it'"
proof -
  from it v have g: "in_block it" "restart_index it < num_restarts it" by (auto simp: block_iter_ok_def)
  from scan_back_spec [OF g, of cd "current it"] obtain x where
    x: "scan_back cd (current it) (restart_index it) it = Some x" "\<forall>l. x = Some l \<longrightarrow> l \<le> restart_index it" by blast
  show ?thesis
  proof (cases x)
    case None
    with v x(1) block_iter_ok_invalid(1) [OF it] show ?thesis by (simp add: Block_Prev_def)
  next
    case (Some l)
    with x(2) g(2) block_iter_ok_seek [OF it, of l] obtain it1 where "SeekToRestartPoint cd l it = Some it1"
      "scanning cd (restart_point cd it l) it1" by auto
    with skip_until_ok [OF cd this(2), of "current it"] v x(1) Some show ?thesis by (auto simp: Block_Prev_def)
  qed
qed

lemma block_Seek_ok:
  assumes cd: "coding_ok cd" and it: "block_iter_ok cd it"
  shows "\<exists>it'. Block_Seek cd cmp t it = Some it' \<and> block_iter_ok cd it'"
proof -
  from it have g: "in_block it" "entries_fit cd (bi_data it) (restarts it)" "0 < num_restarts it"
    by (auto simp: block_iter_ok_def in_block_def)
  from seek_restart_ok [OF cd g(1,2), of 0 "num_restarts it - 1" cmp t] g(3) obtain r where
    r: "seek_restart cd cmp t 0 (num_restarts it - 1) it = Some r" "\<forall>l. r = Some l \<longrightarrow> l < num_restarts it" by auto
  show ?thesis
  proof (cases r)
    case None
    with r(1) block_iter_ok_invalid(2) [OF it] show ?thesis by (simp add: Block_Seek_def)
  next
    case (Some l)
    with r(2) block_iter_ok_seek [OF it, of l] obtain it1 where "SeekToRestartPoint cd l it = Some it1"
      "scanning cd (restart_point cd it l) it1" by auto
    with seek_linear_ok [OF cd this(2)] r(1) Some show ?thesis by (auto simp: Block_Seek_def)
  qed
qed

lemma block_ends_ok:
  assumes cd: "coding_ok cd" and it: "block_iter_ok cd it"
  shows "\<exists>it'. Block_SeekToFirst cd it = Some it' \<and> block_iter_ok cd it'"
    and "\<exists>it'. Block_SeekToLast cd it = Some it' \<and> block_iter_ok cd it'"
proof -
  from it have n: "0 < num_restarts it" by (auto simp: block_iter_ok_def in_block_def)
  with block_iter_ok_seek [OF it, of 0] block_iter_ok_seek [OF it, of "num_restarts it - 1"] obtain it1 it2 where
    s: "SeekToRestartPoint cd 0 it = Some it1" "scanning cd (restart_point cd it 0) it1"
      "SeekToRestartPoint cd (num_restarts it - 1) it = Some it2"
      "scanning cd (restart_point cd it (num_restarts it - 1)) it2" by fastforce
  from ParseNextKey_ok [OF cd s(2)] s(1) show "\<exists>it'. Block_SeekToFirst cd it = Some it' \<and> block_iter_ok cd it'"
    by (auto simp: Block_SeekToFirst_def)
  from skip_until_ok [OF cd s(4)] s(3) show "\<exists>it'. Block_SeekToLast cd it = Some it' \<and> block_iter_ok cd it'"
    by (fastforce simp: Block_SeekToLast_def)
qed

text \<open>A client that asks \<open>Valid\<close> before it moves on.\<close>

definition checked_move :: "('it, 'k, 'v) iter_ops \<Rightarrow> 'k move \<Rightarrow> 'it \<Rightarrow> 'it option" where
  "checked_move ops m it = (if (m = MNext \<or> m = MPrev) \<and> \<not> iValid ops it then Some it else do_move ops m it)"

lemma checked_moves_ok:
  assumes cd: "coding_ok cd"
  shows "block_iter_ok cd it \<Longrightarrow>
    \<exists>it'. moves (checked_move (block_iter_ops cd cmp)) ms it = Some it' \<and> block_iter_ok cd it'"
proof (induction ms arbitrary: it)
  case (Cons m ms)
  note ops = block_Next_ok [OF cd Cons.prems] block_Prev_ok [OF cd Cons.prems] block_Seek_ok [OF cd Cons.prems]
    block_ends_ok [OF cd Cons.prems]
  have "\<exists>it1. checked_move (block_iter_ops cd cmp) m it = Some it1 \<and> block_iter_ok cd it1"
    using Cons.prems ops by (cases m) (auto simp: checked_move_def block_iter_ops_def)
  with Cons.IH show ?case by auto
qed simp

lemma block_iter_ok_view:
  assumes "block_iter_ok cd it" and "Block_Valid it"
  shows "\<exists>k v. Block_key it = Some k \<and> Block_value it = Some v"
  using assms by (auto simp: Block_key_def Block_value_def block_iter_ok_def in_block_def read_bytes_def)

text \<open>What the constructor makes of the bytes.\<close>

lemma Block_cases:
  assumes "length contents < 2 ^ 32"
  shows "\<exists>b. Block cd contents = Some b \<and> blk_data b = contents \<and>
    (blk_size b = 0 \<or>
     (blk_size b = length contents \<and> 4 \<le> length contents \<and>
      (\<exists>n. NumRestarts cd b = Some n \<and> restart_offset b + 4 * (1 + n) = length contents)))"
proof (cases "length contents < 4")
  case False
  let ?n = "unat (DecodeFixed32 cd (drop (length contents - 4) contents))"
  from False have n: "NumRestarts cd \<lparr>blk_data = contents, blk_size = length contents, restart_offset = r\<rparr> = Some ?n" for r
    by (simp add: NumRestarts_def read_bytes_def)
  show ?thesis
  proof (cases "?n > (length contents - 4) div 4")
    case True
    with False n [of 0] show ?thesis by (simp add: Block_def Let_def)
  next
    case ok: False
    with False have "4 * (1 + ?n) \<le> length contents" by simp
    moreover from this assms have "(1 + ?n) mod 2 ^ 32 = 1 + ?n" "(length contents - (1 + ?n) * 4) mod 2 ^ 32 = length contents - (1 + ?n) * 4"
      by simp_all
    ultimately show ?thesis using ok False n by (simp add: Block_def Let_def)
  qed
qed (simp add: Block_def)

lemma NewIterator_ok:
  assumes "length contents < 2 ^ 32" and "\<forall>limit. entries_fit cd contents limit"
  shows "\<exists>b n. Block cd contents = Some b \<and> NewIterator cd b = Some n \<and> (\<forall>it. n = BlockIterator it \<longrightarrow> block_iter_ok cd it)"
proof -
  from Block_cases [OF assms(1), of cd] obtain b where b: "Block cd contents = Some b" "blk_data b = contents"
    and c: "blk_size b = 0 \<or> (blk_size b = length contents \<and> 4 \<le> length contents \<and>
      (\<exists>n. NumRestarts cd b = Some n \<and> restart_offset b + 4 * (1 + n) = length contents))" by blast
  from c show ?thesis
  proof (elim disjE conjE exE)
    fix n assume "blk_size b = length contents" "4 \<le> length contents" "NumRestarts cd b = Some n"
      "restart_offset b + 4 * (1 + n) = length contents"
    with b assms show ?thesis
      by (cases "n = 0") (auto simp: NewIterator_def Iter_def block_iter_ok_def in_block_def Block_Valid_def)
  qed (use b in \<open>simp add: NewIterator_def\<close>)
qed

section \<open>A concrete coding\<close>

text \<open>The documented encodings: little-endian 32-bit numbers, and seven bits per byte with a continuation bit.\<close>

fun get_varint :: "nat \<Rightarrow> string \<Rightarrow> (nat \<times> nat) option" where
  "get_varint shift [] = None"
| "get_varint shift (c # cs) =
     (if shift > 28 then None
      else if of_char c < (128 :: nat) then Some (of_char c * 2 ^ shift, 1)
      else do { (v, n) \<leftarrow> get_varint (shift + 7) cs; Some ((of_char c - 128) * 2 ^ shift + v, n + 1) })"

definition leveldb_coding :: block_coding where
  "leveldb_coding =
     \<lparr>DecodeFixed32 = (\<lambda>s. of_nat (foldr (\<lambda>c n. of_char c + 256 * n) s 0)),
      GetVarint32Ptr = (\<lambda>s. do { (v, n) \<leftarrow> get_varint 0 s; Some (of_nat v, n) })\<rparr>"

lemma get_varint_bounds: "get_varint shift s = Some (v, n) \<Longrightarrow> 0 < n \<and> n \<le> length s"
  by (induction shift s arbitrary: v n rule: get_varint.induct) (auto simp: bind_eq_Some_conv split: if_splits)

lemma leveldb_coding_ok: "coding_ok leveldb_coding"
  by (auto simp: coding_ok_def leveldb_coding_def bind_eq_Some_conv dest: get_varint_bounds)

definition sample_block :: string where
  "sample_block =
     [CHR 0x00, CHR 0x05, CHR 0x01] @ ''apple1'' @ [CHR 0x04, CHR 0x01, CHR 0x01] @ ''y2'' @
     [CHR 0x00, CHR 0x06, CHR 0x01] @ ''banana3'' @
     [CHR 0x00, CHR 0x00, CHR 0x00, CHR 0x00, CHR 0x0E, CHR 0x00, CHR 0x00, CHR 0x00, CHR 0x02, CHR 0x00, CHR 0x00, CHR 0x00]"

definition sample_iter :: block_iter where
  "sample_iter =
     \<lparr>bi_data = sample_block, restarts = 24, num_restarts = 2, current = 24, restart_index = 2, bi_key = [],
      bi_value = None, bi_status = BOk\<rparr>"

lemma sample_block_new:
  "Block leveldb_coding sample_block = Some \<lparr>blk_data = sample_block, blk_size = 36, restart_offset = 24\<rparr>"
  "NewIterator leveldb_coding \<lparr>blk_data = sample_block, blk_size = 36, restart_offset = 24\<rparr> = Some (BlockIterator sample_iter)"
  by (simp_all add: Block_def NewIterator_def NumRestarts_def read_bytes_def leveldb_coding_def sample_block_def Iter_def
      sample_iter_def Let_def)

lemma sample_block_fits: "entries_fit leveldb_coding sample_block limit"
  unfolding entries_fit_def by (intro allI impI) (erule DecodeEntry_short [rotated], simp add: sample_block_def)

section \<open>Properties\<close>

text \<open>
  C16: Whatever bytes a block holds, the constructor and every sequence of moves that asks \<open>Valid\<close> before
  \<open>Next\<close> and \<open>Prev\<close> return, without an access outside the block and without a failed assertion, and a valid
  position has a key and a value inside the block, if no entry that \<open>DecodeEntry\<close> accepts has lengths that overflow
  their 32-bit sum.
\<close>

theorem block_iterator_safe:
  assumes "coding_ok cd" and "length contents < 2 ^ 32" and "\<forall>limit. entries_fit cd contents limit"
  shows "\<exists>b n. Block cd contents = Some b \<and> NewIterator cd b = Some n \<and>
    (\<forall>it ms. n = BlockIterator it \<longrightarrow>
      (\<exists>it'. moves (checked_move (block_iter_ops cd cmp)) ms it = Some it' \<and>
        (Block_Valid it' \<longrightarrow> (\<exists>k v. Block_key it' = Some k \<and> Block_value it' = Some v))))"
  using NewIterator_ok [OF assms(2,3)] checked_moves_ok [OF assms(1)] block_iter_ok_view by meson

theorem block_iterator_safe_witness:
  "\<exists>it'. moves (checked_move (block_iter_ops leveldb_coding string_compare))
      [MSeek ''avocado'', MPrev, MPrev, MPrev, MPrev, MLast, MNext, MFirst, MNext] sample_iter = Some it'"
proof -
  have "length sample_block < 2 ^ 32" by (simp add: sample_block_def)
  from block_iterator_safe [OF leveldb_coding_ok this, of string_compare] sample_block_fits sample_block_new
  have "\<exists>it'. moves (checked_move (block_iter_ops leveldb_coding string_compare)) ms sample_iter = Some it'" for ms
    by fastforce
  then show ?thesis .
qed

text \<open>
  C17: The hypothesis on the lengths is needed: the check in \<open>DecodeEntry\<close> adds the two lengths in 32 bits, and
  an entry it accepts although they sum to \<open>2 ^ 32\<close> or more makes \<open>ParseNextKey\<close> copy the key from
  outside the block or leaves a valid iterator whose value reaches outside it.
\<close>

theorem block_entry_overflow:
  assumes "in_block it" and "restart_index it < num_restarts it" and "NextEntryOffset it = Some off"
    and "DecodeEntry cd (bi_data it) off (restarts it) = Some (Some (p, shared, non_shared, value_length))"
    and "shared \<le> length (bi_key it)" and "2 ^ 32 \<le> non_shared + value_length"
  shows "ParseNextKey cd it = None \<or>
    (\<exists>it'. ParseNextKey cd it = Some (True, it') \<and> Block_Valid it' \<and> Block_value it' = None)"
proof (cases "p + non_shared \<le> length (bi_data it)")
  case True
  let ?it = "it\<lparr>current := off, bi_key := take shared (bi_key it) @ take non_shared (drop p (bi_data it)),
    bi_value := Some (p + non_shared, value_length)\<rparr>"
  from assms(4) have off: "off < restarts it" by (auto simp: DecodeEntry_def split: if_splits)
  have "in_block ?it" "restart_index ?it < num_restarts ?it" using assms(1,2) by (auto simp: in_block_def)
  from advance_restart_spec [OF this] obtain r where "advance_restart cd ?it = Some (?it\<lparr>restart_index := r\<rparr>)" by auto
  moreover have "\<not> p + non_shared + value_length \<le> length (bi_data it)" using assms(1,6) by (simp add: in_block_def)
  ultimately show ?thesis using True assms off
    by (simp add: ParseNextKey_def read_bytes_def Block_Valid_def Block_value_def)
next
  case False
  moreover from assms(4) have "off < restarts it" by (auto simp: DecodeEntry_def split: if_splits)
  ultimately show ?thesis using assms(3-5) by (simp add: ParseNextKey_def read_bytes_def)
qed

definition overflow_block :: string where
  "overflow_block =
     [CHR 0x00, CHR 0xFF, CHR 0xFF, CHR 0xFF, CHR 0xFF, CHR 0x0F, CHR 0x01, CHR 0x41,
      CHR 0x00, CHR 0x00, CHR 0x00, CHR 0x00, CHR 0x01, CHR 0x00, CHR 0x00, CHR 0x00]"

theorem block_entry_overflow_witness:
  "ParseNextKey leveldb_coding
      \<lparr>bi_data = overflow_block, restarts = 8, num_restarts = 1, current = 8, restart_index = 0, bi_key = [],
       bi_value = Some (0, 0), bi_status = BOk\<rparr> = None \<or>
    (\<exists>it'. ParseNextKey leveldb_coding
      \<lparr>bi_data = overflow_block, restarts = 8, num_restarts = 1, current = 8, restart_index = 0, bi_key = [],
       bi_value = Some (0, 0), bi_status = BOk\<rparr> = Some (True, it') \<and> Block_Valid it' \<and> Block_value it' = None)"
  by (rule block_entry_overflow [where off = 0 and p = 7 and shared = 0 and non_shared = 4294967295 and value_length = 1])
    (simp_all add: in_block_def NextEntryOffset_def DecodeEntry_def read_bytes_def overflow_block_def leveldb_coding_def Let_def)

end
