(* ===== verification/Block_Contract.thy ===== *)
theory Block_Contract
  imports Block_Spec
begin

text \<open>
  The block iterator over the bytes of a sorted sequence of entries meets the iterator contract: the cursor over the
  sequence simulates it.
\<close>

section \<open>The layout of a block\<close>

text \<open>The bytes at \<open>off\<close> hold the entry \<open>e\<close>, given the key before it; the next entry is at \<open>nxt\<close>.\<close>

definition entry_at :: "block_coding \<Rightarrow> string \<Rightarrow> nat \<Rightarrow> nat \<Rightarrow> string \<Rightarrow> nat \<Rightarrow> string \<times> string \<Rightarrow> bool" where
  "entry_at cd data limit off key nxt e \<longleftrightarrow>
     (case DecodeEntry cd data off limit of
        Some (Some (p, shared, non_shared, value_length)) \<Rightarrow>
          off < p \<and> shared \<le> length key \<and> nxt = p + non_shared + value_length \<and> nxt \<le> limit \<and>
          fst e = take shared key @ take non_shared (drop p data) \<and> snd e = take value_length (drop (p + non_shared) data)
      | _ \<Rightarrow> False)"

definition key_before :: "(string \<times> string) list \<Rightarrow> nat \<Rightarrow> string" where
  "key_before es i = (if i = 0 then [] else fst (es ! (i - 1)))"

text \<open>
  The entry \<open>i\<close> of \<open>es\<close> is at \<open>offs ! i\<close>, and the restart point \<open>j\<close> is at the entry \<open>ri ! j\<close>, which shares no
  bytes with the key before it.
\<close>

definition block_layout :: "block_coding \<Rightarrow> block_iter \<Rightarrow> nat list \<Rightarrow> nat list \<Rightarrow> (string \<times> string) list \<Rightarrow> bool" where
  "block_layout cd it offs ri es \<longleftrightarrow>
     in_block it \<and> length offs = Suc (length es) \<and> offs ! 0 = 0 \<and> offs ! length es = restarts it \<and>
     (\<forall>i<length es. entry_at cd (bi_data it) (restarts it) (offs ! i) (key_before es i) (offs ! Suc i) (es ! i)) \<and>
     length ri = num_restarts it \<and> ri ! 0 = 0 \<and>
     (\<forall>j<num_restarts it.
        restart_point cd it j = offs ! (ri ! j) \<and> ri ! j \<le> length es \<and>
        (ri ! j < length es \<longrightarrow>
           entry_at cd (bi_data it) (restarts it) (offs ! (ri ! j)) [] (offs ! Suc (ri ! j)) (es ! (ri ! j)))) \<and>
     (es = [] \<longrightarrow> num_restarts it = 1) \<and> (\<forall>j<num_restarts it. es \<noteq> [] \<longrightarrow> ri ! j < length es)"

lemma entry_at_less: "entry_at cd data limit off key nxt e \<Longrightarrow> off < nxt \<and> nxt \<le> limit"
  by (auto simp: entry_at_def split: option.splits)

lemma block_layout_same: "same_block it it' \<Longrightarrow> block_layout cd it' offs ri es \<longleftrightarrow> block_layout cd it offs ri es"
  by (simp add: block_layout_def in_block_same restart_point_same) (simp add: same_block_def)

lemma block_layoutD:
  assumes "block_layout cd it offs ri es"
  shows "in_block it" and "length offs = Suc (length es)" and "offs ! 0 = 0" and "offs ! length es = restarts it"
    and "\<And>i. i < length es \<Longrightarrow>
      entry_at cd (bi_data it) (restarts it) (offs ! i) (key_before es i) (offs ! Suc i) (es ! i)"
    and "ri ! 0 = 0" and "\<And>j. j < num_restarts it \<Longrightarrow> restart_point cd it j = offs ! (ri ! j)"
    and "\<And>j. j < num_restarts it \<Longrightarrow> ri ! j \<le> length es"
    and "\<And>j. j < num_restarts it \<Longrightarrow> ri ! j < length es \<Longrightarrow>
      entry_at cd (bi_data it) (restarts it) (offs ! (ri ! j)) [] (offs ! Suc (ri ! j)) (es ! (ri ! j))"
    and "es = [] \<Longrightarrow> num_restarts it = 1" and "\<And>j. es \<noteq> [] \<Longrightarrow> j < num_restarts it \<Longrightarrow> ri ! j < length es"
  using assms unfolding block_layout_def by blast+

lemma offs_mono:
  assumes "block_layout cd it offs ri es" and "i < j" and "j \<le> length es"
  shows "offs ! i < offs ! j"
  using assms(2,3)
proof (induction j)
  case (Suc j)
  then have "offs ! j < offs ! Suc j" using entry_at_less [OF block_layoutD(5) [OF assms(1), of j]] by simp
  with Suc show ?case by (cases "i = j") auto
qed simp

lemma offs_less_iff:
  assumes "block_layout cd it offs ri es" and "i \<le> length es" and "j \<le> length es"
  shows "offs ! i < offs ! j \<longleftrightarrow> i < j"
  using offs_mono [OF assms(1), of i j] offs_mono [OF assms(1), of j i] assms(2,3)
  by (metis less_irrefl linorder_neqE_nat order_less_asym)

section \<open>Positions\<close>

definition block_at :: "nat list \<Rightarrow> nat list \<Rightarrow> (string \<times> string) list \<Rightarrow> block_iter \<Rightarrow> nat option \<Rightarrow> bool" where
  "block_at offs ri es it p \<longleftrightarrow>
     (case p of
        None \<Rightarrow> current it = restarts it
      | Some i \<Rightarrow>
          i < length es \<and> current it = offs ! i \<and> bi_key it = fst (es ! i) \<and>
          (\<exists>off len. bi_value it = Some (off, len) \<and> off + len = offs ! Suc i \<and>
             snd (es ! i) = take len (drop off (bi_data it))) \<and>
          restart_index it < num_restarts it \<and> ri ! restart_index it \<le> i)"

text \<open>Between two entries of a scan: the next entry to parse is \<open>i\<close>.\<close>

definition block_before ::
    "block_coding \<Rightarrow> nat list \<Rightarrow> nat list \<Rightarrow> (string \<times> string) list \<Rightarrow> block_iter \<Rightarrow> nat \<Rightarrow> bool" where
  "block_before cd offs ri es it i \<longleftrightarrow>
     i \<le> length es \<and> NextEntryOffset it = Some (offs ! i) \<and> restart_index it < num_restarts it \<and>
     ri ! restart_index it \<le> i \<and>
     (i < length es \<longrightarrow> entry_at cd (bi_data it) (restarts it) (offs ! i) (bi_key it) (offs ! Suc i) (es ! i))"

lemma offs_le:
  assumes "block_layout cd it offs ri es" and "i \<le> length es"
  shows "offs ! i \<le> restarts it" and "offs ! i < 2 ^ 32"
proof -
  show "offs ! i \<le> restarts it"
    using offs_mono [OF assms(1), of i "length es"] assms(2) block_layoutD(4) [OF assms(1)] by (cases "i = length es") auto
  then show "offs ! i < 2 ^ 32" using block_layoutD(1) [OF assms(1)] by (simp add: in_block_def)
qed

lemma block_at_before:
  assumes "block_layout cd it offs ri es" and "block_at offs ri es it (Some i)"
  shows "block_before cd offs ri es it (Suc i)"
  using assms(2) offs_le(2) [OF assms(1), of "Suc i"] block_layoutD(5) [OF assms(1), of "Suc i"]
  by (auto simp: block_at_def block_before_def NextEntryOffset_def key_before_def)

lemma SeekToRestartPoint_before:
  assumes "block_layout cd it offs ri es" and "j < num_restarts it"
  shows "\<exists>it'. SeekToRestartPoint cd j it = Some it' \<and> same_block it it' \<and> block_before cd offs ri es it' (ri ! j)"
  using SeekToRestartPoint_eq [OF block_layoutD(1) [OF assms(1)] assms(2), of cd] block_layoutD(7-9) [OF assms(1,2)]
    offs_le(2) [OF assms(1), of "ri ! j"] assms(2)
  by (auto simp: same_block_def block_before_def NextEntryOffset_def)

lemma ParseNextKey_before:
  assumes l: "block_layout cd it offs ri es" and b: "block_before cd offs ri es it i"
  shows "\<exists>it'. ParseNextKey cd it = Some (i < length es, it') \<and> same_block it it' \<and> block_at offs ri es it' (pos_of es i)"
proof (cases "i < length es")
  case True
  from b True have e: "entry_at cd (bi_data it) (restarts it) (offs ! i) (bi_key it) (offs ! Suc i) (es ! i)"
    and n: "NextEntryOffset it = Some (offs ! i)" "restart_index it < num_restarts it" "ri ! restart_index it \<le> i"
    by (auto simp: block_before_def)
  from e obtain p sh ns vl where
    d: "DecodeEntry cd (bi_data it) (offs ! i) (restarts it) = Some (Some (p, sh, ns, vl))"
    and f: "sh \<le> length (bi_key it)" "offs ! Suc i = p + ns + vl" "offs ! Suc i \<le> restarts it"
      "fst (es ! i) = take sh (bi_key it) @ take ns (drop p (bi_data it))" "snd (es ! i) = take vl (drop (p + ns) (bi_data it))"
    by (auto simp: entry_at_def split: option.splits)
  let ?it = "it\<lparr>current := offs ! i, bi_key := take sh (bi_key it) @ take ns (drop p (bi_data it)), bi_value := Some (p + ns, vl)\<rparr>"
  have i: "in_block ?it" "restart_index ?it < num_restarts ?it" "restart_point cd ?it = restart_point cd it"
    "restarts it \<le> length (bi_data it)"
    using block_layoutD(1) [OF l] n(2) by (auto simp: in_block_def restart_point_def fun_eq_iff)
  from advance_restart_spec [OF i(1,2), of cd] i(3) obtain r where
    r: "advance_restart cd ?it = Some (?it\<lparr>restart_index := r\<rparr>)" "r < num_restarts it"
      "r = restart_index it \<or> restart_point cd it r < offs ! i" by auto
  from r(3) have "ri ! r \<le> i"
    using n(3) block_layoutD(7,8) [OF l r(2)] offs_less_iff [OF l, of "ri ! r" i] True by auto
  with True d f n(1) i(4) r(1,2) entry_at_less [OF e] show ?thesis
    by (auto simp: ParseNextKey_def read_bytes_def same_block_def block_at_def pos_of_def)
next
  case False
  with b block_layoutD(4) [OF l] show ?thesis
    by (auto simp: block_before_def ParseNextKey_def same_block_def block_at_def pos_of_def)
qed

lemma skip_until_before:
  assumes l: "block_layout cd it offs ri es" and b: "block_before cd offs ri es it i" and m: "i \<le> m" "m < length es"
  shows "\<exists>it'. skip_until cd (offs ! Suc m) it = Some it' \<and> same_block it it' \<and> block_at offs ri es it' (Some m)"
  using l b m(1)
proof (induction "m - i" arbitrary: it i)
  case 0
  then have "i = m" by simp
  with ParseNextKey_before [OF 0(2,3)] m(2) obtain it' where
    p: "ParseNextKey cd it = Some (True, it')" "same_block it it'" "block_at offs ri es it' (Some m)" by (auto simp: pos_of_def)
  from p(2) 0(2) have "block_layout cd it' offs ri es" by (simp add: block_layout_same)
  from block_at_before [OF this p(3)] have "NextEntryOffset it' = Some (offs ! Suc m)" by (simp add: block_before_def)
  with p show ?case by (subst skip_until.simps) simp
next
  case (Suc k)
  from Suc.hyps(2) m(2) have im: "i < m" "i < length es" by auto
  with ParseNextKey_before [OF Suc(3,4)] obtain it1 where
    p: "ParseNextKey cd it = Some (True, it1)" "same_block it it1" "block_at offs ri es it1 (Some i)" by (auto simp: pos_of_def)
  from p(2) Suc(3) have l1: "block_layout cd it1 offs ri es" by (simp add: block_layout_same)
  note b1 = block_at_before [OF l1 p(3)]
  then have n: "NextEntryOffset it1 = Some (offs ! Suc i)" by (simp add: block_before_def)
  from Suc.hyps(2) have "k = m - Suc i" by simp
  from Suc.hyps(1) [OF this l1 b1] im obtain it2 where
    "skip_until cd (offs ! Suc m) it1 = Some it2" "same_block it1 it2" "block_at offs ri es it2 (Some m)" by auto
  with p n offs_less_iff [OF l1, of "Suc i" "Suc m"] im m(2) show ?case
    by (subst skip_until.simps) (auto intro: same_block_trans)
qed

section \<open>Search\<close>

definition entries_sorted :: "(string \<Rightarrow> string \<Rightarrow> int) \<Rightarrow> (string \<times> string) list \<Rightarrow> bool" where
  "entries_sorted cmp es \<longleftrightarrow> sorted_wrt (\<lambda>a b. cmp (fst a) (fst b) < 0) es"

abbreviation seek_index :: "(string \<Rightarrow> string \<Rightarrow> int) \<Rightarrow> string \<Rightarrow> (string \<times> string) list \<Rightarrow> nat" where
  "seek_index cmp t es \<equiv> length (takeWhile (\<lambda>e. cmp (fst e) t < 0) es)"

lemma seek_index_eqI:
  assumes "i \<le> length es" and "\<forall>j<i. cmp (fst (es ! j)) t < 0" and "i < length es \<Longrightarrow> \<not> cmp (fst (es ! i)) t < 0"
  shows "seek_index cmp t es = i"
proof (cases "i < length es")
  case True
  have "es = take i es @ es ! i # drop (Suc i) es" using True by (rule id_take_nth_drop)
  moreover have "takeWhile (\<lambda>e. cmp (fst e) t < 0) (take i es @ es ! i # drop (Suc i) es) = take i es"
    using assms(2,3) True by (subst takeWhile_append2) (auto simp: in_set_conv_nth)
  ultimately show ?thesis using True by simp
next
  case False
  with assms(1,2) have "\<forall>e\<in>set es. cmp (fst e) t < 0" by (metis in_set_conv_nth nat_less_le not_less)
  with False assms(1) show ?thesis by (simp add: takeWhile_eq_all_conv [THEN iffD2])
qed

lemma seek_linear_before:
  assumes l: "block_layout cd it offs ri es" and b: "block_before cd offs ri es it i"
    and lt: "\<forall>j<i. cmp (fst (es ! j)) t < 0"
  shows "\<exists>it'. seek_linear cd cmp t it = Some it' \<and> same_block it it' \<and>
    block_at offs ri es it' (pos_of es (seek_index cmp t es))"
  using l b lt
proof (induction "length es - i" arbitrary: it i rule: less_induct)
  case less
  from less.prems(2) have i: "i \<le> length es" by (simp add: block_before_def)
  from ParseNextKey_before [OF less.prems(1,2)] obtain it1 where
    p: "ParseNextKey cd it = Some (i < length es, it1)" "same_block it it1" "block_at offs ri es it1 (pos_of es i)" by blast
  from p(2) less.prems(1) have l1: "block_layout cd it1 offs ri es" by (simp add: block_layout_same)
  show ?case
  proof (cases "i < length es \<and> cmp (fst (es ! i)) t < 0")
    case True
    with p(3) have a: "block_at offs ri es it1 (Some i)" by (simp add: pos_of_def)
    from True have m: "length es - Suc i < length es - i" by (simp add: diff_less_mono2)
    from True less.prems(3) have "\<forall>j<Suc i. cmp (fst (es ! j)) t < 0" by (auto simp: less_Suc_eq)
    from less.hyps [OF m l1 block_at_before [OF l1 a] this] obtain it2 where
      "seek_linear cd cmp t it1 = Some it2" "same_block it1 it2"
      "block_at offs ri es it2 (pos_of es (seek_index cmp t es))" by auto
    with True p(1,2) a show ?thesis by (subst seek_linear.simps) (auto simp: block_at_def intro: same_block_trans)
  next
    case False
    with less.prems(3) i have "seek_index cmp t es = i" by (intro seek_index_eqI) auto
    with False p show ?thesis by (subst seek_linear.simps) (auto simp: block_at_def pos_of_def)
  qed
qed

lemma DecodeEntry_restart:
  assumes "block_layout cd it offs ri es" and "j < num_restarts it" and "es \<noteq> []"
  shows "\<exists>p ns vl. DecodeEntry cd (bi_data it) (restart_point cd it j) (restarts it) = Some (Some (p, 0, ns, vl)) \<and>
    read_bytes (bi_data it) p ns = Some (fst (es ! (ri ! j)))"
proof -
  from block_layoutD(9) [OF assms(1,2) block_layoutD(11) [OF assms(1,3,2)]] block_layoutD(7) [OF assms(1,2)]
  obtain p ns vl where "DecodeEntry cd (bi_data it) (restart_point cd it j) (restarts it) = Some (Some (p, 0, ns, vl))"
    "p + ns + vl \<le> restarts it" "fst (es ! (ri ! j)) = take ns (drop p (bi_data it))"
    by (auto simp: entry_at_def split: option.splits)
  with block_layoutD(1) [OF assms(1)] show ?thesis by (simp add: read_bytes_def in_block_def)
qed

text \<open>The binary search ends at a restart point where the linear search may start.\<close>

lemma seek_restart_spec:
  assumes l: "block_layout cd it offs ri es"
  shows "left \<le> right \<Longrightarrow> right < num_restarts it \<Longrightarrow> left = 0 \<or> cmp (fst (es ! (ri ! left))) t < 0 \<Longrightarrow>
    \<exists>r. seek_restart cd cmp t left right it = Some (Some r) \<and> r < num_restarts it \<and>
      (r = 0 \<or> cmp (fst (es ! (ri ! r))) t < 0)"
proof (induction "right - left" arbitrary: left right rule: less_induct)
  case less
  let ?mid = "(left + right + 1) mod 2 ^ 32 div 2"
  show ?case
  proof (cases "left < right")
    case True
    note m = mid_between [OF block_layoutD(1) [OF l] True less.prems(2)]
    from m less.prems(2) have mn: "?mid < num_restarts it" by linarith
    from True less.prems(2) have ne: "es \<noteq> []" using block_layoutD(10) [OF l] by auto
    from DecodeEntry_restart [OF l mn ne] obtain p ns vl where
      d: "DecodeEntry cd (bi_data it) (restart_point cd it ?mid) (restarts it) = Some (Some (p, 0, ns, vl))"
        "read_bytes (bi_data it) p ns = Some (fst (es ! (ri ! ?mid)))" by blast
    have hi: "\<exists>r. seek_restart cd cmp t ?mid right it = Some (Some r) \<and> r < num_restarts it \<and>
        (r = 0 \<or> cmp (fst (es ! (ri ! r))) t < 0)" if "cmp (fst (es ! (ri ! ?mid))) t < 0"
      by (rule less.hyps [OF diff_less_mono2 [OF m(1) True]]) (use m less.prems that in auto)
    have lo: "\<exists>r. seek_restart cd cmp t left (?mid - 1) it = Some (Some r) \<and> r < num_restarts it \<and>
        (r = 0 \<or> cmp (fst (es ! (ri ! r))) t < 0)"
      by (rule less.hyps) (use m less.prems in auto)
    from True d hi lo GetRestartPoint_eq [OF block_layoutD(1) [OF l] mn, of cd] show ?thesis
      by (subst seek_restart.simps) (auto simp: Let_def)
  next
    case False
    with less.prems show ?thesis by (subst seek_restart.simps) simp
  qed
qed

section \<open>The contract\<close>

definition block_repr ::
    "block_coding \<Rightarrow> (string \<Rightarrow> string \<Rightarrow> int) \<Rightarrow> block_iter \<Rightarrow> (string \<times> string) list \<Rightarrow> nat option \<Rightarrow> bool" where
  "block_repr cd cmp it es p \<longleftrightarrow>
     entries_sorted cmp es \<and> (\<exists>offs ri. block_layout cd it offs ri es \<and> block_at offs ri es it p)"

lemma block_reprI:
  assumes "entries_sorted cmp es" and "block_layout cd it offs ri es" and "same_block it it'"
    and "block_at offs ri es it' p"
  shows "block_repr cd cmp it' es p"
  using assms block_layout_same [OF assms(3)] unfolding block_repr_def by blast

lemma block_Next_repr:
  assumes "block_repr cd cmp it es (Some i)"
  shows "\<exists>it'. Block_Next cd it = Some it' \<and> block_repr cd cmp it' es (pos_of es (Suc i))"
proof -
  from assms obtain offs ri where s: "entries_sorted cmp es" and l: "block_layout cd it offs ri es"
    and a: "block_at offs ri es it (Some i)" by (auto simp: block_repr_def)
  from a block_layoutD(4) [OF l] offs_mono [OF l, of i "length es"] have "Block_Valid it"
    by (simp add: block_at_def Block_Valid_def)
  with ParseNextKey_before [OF l block_at_before [OF l a]] s l show ?thesis
    by (auto simp: Block_Next_def intro: block_reprI)
qed

lemma block_Prev_repr:
  assumes "block_repr cd cmp it es (Some i)"
  shows "\<exists>it'. Block_Prev cd it = Some it' \<and> block_repr cd cmp it' es (if i = 0 then None else Some (i - 1))"
proof -
  from assms obtain offs ri where s: "entries_sorted cmp es" and l: "block_layout cd it offs ri es"
    and a: "block_at offs ri es it (Some i)" by (auto simp: block_repr_def)
  from a have i: "i < length es" "current it = offs ! i" "restart_index it < num_restarts it" by (auto simp: block_at_def)
  from i block_layoutD(4) [OF l] offs_mono [OF l, of i "length es"] have v: "Block_Valid it" by (simp add: Block_Valid_def)
  note g = block_layoutD(1) [OF l]
  then have n: "0 < num_restarts it" by (simp add: in_block_def)
  from scan_back_spec [OF g i(3), of cd "current it"] obtain x where
    x: "scan_back cd (current it) (restart_index it) it = Some x"
      "\<And>r. x = Some r \<Longrightarrow> r \<le> restart_index it \<and> restart_point cd it r < current it"
      "x = None \<Longrightarrow> current it \<le> restart_point cd it 0" by blast
  show ?thesis
  proof (cases x)
    case None
    with x(3) i(1,2) block_layoutD(3,6) [OF l] block_layoutD(7) [OF l n] offs_mono [OF l, of 0 i] have "i = 0"
      by (cases i) auto
    with None v x(1) s l show ?thesis
      by (auto simp: Block_Prev_def same_block_def block_at_def intro: block_reprI)
  next
    case (Some r)
    with x(2) i(2,3) have r: "r < num_restarts it" "restart_point cd it r < offs ! i" by auto
    with block_layoutD(7,8) [OF l r(1)] offs_less_iff [OF l, of "ri ! r" i] i(1) have ri: "ri ! r < i" by auto
    from SeekToRestartPoint_before [OF l r(1)] obtain it1 where
      k: "SeekToRestartPoint cd r it = Some it1" "same_block it it1" "block_before cd offs ri es it1 (ri ! r)" by blast
    have l1: "block_layout cd it1 offs ri es" using l k(2) by (simp add: block_layout_same)
    from ri i(1) have m: "ri ! r \<le> i - 1" "i - 1 < length es" "Suc (i - 1) = i" by auto
    from skip_until_before [OF l1 k(3) m(1,2)] m(3) obtain it2 where
      "skip_until cd (offs ! i) it1 = Some it2" "same_block it1 it2" "block_at offs ri es it2 (Some (i - 1))" by auto
    with v x(1) Some k(1) i(2) s l1 ri show ?thesis
      by (auto simp: Block_Prev_def intro: block_reprI)
  qed
qed

lemma block_Seek_repr:
  assumes "comparator cmp" and "block_repr cd cmp it es p"
  shows "\<exists>it'. Block_Seek cd cmp t it = Some it' \<and> block_repr cd cmp it' es (pos_of es (seek_index cmp t es))"
proof -
  from assms(2) obtain offs ri where s: "entries_sorted cmp es" and l: "block_layout cd it offs ri es"
    by (auto simp: block_repr_def)
  from block_layoutD(1) [OF l] have n: "0 < num_restarts it" by (simp add: in_block_def)
  from seek_restart_spec [OF l, of 0 "num_restarts it - 1" cmp t] n obtain r where
    r: "seek_restart cd cmp t 0 (num_restarts it - 1) it = Some (Some r)" "r < num_restarts it"
      "r = 0 \<or> cmp (fst (es ! (ri ! r))) t < 0" by auto
  from SeekToRestartPoint_before [OF l r(2)] obtain it1 where
    k: "SeekToRestartPoint cd r it = Some it1" "same_block it it1" "block_before cd offs ri es it1 (ri ! r)" by blast
  have l1: "block_layout cd it1 offs ri es" using l k(2) by (simp add: block_layout_same)
  have "cmp (fst (es ! j)) t < 0" if j: "j < ri ! r" for j
  proof -
    from j r(2) block_layoutD(8,11) [OF l, of r] have len: "ri ! r < length es" by (cases "es = []") auto
    from j r(3) block_layoutD(6) [OF l] have "cmp (fst (es ! (ri ! r))) t < 0" by (cases "r = 0") auto
    moreover from s len j have "cmp (fst (es ! j)) (fst (es ! (ri ! r))) < 0"
      by (auto simp: entries_sorted_def sorted_wrt_iff_nth_less)
    ultimately show ?thesis using comparator.cmp_less_le_trans [OF assms(1)] by (meson less_imp_le)
  qed
  with seek_linear_before [OF l1 k(3)] obtain it2 where "seek_linear cd cmp t it1 = Some it2" "same_block it1 it2"
    "block_at offs ri es it2 (pos_of es (seek_index cmp t es))" by blast
  with r(1) k(1) s l1 show ?thesis by (auto simp: Block_Seek_def intro: block_reprI)
qed

lemma block_ends_repr:
  assumes "block_repr cd cmp it es p"
  shows "\<exists>it'. Block_SeekToFirst cd it = Some it' \<and> block_repr cd cmp it' es (pos_of es 0)"
    and "\<exists>it'. Block_SeekToLast cd it = Some it' \<and> block_repr cd cmp it' es (if es = [] then None else Some (length es - 1))"
proof -
  from assms obtain offs ri where s: "entries_sorted cmp es" and l: "block_layout cd it offs ri es"
    by (auto simp: block_repr_def)
  from block_layoutD(1) [OF l] have n: "0 < num_restarts it" "num_restarts it - 1 < num_restarts it"
    by (auto simp: in_block_def)
  from SeekToRestartPoint_before [OF l n(1)] block_layoutD(6) [OF l] obtain it1 where
    k: "SeekToRestartPoint cd 0 it = Some it1" "same_block it it1" "block_before cd offs ri es it1 0" by auto
  have l1: "block_layout cd it1 offs ri es" using l k(2) by (simp add: block_layout_same)
  from ParseNextKey_before [OF l1 k(3)] k(1) s l1
  show "\<exists>it'. Block_SeekToFirst cd it = Some it' \<and> block_repr cd cmp it' es (pos_of es 0)"
    by (auto simp: Block_SeekToFirst_def intro: block_reprI)
  from SeekToRestartPoint_before [OF l n(2)] obtain it2 where
    m: "SeekToRestartPoint cd (num_restarts it - 1) it = Some it2" "same_block it it2"
      "block_before cd offs ri es it2 (ri ! (num_restarts it - 1))" by blast
  have l2: "block_layout cd it2 offs ri es" using l m(2) by (simp add: block_layout_same)
  show "\<exists>it'. Block_SeekToLast cd it = Some it' \<and> block_repr cd cmp it' es (if es = [] then None else Some (length es - 1))"
  proof (cases "es = []")
    case True
    with ParseNextKey_before [OF l2 m(3)] obtain it3 where "ParseNextKey cd it2 = Some (False, it3)" "same_block it2 it3"
      "block_at offs ri es it3 None" by (auto simp: pos_of_def)
    with True m(1) s l2 show ?thesis
      by (auto simp: Block_SeekToLast_def skip_until.simps intro: block_reprI)
  next
    case False
    with block_layoutD(11) [OF l False n(2)] have e: "ri ! (num_restarts it - 1) \<le> length es - 1" "length es - 1 < length es"
      "Suc (length es - 1) = length es" by (auto simp: less_imp_le)
    from skip_until_before [OF l2 m(3) e(1,2)] e(3) block_layoutD(4) [OF l2] m(1) s l2 False show ?thesis
      by (auto simp: Block_SeekToLast_def intro: block_reprI)
  qed
qed

lemma block_at_view:
  assumes "block_repr cd cmp it es p"
  shows "Block_Valid it \<longleftrightarrow> p \<noteq> None" and "p = Some i \<Longrightarrow> i < length es"
    and "p = Some i \<Longrightarrow> Block_key it = Some (fst (es ! i))" and "p = Some i \<Longrightarrow> Block_value it = Some (snd (es ! i))"
proof -
  from assms obtain offs ri where l: "block_layout cd it offs ri es" and a: "block_at offs ri es it p"
    by (auto simp: block_repr_def)
  have v: "Block_Valid it" "i < length es" if "p = Some i" for i
    using a that block_layoutD(4) [OF l] offs_mono [OF l, of i "length es"] by (auto simp: block_at_def Block_Valid_def)
  then show "p = Some i \<Longrightarrow> i < length es" "Block_Valid it \<longleftrightarrow> p \<noteq> None"
    using a by (auto simp: block_at_def Block_Valid_def split: option.splits)
  show "p = Some i \<Longrightarrow> Block_key it = Some (fst (es ! i))" using v a by (auto simp: Block_key_def block_at_def)
  show "Block_value it = Some (snd (es ! i))" if p: "p = Some i"
    using v [OF p] a p offs_le(1) [OF l, of "Suc i"] block_layoutD(1) [OF l]
    by (auto simp: Block_value_def block_at_def read_bytes_def in_block_def)
qed

lemma block_entry_iterator:
  assumes "comparator cmp"
  shows "entry_iterator (block_iter_ops cd cmp) cmp (block_repr cd cmp)"
proof
  fix it es p i t
  show "sorted_wrt (\<lambda>a b. cmp (fst a) (fst b) < 0) es" if "block_repr cd cmp it es p"
    using that by (simp add: block_repr_def entries_sorted_def)
  show "i < length es" if "block_repr cd cmp it es (Some i)" using block_at_view(2) [OF that] by simp
qed (simp_all add: block_iter_ops_def block_at_view block_Next_repr block_Prev_repr [simplified] block_ends_repr [simplified]
    block_Seek_repr [OF assms])

interpretation blk: entry_iterator "block_iter_ops cd string_compare" string_compare "block_repr cd string_compare" for cd
  by (rule block_entry_iterator) (rule strcmp.comparator_axioms)

section \<open>The iterator refines the cursor\<close>

lemma block_repr_new:
  assumes "entries_sorted cmp es" and "block_layout cd it offs ri es" and "current it = restarts it"
  shows "block_repr cd cmp it es None"
  using assms by (auto simp: block_repr_def block_at_def)

text \<open>
  C15: On the bytes of a sorted sequence of entries every sequence of moves that the cursor over that sequence can make
  (\<open>Next\<close> and \<open>Prev\<close> from a position only) returns, and leaves the iterator on the cursor's entry, or not valid
  where the cursor is past an end: the binary search over the restart points, the prefix decompression and the
  backward scan together are the iterator of the sequence.
\<close>

theorem block_iterator_refines_cursor:
  assumes "entries_sorted string_compare es" and "block_layout cd it offs ri es" and "current it = restarts it"
    and "moves (cursor_move string_compare es) ms None = Some p"
  shows "\<exists>it'. moves (do_move (block_iter_ops cd string_compare)) ms it = Some it' \<and>
    Block_key it' = map_option (\<lambda>i. fst (es ! i)) p \<and> Block_value it' = map_option (\<lambda>i. snd (es ! i)) p"
proof -
  from blk.moves_simulate [OF block_repr_new [OF assms(1-3)] assms(4)] obtain it' where
    it': "moves (do_move (block_iter_ops cd string_compare)) ms it = Some it'" "block_repr cd string_compare it' es p" by blast
  have "Block_key it' = map_option (\<lambda>i. fst (es ! i)) p \<and> Block_value it' = map_option (\<lambda>i. snd (es ! i)) p"
    using block_at_view [OF it'(2)] by (cases p) (simp_all add: Block_key_def Block_value_def)
  with it'(1) show ?thesis by blast
qed

abbreviation sample_entries :: "(string \<times> string) list" where
  "sample_entries \<equiv> [(''apple'', ''1''), (''apply'', ''2''), (''banana'', ''3'')]"

lemma sample_layout: "block_layout leveldb_coding sample_iter [0, 9, 14, 24] [0, 2] sample_entries"
proof -
  have e: "entry_at leveldb_coding sample_block 24 ([0, 9, 14, 24] ! i) (key_before sample_entries i)
      ([0, 9, 14, 24] ! Suc i) (sample_entries ! i)" if "i < 3" for i
    using that
    by (auto simp: less_Suc_eq numeral_3_eq_3 entry_at_def key_before_def DecodeEntry_def read_bytes_def sample_block_def Let_def)
  have r: "restart_point leveldb_coding sample_iter j = [0, 9, 14, 24] ! ([0, 2] ! j) \<and>
      entry_at leveldb_coding sample_block 24 ([0, 9, 14, 24] ! ([0, 2] ! j)) [] ([0, 9, 14, 24] ! Suc ([0, 2] ! j))
        (sample_entries ! ([0, 2] ! j))" if "j < 2" for j
  proof -
    from that consider "j = 0" | "j = 1" by linarith
    then show ?thesis
      by cases (simp_all add: restart_point_def entry_at_def DecodeEntry_def read_bytes_def sample_block_def sample_iter_def
          leveldb_coding_def Let_def)
  qed
  have b: "length sample_block = 36" by (simp add: sample_block_def)
  have l: "[0, 2] ! j < Suc (Suc (Suc 0))" if "j < 2" for j using that by (auto simp: less_Suc_eq numeral_2_eq_2)
  show ?thesis
    unfolding block_layout_def using e r b l by (auto simp: in_block_def sample_iter_def less_imp_le)
qed

theorem block_iterator_refines_cursor_witness:
  "\<exists>it'. moves (do_move (block_iter_ops leveldb_coding string_compare)) [MSeek ''avocado'', MPrev] sample_iter = Some it' \<and>
    Block_key it' = Some ''apply'' \<and> Block_value it' = Some ''2''"
proof -
  have "entries_sorted string_compare sample_entries" by (simp add: entries_sorted_def)
  moreover have "moves (cursor_move string_compare sample_entries) [MSeek ''avocado'', MPrev] None = Some (Some 1)"
    by (simp add: pos_of_def)
  moreover have "current sample_iter = restarts sample_iter" by (simp add: sample_iter_def)
  ultimately show ?thesis
    using block_iterator_refines_cursor [OF _ sample_layout, of "[MSeek ''avocado'', MPrev]" "Some 1"] by simp
qed

end
