(* ===== verification/Internal_Keys.thy ===== *)
theory Internal_Keys
  imports Version_Edit
begin

text \<open>
  What the components of leveldb rely on about internal keys. The comparators and \<open>AppendInternalKey\<close>, declared in
  \<open>db/dbformat.h\<close>, are not part of the sources: \<open>key_laws\<close> is their documented behaviour, the locale \<open>internal_keys\<close> what
  follows from it, and byte strings with the documented packing an instance.
\<close>

text \<open>\<open>ExtractUserKey\<close> where a failed assertion is \<open>None\<close>.\<close>

definition user_key_of :: "bytes \<Rightarrow> bytes option" where
  "user_key_of k = (case ExtractUserKey k of Inl _ \<Rightarrow> None | Inr u \<Rightarrow> Some u)"

section \<open>Laws\<close>

definition parses :: "coding \<Rightarrow> bytes \<Rightarrow> bool" where
  "parses c k \<longleftrightarrow> (\<exists>p. ParseInternalKey c k = (True, Some p))"

definition parsed :: "coding \<Rightarrow> bytes \<Rightarrow> ParsedInternalKey" where
  "parsed c k = the (snd (ParseInternalKey c k))"

text \<open>
  The comparators are three-way comparators; a key that \<open>AppendInternalKey\<close> packs parses; internal keys are ordered by
  user key, then by decreasing sequence number and type.
\<close>

definition key_laws ::
    "coding \<Rightarrow> (ParsedInternalKey \<Rightarrow> bytes) \<Rightarrow> (bytes \<Rightarrow> bytes \<Rightarrow> int) \<Rightarrow> (bytes \<Rightarrow> bytes \<Rightarrow> int) \<Rightarrow> bool" where
  "key_laws c append_key ucmp icmp \<longleftrightarrow>
     comparator ucmp \<and> comparator icmp \<and>
     (\<forall>u s t. s \<le> kMaxSequenceNumber \<longrightarrow> t = kTypeDeletion \<or> t = kTypeValue \<longrightarrow>
        ParseInternalKey c (append_key \<lparr>user_key = u, sequence = s, ptype = t\<rparr>) =
          (True, Some \<lparr>user_key = u, sequence = s, ptype = t\<rparr>)) \<and>
     (\<forall>a b p q. ParseInternalKey c a = (True, Some p) \<longrightarrow> ParseInternalKey c b = (True, Some q) \<longrightarrow>
        (icmp a b < 0 \<longleftrightarrow>
           ucmp (user_key p) (user_key q) < 0 \<or>
           ucmp (user_key p) (user_key q) = 0 \<and>
           (sequence q < sequence p \<or>
            sequence q = sequence p \<and> value_type_code (ptype q) < value_type_code (ptype p))))"

lemma type_byte_cases: "(b :: 8 word) \<le> 1 \<Longrightarrow> b = 0 \<or> b = 1"
  by (simp add: word_le_nat_alt word_unat_eq_iff) linarith

lemma parses_user_key: "parses c k \<Longrightarrow> user_key_of k = Some (user_key (parsed c k))"
  by (auto simp: parses_def parsed_def ParseInternalKey_def user_key_of_def ExtractUserKey_def hard_assert_def Let_def
      split: if_splits)

lemma parses_nonempty: "parses c k \<Longrightarrow> k \<noteq> []"
  by (auto simp: parses_def ParseInternalKey_def)

lemma parsed_parts:
  assumes "parses c k"
  shows "sequence (parsed c k) \<le> kMaxSequenceNumber" and "ptype (parsed c k) = kTypeDeletion \<or> ptype (parsed c k) = kTypeValue"
proof -
  let ?num = "DecodeFixed64 c (drop (length k - 8) k)"
  from assms have p: "sequence (parsed c k) = drop_bit 8 ?num" "ptype (parsed c k) = value_type_of (ucast (?num AND 0xff))"
    "(ucast (?num AND 0xff) :: 8 word) \<le> 1"
    by (auto simp: parses_def parsed_def ParseInternalKey_def Let_def value_type_code_def split: if_splits)
  have "unat ?num < 2 ^ 64" using unsigned_less [of ?num] by simp
  then have "unat ?num div 256 \<le> 2 ^ 56 - 1" by simp
  moreover from \<open>unat ?num < 2 ^ 64\<close> have "take_bit 64 (unat ?num) = unat ?num" by (rule take_bit_nat_eq_self)
  then have "unat (drop_bit 8 ?num) = unat ?num div 256" by (simp add: unsigned_drop_bit_eq) (simp add: drop_bit_eq_div)
  ultimately show "sequence (parsed c k) \<le> kMaxSequenceNumber"
    unfolding p(1) word_le_nat_alt by (simp add: kMaxSequenceNumber_def)
  from type_byte_cases [OF p(3)] show "ptype (parsed c k) = kTypeDeletion \<or> ptype (parsed c k) = kTypeValue"
    unfolding p(2) by (auto simp: value_type_of_def)
qed

locale internal_keys =
  fixes c :: coding and append_key :: "ParsedInternalKey \<Rightarrow> bytes"
    and ucmp :: "bytes \<Rightarrow> bytes \<Rightarrow> int" and icmp :: "bytes \<Rightarrow> bytes \<Rightarrow> int"
  assumes key_laws: "key_laws c append_key ucmp icmp"
begin

abbreviation uk :: "bytes \<Rightarrow> bytes" where
  "uk k \<equiv> user_key (parsed c k)"

lemma comparators: "comparator ucmp" "comparator icmp"
  using key_laws by (simp_all add: key_laws_def)

lemma append_parses:
  assumes "s \<le> kMaxSequenceNumber" and "t = kTypeDeletion \<or> t = kTypeValue"
  shows "parses c (append_key \<lparr>user_key = u, sequence = s, ptype = t\<rparr>)"
    and "parsed c (append_key \<lparr>user_key = u, sequence = s, ptype = t\<rparr>) = \<lparr>user_key = u, sequence = s, ptype = t\<rparr>"
  using key_laws assms unfolding key_laws_def parses_def parsed_def by (metis, metis option.sel snd_conv)

lemma icmp_order:
  assumes "parses c a" and "parses c b"
  shows "icmp a b < 0 \<longleftrightarrow>
    ucmp (uk a) (uk b) < 0 \<or>
    ucmp (uk a) (uk b) = 0 \<and>
    (sequence (parsed c b) < sequence (parsed c a) \<or>
     sequence (parsed c b) = sequence (parsed c a) \<and>
     value_type_code (ptype (parsed c b)) < value_type_code (ptype (parsed c a)))"
  using key_laws assms unfolding key_laws_def parses_def parsed_def by (metis option.sel snd_conv)

end

sublocale internal_keys \<subseteq> u: comparator ucmp
  by (rule comparators)

sublocale internal_keys \<subseteq> i: comparator icmp
  by (rule comparators)

context internal_keys
begin

lemma user_less: "parses c a \<Longrightarrow> parses c b \<Longrightarrow> ucmp (uk a) (uk b) < 0 \<Longrightarrow> icmp a b < 0"
  by (simp add: icmp_order)

lemma user_le:
  assumes "parses c a" and "parses c b" and "icmp a b \<le> 0"
  shows "ucmp (uk a) (uk b) \<le> 0"
  using user_less [OF assms(2,1)] assms(3) i.cmp_swap [of b a] u.cmp_le_swap [of "uk a" "uk b"] by linarith

text \<open>The first internal key of a user key.\<close>

lemma seek_key:
  assumes "parses c a"
  shows "icmp a (append_key \<lparr>user_key = u, sequence = kMaxSequenceNumber, ptype = kValueTypeForSeek\<rparr>) < 0 \<longleftrightarrow>
    ucmp (uk a) u < 0"
proof -
  have t: "kValueTypeForSeek = kTypeDeletion \<or> kValueTypeForSeek = kTypeValue" by (simp add: kValueTypeForSeek_def)
  have "value_type_code (ptype (parsed c a)) \<le> value_type_code kValueTypeForSeek"
    using parsed_parts(2) [OF assms] by (auto simp: value_type_code_def kValueTypeForSeek_def)
  with icmp_order [OF assms append_parses(1) [OF order_refl t]] append_parses(2) [OF order_refl t]
    parsed_parts(1) [OF assms] show ?thesis by (auto simp: not_less)
qed

end

section \<open>Comparators\<close>

lemma comparator_image: "comparator cmp \<Longrightarrow> comparator (\<lambda>a b. cmp (f a) (f b))"
  unfolding comparator_def by blast

definition lex_cmp :: "('a \<Rightarrow> 'a \<Rightarrow> int) \<Rightarrow> ('a \<Rightarrow> 'a \<Rightarrow> int) \<Rightarrow> 'a \<Rightarrow> 'a \<Rightarrow> int" where
  "lex_cmp c d a b = (if c a b = 0 then d a b else c a b)"

lemma comparator_lex:
  assumes "comparator c" and "comparator d"
  shows "comparator (lex_cmp c d)"
proof
  fix x y z
  show "lex_cmp c d x x = 0" by (simp add: lex_cmp_def comparator.cmp_refl [OF assms(1)] comparator.cmp_refl [OF assms(2)])
  show "lex_cmp c d x y < 0 \<longleftrightarrow> 0 < lex_cmp c d y x"
    using comparator.cmp_zero_sym [OF assms(1), of x y] comparator.cmp_swap [OF assms(1), of x y]
      comparator.cmp_swap [OF assms(2), of x y] by (simp add: lex_cmp_def)
  assume "lex_cmp c d x y \<le> 0" "lex_cmp c d y z \<le> 0"
  then have le: "c x y \<le> 0" "c y z \<le> 0" by (auto simp: lex_cmp_def split: if_splits)
  show "lex_cmp c d x z \<le> 0"
  proof (cases "c x z = 0")
    case True
    have "c x y = 0" "c y z = 0"
      using le True comparator.cmp_less_le_trans [OF assms(1), of x y z] comparator.cmp_le_less_trans [OF assms(1), of x y z]
      by (auto simp: le_less)
    with True \<open>lex_cmp c d x y \<le> 0\<close> \<open>lex_cmp c d y z \<le> 0\<close> comparator.cmp_trans [OF assms(2), of x y z] show ?thesis
      by (simp add: lex_cmp_def)
  next
    case False
    with comparator.cmp_trans [OF assms(1) le] show ?thesis by (simp add: lex_cmp_def)
  qed
qed

definition bytes_compare :: "bytes \<Rightarrow> bytes \<Rightarrow> int" where
  "bytes_compare a b = string_compare (map (\<lambda>w. char_of (unat w)) a) (map (\<lambda>w. char_of (unat w)) b)"

lemma bytes_comparator: "comparator bytes_compare"
  unfolding bytes_compare_def [abs_def] by (rule comparator_image) (rule strcmp.comparator_axioms)

text \<open>Larger numbers first.\<close>

definition descending :: "64 word \<Rightarrow> 64 word \<Rightarrow> int" where
  "descending a b = (if b < a then -1 else if a < b then 1 else 0)"

lemma descending_comparator: "comparator descending"
  by unfold_locales (auto simp: descending_def split: if_splits)

section \<open>Packed byte strings\<close>

definition packed_number :: "bytes \<Rightarrow> 64 word" where
  "packed_number k = DecodeFixed64 plain_coding (drop (length k - 8) k)"

definition internal_compare :: "bytes \<Rightarrow> bytes \<Rightarrow> int" where
  "internal_compare =
     lex_cmp (\<lambda>a b. bytes_compare (take (length a - 8) a) (take (length b - 8) b))
       (\<lambda>a b. descending (packed_number a) (packed_number b))"

lemma internal_comparator: "comparator internal_compare"
  unfolding internal_compare_def
  by (intro comparator_lex comparator_image [OF bytes_comparator] comparator_image [OF descending_comparator])

lemma packed_less:
  "(num :: 64 word) < num' \<longleftrightarrow>
     drop_bit 8 num < drop_bit 8 num' \<or>
     drop_bit 8 num = drop_bit 8 num' \<and> (ucast (num AND 0xff) :: 8 word) < ucast (num' AND 0xff)"
proof -
  have low: "unat (ucast (n AND 0xff) :: 8 word) = unat n mod 256" for n :: "64 word"
  proof -
    have "n AND 0xff = take_bit 8 n" by (simp add: take_bit_eq_mask mask_eq_exp_minus_1)
    then have "unat (n AND 0xff) = unat n mod 256" by (simp only: unsigned_take_bit_eq) (simp add: take_bit_eq_mod)
    then show ?thesis by (simp add: unsigned_ucast_eq take_bit_eq_mod)
  qed
  have high: "unat (drop_bit 8 n) = unat n div 256" for n :: "64 word"
  proof -
    have "unat n < 2 ^ 64" using unsigned_less [of n] by simp
    then have "take_bit 64 (unat n) = unat n" by (rule take_bit_nat_eq_self)
    then show ?thesis by (simp add: unsigned_drop_bit_eq) (simp add: drop_bit_eq_div)
  qed
  have "q * 256 + r < q' * 256 + r' \<longleftrightarrow> q < q' \<or> q = q' \<and> r < r'" if "r < 256" "r' < 256" for q r q' r' :: nat
    using that by (cases q q' rule: linorder_cases) auto
  from this [of "unat num mod 256" "unat num' mod 256" "unat num div 256" "unat num' div 256"]
  have "unat num < unat num' \<longleftrightarrow> unat num div 256 < unat num' div 256 \<or>
    unat num div 256 = unat num' div 256 \<and> unat num mod 256 < unat num' mod 256" by simp
  then show ?thesis by (simp only: word_less_nat_alt word_unat_eq_iff low high)
qed

lemma internal_compare_parsed:
  assumes "ParseInternalKey plain_coding a = (True, Some p)" and "ParseInternalKey plain_coding b = (True, Some q)"
  shows "internal_compare a b < 0 \<longleftrightarrow>
    bytes_compare (user_key p) (user_key q) < 0 \<or>
    bytes_compare (user_key p) (user_key q) = 0 \<and>
    (sequence q < sequence p \<or> sequence q = sequence p \<and> value_type_code (ptype q) < value_type_code (ptype p))"
proof -
  have code: "value_type_code (value_type_of w) = w" for w by (simp add: value_type_code_def value_type_of_def)
  have parts: "user_key k = take (length c - 8) c" "sequence k = drop_bit 8 (packed_number c)"
    "value_type_code (ptype k) = ucast (packed_number c AND 0xff)"
    if "ParseInternalKey plain_coding c = (True, Some k)" for c k
    using that by (auto simp: ParseInternalKey_def packed_number_def Let_def code split: if_splits)
  show ?thesis
    unfolding parts [OF assms(1)] parts [OF assms(2)] internal_compare_def lex_cmp_def descending_def
    using packed_less [of "packed_number b" "packed_number a"] by auto
qed

lemma plain_key_laws: "key_laws plain_coding plain_append bytes_compare internal_compare"
  unfolding key_laws_def
  by (intro conjI allI impI bytes_comparator internal_comparator internal_compare_parsed
      parse_append_key(1) [OF plain_coding_laws plain_append_def])

text \<open>A version of a key of one byte.\<close>

definition version :: "8 word \<Rightarrow> 64 word \<Rightarrow> ValueType \<Rightarrow> bytes" where
  "version u s t = plain_append \<lparr>user_key = [u], sequence = s, ptype = t\<rparr>"

lemma version_parses:
  assumes "s \<le> kMaxSequenceNumber" and "t = kTypeDeletion \<or> t = kTypeValue"
  shows "parses plain_coding (version u s t)" and "parsed plain_coding (version u s t) = \<lparr>user_key = [u], sequence = s, ptype = t\<rparr>"
  using parse_append_key(1) [OF plain_coding_laws plain_append_def assms, of "[u]"]
  by (simp_all add: parses_def parsed_def version_def)

lemma version_compare:
  assumes "s \<le> kMaxSequenceNumber" and "t = kTypeDeletion \<or> t = kTypeValue" and "s' \<le> kMaxSequenceNumber"
    and "t' = kTypeDeletion \<or> t' = kTypeValue"
  shows "internal_compare (version u s t) (version u' s' t') < 0 \<longleftrightarrow>
    bytes_compare [u] [u'] < 0 \<or> bytes_compare [u] [u'] = 0 \<and> (s' < s \<or> s' = s \<and> value_type_code t' < value_type_code t)"
  using internal_compare_parsed parse_append_key(1) [OF plain_coding_laws plain_append_def assms(1,2), of "[u]"]
    parse_append_key(1) [OF plain_coding_laws plain_append_def assms(3,4), of "[u']"] by (simp add: version_def)

lemma sample_sequences [simp]:
  "(1 :: 64 word) \<le> kMaxSequenceNumber" "(2 :: 64 word) \<le> kMaxSequenceNumber" "(3 :: 64 word) \<le> kMaxSequenceNumber"
  "(4 :: 64 word) \<le> kMaxSequenceNumber"
  by (simp_all add: kMaxSequenceNumber_def)

lemma bytes_compare_single: "bytes_compare [a] [b] = (if unat a < unat b then -1 else if unat b < unat a then 1 else 0)"
proof -
  have "of_char (char_of (unat w) :: char) = unat w" for w :: "8 word"
  proof -
    have "unat w < 256" using unsigned_less [of w] by simp
    then show ?thesis by simp
  qed
  then show ?thesis by (simp add: bytes_compare_def)
qed

interpretation packed: internal_keys plain_coding plain_append bytes_compare internal_compare
  by unfold_locales (rule plain_key_laws)

end
