(* ===== verification/Db_Iter.thy ===== *)
theory Db_Iter
  imports Iterators Internal_Keys
begin

text \<open>
  The iterator of a leveldb database (\<open>db/db_iter.cc\<close>). It runs over an internal iterator, whose entries are the
  versions of all keys, and shows of every user key the newest version that its snapshot sees, unless that is a
  deletion.

  The internal iterator is a parameter, given by its operations \<open>iter_ops\<close>; so are \<open>AppendInternalKey\<close>, the user's
  comparator and the random numbers, which are not part of the sources. \<open>RecordReadSample\<close>, which only feeds the
  choice of compactions, is the list of the keys it was called with. \<open>None\<close> is a failed assertion or a loop that does
  not end.
\<close>

section \<open>The iterator\<close>

datatype Direction = kForward | kReverse

datatype db_status = DB_ok | DB_corruption string

record 'r db_env =
  env_coding :: coding
  AppendInternalKey :: "ParsedInternalKey \<Rightarrow> bytes"
  user_comparator :: "bytes \<Rightarrow> bytes \<Rightarrow> int"
  Uniform :: "nat \<Rightarrow> 'r \<Rightarrow> nat \<times> 'r"

record ('it, 'r) DBIter =
  db_iter :: 'it
  db_sequence :: "64 word"
  db_status :: db_status
  saved_key :: bytes
  saved_value :: bytes
  direction :: Direction
  db_valid :: bool
  db_rnd :: 'r
  bytes_until_read_sampling :: nat
  samples :: "bytes list"

definition kReadBytesPeriod :: nat where "kReadBytesPeriod = 1048576"

definition RandomCompactionPeriod :: "'r db_env \<Rightarrow> 'r \<Rightarrow> nat \<times> 'r" where
  "RandomCompactionPeriod env r = Uniform env (2 * kReadBytesPeriod) r"

definition NewDBIterator :: "'r db_env \<Rightarrow> 'it \<Rightarrow> 64 word \<Rightarrow> 'r \<Rightarrow> ('it, 'r) DBIter" where
  "NewDBIterator env it s r =
     (let (n, r') = RandomCompactionPeriod env r
      in \<lparr>db_iter = it, db_sequence = s, db_status = DB_ok, saved_key = [], saved_value = [], direction = kForward,
          db_valid = False, db_rnd = r', bytes_until_read_sampling = n, samples = []\<rparr>)"

definition DBIter_key :: "('it, bytes, bytes) iter_ops \<Rightarrow> ('it, 'r) DBIter \<Rightarrow> bytes option" where
  "DBIter_key ops d =
     (if db_valid d
      then if direction d = kForward then do { k \<leftarrow> iKey ops (db_iter d); user_key_of k } else Some (saved_key d)
      else None)"

definition DBIter_value :: "('it, bytes, bytes) iter_ops \<Rightarrow> ('it, 'r) DBIter \<Rightarrow> bytes option" where
  "DBIter_value ops d =
     (if db_valid d then if direction d = kForward then iValue ops (db_iter d) else Some (saved_value d) else None)"

text \<open>The capacity of the string is not part of the model: both branches leave it empty.\<close>

definition ClearSavedValue :: "('it, 'r) DBIter \<Rightarrow> ('it, 'r) DBIter" where
  "ClearSavedValue d = d\<lparr>saved_value := []\<rparr>"

partial_function (option) sample_loop ::
    "'r db_env \<Rightarrow> bytes \<Rightarrow> nat \<Rightarrow> ('it, 'r) DBIter \<Rightarrow> ('it, 'r) DBIter option" where
  "sample_loop env k bytes_read d =
     (if bytes_until_read_sampling d < bytes_read
      then sample_loop env k bytes_read
             (d\<lparr>bytes_until_read_sampling :=
                  (bytes_until_read_sampling d + fst (RandomCompactionPeriod env (db_rnd d))) mod 2 ^ 64,
                db_rnd := snd (RandomCompactionPeriod env (db_rnd d)), samples := k # samples d\<rparr>)
      else Some d)"

definition ParseKey ::
    "'r db_env \<Rightarrow> ('it, bytes, bytes) iter_ops \<Rightarrow> ('it, 'r) DBIter \<Rightarrow>
     (ParsedInternalKey option \<times> ('it, 'r) DBIter) option" where
  "ParseKey env ops d =
     do { k \<leftarrow> iKey ops (db_iter d);
          v \<leftarrow> iValue ops (db_iter d);
          let bytes_read = (length k + length v) mod 2 ^ 64;
          d \<leftarrow> sample_loop env k bytes_read d;
          if bytes_until_read_sampling d \<ge> bytes_read
          then let d = d\<lparr>bytes_until_read_sampling := bytes_until_read_sampling d - bytes_read\<rparr>
               in case ParseInternalKey (env_coding env) k of
                    (True, Some ikey) \<Rightarrow> Some (Some ikey, d)
                  | _ \<Rightarrow> Some (None, d\<lparr>db_status := DB_corruption ''corrupted internal key in DBIter''\<rparr>)
          else None }"

section \<open>Moving forward\<close>

text \<open>The switch in the loop of \<open>FindNextUserEntry\<close>: whether it returns, and the new value of \<open>skipping\<close>. Its
  argument \<open>skip\<close> is always \<open>saved_key_\<close>.\<close>

definition next_case ::
    "'r db_env \<Rightarrow> bool \<Rightarrow> ParsedInternalKey option \<Rightarrow> ('it, 'r) DBIter \<Rightarrow> bool \<times> bool \<times> ('it, 'r) DBIter" where
  "next_case env skipping p d =
     (case p of
        None \<Rightarrow> (False, skipping, d)
      | Some ikey \<Rightarrow>
          if sequence ikey \<le> db_sequence d
          then case ptype ikey of
                 kTypeDeletion \<Rightarrow> (False, True, d\<lparr>saved_key := user_key ikey\<rparr>)
               | kTypeValue \<Rightarrow>
                   if skipping \<and> user_comparator env (user_key ikey) (saved_key d) \<le> 0 then (False, skipping, d)
                   else (True, skipping, d\<lparr>db_valid := True, saved_key := []\<rparr>)
               | Other_type _ \<Rightarrow> (False, skipping, d)
          else (False, skipping, d))"

partial_function (option) next_loop ::
    "'r db_env \<Rightarrow> ('it, bytes, bytes) iter_ops \<Rightarrow> bool \<Rightarrow> ('it, 'r) DBIter \<Rightarrow> ('it, 'r) DBIter option" where
  "next_loop env ops skipping d =
     do { (p, d) \<leftarrow> ParseKey env ops d;
          let (stop, skipping, d) = next_case env skipping p d;
          if stop then Some d
          else do { it \<leftarrow> iNext ops (db_iter d);
                    let d = d\<lparr>db_iter := it\<rparr>;
                    if iValid ops it then next_loop env ops skipping d
                    else Some (d\<lparr>saved_key := [], db_valid := False\<rparr>) } }"

definition FindNextUserEntry ::
    "'r db_env \<Rightarrow> ('it, bytes, bytes) iter_ops \<Rightarrow> bool \<Rightarrow> ('it, 'r) DBIter \<Rightarrow> ('it, 'r) DBIter option" where
  "FindNextUserEntry env ops skipping d =
     (if iValid ops (db_iter d) \<and> direction d = kForward then next_loop env ops skipping d else None)"

definition DBIter_Next ::
    "'r db_env \<Rightarrow> ('it, bytes, bytes) iter_ops \<Rightarrow> ('it, 'r) DBIter \<Rightarrow> ('it, 'r) DBIter option" where
  "DBIter_Next env ops d =
     (if db_valid d
      then if direction d = kReverse
           then do { it \<leftarrow> (if iValid ops (db_iter d) then iNext ops (db_iter d) else iSeekToFirst ops (db_iter d));
                     let d = d\<lparr>direction := kForward, db_iter := it\<rparr>;
                     if iValid ops it then FindNextUserEntry env ops True d
                     else Some (d\<lparr>db_valid := False, saved_key := []\<rparr>) }
           else do { k \<leftarrow> iKey ops (db_iter d);
                     u \<leftarrow> user_key_of k;
                     FindNextUserEntry env ops True (d\<lparr>saved_key := u\<rparr>) }
      else None)"

section \<open>Moving backward\<close>

text \<open>The body of the loop of \<open>FindPrevUserEntry\<close>: whether it breaks, and the new value of \<open>value_type\<close>.\<close>

definition prev_case ::
    "'r db_env \<Rightarrow> ('it, bytes, bytes) iter_ops \<Rightarrow> ValueType \<Rightarrow> ParsedInternalKey option \<Rightarrow> ('it, 'r) DBIter \<Rightarrow>
     (bool \<times> ValueType \<times> ('it, 'r) DBIter) option" where
  "prev_case env ops value_type p d =
     (case p of
        None \<Rightarrow> Some (False, value_type, d)
      | Some ikey \<Rightarrow>
          if sequence ikey \<le> db_sequence d
          then if value_type \<noteq> kTypeDeletion \<and> user_comparator env (user_key ikey) (saved_key d) < 0
               then Some (True, value_type, d)
               else if ptype ikey = kTypeDeletion
               then Some (False, ptype ikey, ClearSavedValue (d\<lparr>saved_key := []\<rparr>))
               else do { raw_value \<leftarrow> iValue ops (db_iter d);
                         k \<leftarrow> iKey ops (db_iter d);
                         u \<leftarrow> user_key_of k;
                         Some (False, ptype ikey, d\<lparr>saved_key := u, saved_value := raw_value\<rparr>) }
          else Some (False, value_type, d))"

partial_function (option) prev_loop ::
    "'r db_env \<Rightarrow> ('it, bytes, bytes) iter_ops \<Rightarrow> ValueType \<Rightarrow> ('it, 'r) DBIter \<Rightarrow> (ValueType \<times> ('it, 'r) DBIter) option"
  where
  "prev_loop env ops value_type d =
     do { (p, d) \<leftarrow> ParseKey env ops d;
          (stop, value_type, d) \<leftarrow> prev_case env ops value_type p d;
          if stop then Some (value_type, d)
          else do { it \<leftarrow> iPrev ops (db_iter d);
                    let d = d\<lparr>db_iter := it\<rparr>;
                    if iValid ops it then prev_loop env ops value_type d else Some (value_type, d) } }"

definition FindPrevUserEntry ::
    "'r db_env \<Rightarrow> ('it, bytes, bytes) iter_ops \<Rightarrow> ('it, 'r) DBIter \<Rightarrow> ('it, 'r) DBIter option" where
  "FindPrevUserEntry env ops d =
     (if direction d = kReverse
      then do { (value_type, d) \<leftarrow>
                  (if iValid ops (db_iter d) then prev_loop env ops kTypeDeletion d else Some (kTypeDeletion, d));
                if value_type = kTypeDeletion
                then Some ((ClearSavedValue (d\<lparr>db_valid := False, saved_key := []\<rparr>))\<lparr>direction := kForward\<rparr>)
                else Some (d\<lparr>db_valid := True\<rparr>) }
      else None)"

text \<open>The loop of \<open>Prev\<close> that leaves the entries of the current key: whether it met the start.\<close>

partial_function (option) leave_key ::
    "'r db_env \<Rightarrow> ('it, bytes, bytes) iter_ops \<Rightarrow> ('it, 'r) DBIter \<Rightarrow> (bool \<times> ('it, 'r) DBIter) option" where
  "leave_key env ops d =
     do { it \<leftarrow> iPrev ops (db_iter d);
          let d = d\<lparr>db_iter := it\<rparr>;
          if \<not> iValid ops it then Some (True, ClearSavedValue (d\<lparr>db_valid := False, saved_key := []\<rparr>))
          else do { k \<leftarrow> iKey ops it;
                    u \<leftarrow> user_key_of k;
                    if user_comparator env u (saved_key d) < 0 then Some (False, d) else leave_key env ops d } }"

definition DBIter_Prev ::
    "'r db_env \<Rightarrow> ('it, bytes, bytes) iter_ops \<Rightarrow> ('it, 'r) DBIter \<Rightarrow> ('it, 'r) DBIter option" where
  "DBIter_Prev env ops d =
     (if db_valid d
      then if direction d = kForward
           then if iValid ops (db_iter d)
                then do { k \<leftarrow> iKey ops (db_iter d);
                          u \<leftarrow> user_key_of k;
                          (start, d) \<leftarrow> leave_key env ops (d\<lparr>saved_key := u\<rparr>);
                          if start then Some d else FindPrevUserEntry env ops (d\<lparr>direction := kReverse\<rparr>) }
                else None
           else FindPrevUserEntry env ops d
      else None)"

section \<open>Seeking\<close>

definition DBIter_Seek ::
    "'r db_env \<Rightarrow> ('it, bytes, bytes) iter_ops \<Rightarrow> bytes \<Rightarrow> ('it, 'r) DBIter \<Rightarrow> ('it, 'r) DBIter option" where
  "DBIter_Seek env ops target d =
     do { let d = ClearSavedValue (d\<lparr>direction := kForward\<rparr>);
          let d = d\<lparr>saved_key := AppendInternalKey env
                     \<lparr>user_key = target, sequence = db_sequence d, ptype = kValueTypeForSeek\<rparr>\<rparr>;
          it \<leftarrow> iSeek ops (saved_key d) (db_iter d);
          let d = d\<lparr>db_iter := it\<rparr>;
          if iValid ops it then FindNextUserEntry env ops False d else Some (d\<lparr>db_valid := False\<rparr>) }"

definition DBIter_SeekToFirst ::
    "'r db_env \<Rightarrow> ('it, bytes, bytes) iter_ops \<Rightarrow> ('it, 'r) DBIter \<Rightarrow> ('it, 'r) DBIter option" where
  "DBIter_SeekToFirst env ops d =
     do { let d = ClearSavedValue (d\<lparr>direction := kForward\<rparr>);
          it \<leftarrow> iSeekToFirst ops (db_iter d);
          let d = d\<lparr>db_iter := it\<rparr>;
          if iValid ops it then FindNextUserEntry env ops False d else Some (d\<lparr>db_valid := False\<rparr>) }"

definition DBIter_SeekToLast ::
    "'r db_env \<Rightarrow> ('it, bytes, bytes) iter_ops \<Rightarrow> ('it, 'r) DBIter \<Rightarrow> ('it, 'r) DBIter option" where
  "DBIter_SeekToLast env ops d =
     do { let d = ClearSavedValue (d\<lparr>direction := kReverse\<rparr>);
          it \<leftarrow> iSeekToLast ops (db_iter d);
          FindPrevUserEntry env ops (d\<lparr>db_iter := it\<rparr>) }"

definition dbiter_ops ::
    "'r db_env \<Rightarrow> ('it, bytes, bytes) iter_ops \<Rightarrow> (('it, 'r) DBIter, bytes, bytes) iter_ops" where
  "dbiter_ops env ops =
     \<lparr>iValid = db_valid, iKey = DBIter_key ops, iValue = DBIter_value ops, iNext = DBIter_Next env ops,
      iPrev = DBIter_Prev env ops, iSeek = DBIter_Seek env ops, iSeekToFirst = DBIter_SeekToFirst env ops,
      iSeekToLast = DBIter_SeekToLast env ops\<rparr>"

declare sample_loop.simps [code] next_loop.simps [code] prev_loop.simps [code] leave_key.simps [code]

end
