(* ===== verification/Db_Iter_Spec.thy ===== *)
theory Db_Iter_Spec
  imports Db_Iter
begin

text \<open>
  Over any internal iterator that meets the iterator contract, the database iterator meets it too, for the entries its
  snapshot sees. The client lemmas are proved once, in a locale that extends the contract of the internal iterator.
\<close>

section \<open>What a snapshot sees\<close>

definition key_parses :: "'r db_env \<Rightarrow> bytes \<times> bytes \<Rightarrow> bool" where
  "key_parses env e \<longleftrightarrow> (\<exists>p. ParseInternalKey (env_coding env) (fst e) = (True, Some p))"

definition entry_key :: "'r db_env \<Rightarrow> bytes \<times> bytes \<Rightarrow> ParsedInternalKey" where
  "entry_key env e = the (snd (ParseInternalKey (env_coding env) (fst e)))"

abbreviation ukey :: "'r db_env \<Rightarrow> bytes \<times> bytes \<Rightarrow> bytes" where
  "ukey env e \<equiv> user_key (entry_key env e)"

definition visible :: "'r db_env \<Rightarrow> 64 word \<Rightarrow> bytes \<times> bytes \<Rightarrow> bool" where
  "visible env s e \<longleftrightarrow> sequence (entry_key env e) \<le> s"

text \<open>The entry \<open>i\<close> is shown: it is a value, and the first visible entry of its user key.\<close>

definition live :: "'r db_env \<Rightarrow> 64 word \<Rightarrow> (bytes \<times> bytes) list \<Rightarrow> nat \<Rightarrow> bool" where
  "live env s es i \<longleftrightarrow>
     i < length es \<and> visible env s (es ! i) \<and> ptype (entry_key env (es ! i)) = kTypeValue \<and>
     (\<forall>j<i. user_comparator env (ukey env (es ! j)) (ukey env (es ! i)) = 0 \<longrightarrow> \<not> visible env s (es ! j))"

definition shown :: "'r db_env \<Rightarrow> 64 word \<Rightarrow> (bytes \<times> bytes) list \<Rightarrow> nat list" where
  "shown env s es = filter (live env s es) [0..<length es]"

definition user_entries :: "'r db_env \<Rightarrow> 64 word \<Rightarrow> (bytes \<times> bytes) list \<Rightarrow> (bytes \<times> bytes) list" where
  "user_entries env s es = map (\<lambda>i. (ukey env (es ! i), snd (es ! i))) (shown env s es)"

section \<open>Ranks in a filtered range\<close>

definition rank :: "(nat \<Rightarrow> bool) \<Rightarrow> nat \<Rightarrow> nat" where
  "rank P b = length (filter P [0..<b])"

lemma rank_Suc: "rank P (Suc b) = (if P b then Suc (rank P b) else rank P b)"
  by (simp add: rank_def)

lemma rank_eq: "b \<le> c \<Longrightarrow> (\<And>j. b \<le> j \<Longrightarrow> j < c \<Longrightarrow> \<not> P j) \<Longrightarrow> rank P c = rank P b"
  by (induction c rule: dec_induct) (simp_all add: rank_Suc)

lemma filter_upt_split: "b \<le> n \<Longrightarrow> filter P [0..<n] = filter P [0..<b] @ filter P [b..<n]"
  using upt_add_eq_append [of 0 b "n - b"] by simp

lemma nth_rank: "P m \<Longrightarrow> m < n \<Longrightarrow> filter P [0..<n] ! rank P m = m \<and> rank P m < length (filter P [0..<n])"
  using filter_upt_split [of m n P] by (simp add: rank_def nth_append upt_conv_Cons)

lemma rank_nth:
  assumes "i < length (filter P [0..<n])"
  shows "P (filter P [0..<n] ! i)" and "filter P [0..<n] ! i < n" and "rank P (filter P [0..<n] ! i) = i"
proof -
  let ?L = "filter P [0..<n]"
  from nth_mem [OF assms] show m: "P (?L ! i)" "?L ! i < n" by auto
  from nth_rank [where P = P, OF m] have "?L ! rank P (?L ! i) = ?L ! i" "rank P (?L ! i) < length ?L" by auto
  with assms show "rank P (?L ! i) = i" by (simp add: nth_eq_iff_index_eq)
qed

section \<open>The client of an internal iterator\<close>

text \<open>\<open>q\<close> is the position of the last visible entry before \<open>m\<close>.\<close>

definition last_visible :: "'r db_env \<Rightarrow> 64 word \<Rightarrow> (bytes \<times> bytes) list \<Rightarrow> nat \<Rightarrow> nat option \<Rightarrow> bool" where
  "last_visible env s es m q \<longleftrightarrow>
     (case q of
        None \<Rightarrow> \<forall>j<m. \<not> visible env s (es ! j)
      | Some i \<Rightarrow> i < m \<and> visible env s (es ! i) \<and> (\<forall>j. i < j \<and> j < m \<longrightarrow> \<not> visible env s (es ! j)))"

definition entries_ok :: "'r db_env \<Rightarrow> (bytes \<times> bytes) list \<Rightarrow> bool" where
  "entries_ok env es \<longleftrightarrow> (\<forall>e\<in>set es. key_parses env e \<and> length (fst e) + length (snd e) < 2 ^ 63)"

definition next_random :: "'r db_env \<Rightarrow> 'r \<Rightarrow> 'r" where
  "next_random env r = snd (RandomCompactionPeriod env r)"

text \<open>
  What the code relies on: the laws of internal keys; the random numbers are below their bound and not zero for ever.
\<close>

definition db_env_laws :: "'r db_env \<Rightarrow> (bytes \<Rightarrow> bytes \<Rightarrow> int) \<Rightarrow> bool" where
  "db_env_laws env icmp \<longleftrightarrow>
     key_laws (env_coding env) (AppendInternalKey env) (user_comparator env) icmp \<and>
     (\<forall>n r. 0 < n \<longrightarrow> fst (Uniform env n r) < n) \<and>
     (\<forall>r. \<exists>k. 0 < fst (RandomCompactionPeriod env ((next_random env ^^ k) r)))"

text \<open>Sampling changes none of what a client sees.\<close>

definition same_view :: "('it, 'r) DBIter \<Rightarrow> ('it, 'r) DBIter \<Rightarrow> bool" where
  "same_view d d' \<longleftrightarrow>
     db_iter d' = db_iter d \<and> db_sequence d' = db_sequence d \<and> db_status d' = db_status d \<and> saved_key d' = saved_key d \<and>
     saved_value d' = saved_value d \<and> direction d' = direction d \<and> db_valid d' = db_valid d"

definition sampled :: "'r db_env \<Rightarrow> bytes \<Rightarrow> nat \<Rightarrow> ('it, 'r) DBIter \<Rightarrow> bool" where
  "sampled env k n d \<longleftrightarrow> (\<exists>d'. sample_loop env k n d = Some d' \<and> same_view d d' \<and> n \<le> bytes_until_read_sampling d')"

lemma sampled_done: "n \<le> bytes_until_read_sampling d \<Longrightarrow> sampled env k n d"
  by (simp add: sampled_def same_view_def sample_loop.simps)

text \<open>
  The database iterator stands at a position of the user's entries: forward on the internal entry itself, backward with the
  entry saved and the internal iterator on the last visible entry before it.
\<close>

definition db_repr ::
    "'r db_env \<Rightarrow> ('it \<Rightarrow> (bytes \<times> bytes) list \<Rightarrow> nat option \<Rightarrow> bool) \<Rightarrow> ('it, 'r) DBIter \<Rightarrow> (bytes \<times> bytes) list \<Rightarrow>
     nat option \<Rightarrow> bool" where
  "db_repr env irepr d us p \<longleftrightarrow>
     (\<exists>es q. irepr (db_iter d) es q \<and> entries_ok env es \<and> db_sequence d \<le> kMaxSequenceNumber \<and>
        us = user_entries env (db_sequence d) es \<and>
        (case p of
           None \<Rightarrow> \<not> db_valid d
         | Some i \<Rightarrow>
             db_valid d \<and> i < length us \<and>
             (let m = shown env (db_sequence d) es ! i
              in direction d = kForward \<and> q = Some m \<or>
                 direction d = kReverse \<and> saved_key d = ukey env (es ! m) \<and> saved_value d = snd (es ! m) \<and>
                 last_visible env (db_sequence d) es m q)))"

lemma length_user_entries: "length (user_entries env s es) = rank (live env s es) (length es)"
  by (simp add: user_entries_def shown_def rank_def)

lemma shown_nth:
  assumes "i < length (user_entries env s es)"
  shows "live env s es (shown env s es ! i)" and "rank (live env s es) (shown env s es ! i) = i"
    and "user_entries env s es ! i = (ukey env (es ! (shown env s es ! i)), snd (es ! (shown env s es ! i)))"
  using rank_nth [of i "live env s es" "length es"] assms by (auto simp: user_entries_def shown_def)

lemma shown_rank:
  assumes "live env s es m"
  shows "shown env s es ! rank (live env s es) m = m" and "rank (live env s es) m < length (user_entries env s es)"
  using nth_rank [of "live env s es" m "length es"] assms by (auto simp: shown_def user_entries_def live_def)

lemma db_repr_none:
  assumes "irepr (db_iter d) es q" and "entries_ok env es" and "db_sequence d \<le> kMaxSequenceNumber" and "\<not> db_valid d"
  shows "db_repr env irepr d (user_entries env (db_sequence d) es) None"
  using assms unfolding db_repr_def by auto

lemma db_repr_forward:
  assumes "irepr (db_iter d) es (Some m)" and "entries_ok env es" and "db_sequence d \<le> kMaxSequenceNumber"
    and "live env (db_sequence d) es m" and "db_valid d" and "direction d = kForward"
  shows "db_repr env irepr d (user_entries env (db_sequence d) es) (Some (rank (live env (db_sequence d) es) m))"
  unfolding db_repr_def using assms shown_rank [OF assms(4)]
  by (intro exI [of _ es] exI [of _ "Some m"]) simp

lemma db_repr_reverse:
  assumes "irepr (db_iter d) es q" and "entries_ok env es" and "db_sequence d \<le> kMaxSequenceNumber"
    and "live env (db_sequence d) es m" and "db_valid d" and "direction d = kReverse"
    and "saved_key d = ukey env (es ! m)" and "saved_value d = snd (es ! m)" and "last_visible env (db_sequence d) es m q"
  shows "db_repr env irepr d (user_entries env (db_sequence d) es) (Some (rank (live env (db_sequence d) es) m))"
  unfolding db_repr_def using assms shown_rank [OF assms(4)]
  by (intro exI [of _ es] exI [of _ q]) simp

locale db_iterator = internal: entry_iterator ops icmp irepr
  for ops :: "('it, bytes, bytes) iter_ops" and icmp :: "bytes \<Rightarrow> bytes \<Rightarrow> int"
    and irepr :: "'it \<Rightarrow> (bytes \<times> bytes) list \<Rightarrow> nat option \<Rightarrow> bool" +
  fixes env :: "'r db_env"
  assumes laws: "db_env_laws env icmp"
begin

lemma user_cmp: "comparator (user_comparator env)" using laws by (simp add: db_env_laws_def key_laws_def)

lemmas user_trans = comparator.cmp_trans [OF user_cmp] comparator.cmp_less_le_trans [OF user_cmp]
  comparator.cmp_le_less_trans [OF user_cmp]

lemma icmp_order:
  assumes "key_parses env a" and "key_parses env b"
  shows "icmp (fst a) (fst b) < 0 \<longleftrightarrow>
    user_comparator env (ukey env a) (ukey env b) < 0 \<or>
    user_comparator env (ukey env a) (ukey env b) = 0 \<and>
    (sequence (entry_key env b) < sequence (entry_key env a) \<or>
     sequence (entry_key env b) = sequence (entry_key env a) \<and>
     value_type_code (ptype (entry_key env b)) < value_type_code (ptype (entry_key env a)))"
  using laws assms unfolding db_env_laws_def key_laws_def key_parses_def entry_key_def by (metis option.sel snd_conv)

lemma ukey_mono:
  assumes "irepr it es q" and "entries_ok env es" and "i \<le> j" and "j < length es"
  shows "user_comparator env (ukey env (es ! i)) (ukey env (es ! j)) \<le> 0"
proof (cases "i = j")
  case True
  then show ?thesis using comparator.cmp_refl [OF user_cmp] by simp
next
  case False
  with assms internal.repr_sorted [OF assms(1)] have "icmp (fst (es ! i)) (fst (es ! j)) < 0"
    by (simp add: sorted_wrt_iff_nth_less)
  moreover have "key_parses env (es ! i)" "key_parses env (es ! j)" using assms by (auto simp: entries_ok_def)
  ultimately show ?thesis using icmp_order [of "es ! i" "es ! j"] by auto
qed

subsection \<open>Read sampling\<close>

lemma sampled_step:
  assumes "n < 2 ^ 63" and "bytes_until_read_sampling d < n"
    and "sampled env k n (d\<lparr>bytes_until_read_sampling :=
        bytes_until_read_sampling d + fst (RandomCompactionPeriod env (db_rnd d)),
      db_rnd := next_random env (db_rnd d), samples := k # samples d\<rparr>)"
  shows "sampled env k n d"
proof -
  have "fst (RandomCompactionPeriod env (db_rnd d)) < 2 ^ 63"
    by (rule less_trans [of _ "2 * kReadBytesPeriod"])
      (use laws in \<open>auto simp: db_env_laws_def RandomCompactionPeriod_def kReadBytesPeriod_def\<close>)
  with assms(1,2) have "(bytes_until_read_sampling d + fst (RandomCompactionPeriod env (db_rnd d))) mod 2 ^ 64 =
    bytes_until_read_sampling d + fst (RandomCompactionPeriod env (db_rnd d))" by (intro mod_less) simp
  with assms(2,3) show ?thesis
    unfolding sampled_def by (subst sample_loop.simps) (simp add: next_random_def same_view_def)
qed

lemma sample_loop_returns:
  fixes d :: "('it, 'r) DBIter"
  assumes n: "n < 2 ^ 63"
  shows "sampled env k n d"
proof (induction "n - bytes_until_read_sampling d" arbitrary: d rule: less_induct)
  case less
  have draw: "sampled env k n d'" if "bytes_until_read_sampling d' = bytes_until_read_sampling d"
    and "0 < fst (RandomCompactionPeriod env ((next_random env ^^ m) (db_rnd d')))" for m and d' :: "('it, 'r) DBIter"
    using that
  proof (induction m arbitrary: d')
    case 0
    show ?case
    proof (cases "bytes_until_read_sampling d' < n")
      case True
      with 0 show ?thesis by (intro sampled_step [OF n True] less.hyps) auto
    qed (simp add: sampled_done)
  next
    case (Suc m)
    show ?case
    proof (cases "bytes_until_read_sampling d' < n \<and> fst (RandomCompactionPeriod env (db_rnd d')) = 0")
      case True
      have "0 < fst (RandomCompactionPeriod env ((next_random env ^^ m) (next_random env (db_rnd d'))))"
        using Suc.prems(2) by (simp only: funpow_Suc_right comp_apply)
      with True Suc.prems(1) show ?thesis 
        by - (rule sampled_step [OF n], simp, rule Suc.IH, simp_all)
    next
      case False
      then consider "n \<le> bytes_until_read_sampling d'"
        | "bytes_until_read_sampling d' < n" "0 < fst (RandomCompactionPeriod env (db_rnd d'))" by linarith
      then show ?thesis
        by cases (simp add: sampled_done, rule sampled_step [OF n], simp, rule less.hyps, simp add: Suc.prems(1))
    qed
  qed
  obtain m where "0 < fst (RandomCompactionPeriod env ((next_random env ^^ m) (db_rnd d)))"
    using laws unfolding db_env_laws_def by blast
  with draw [of d m] show ?case by simp
qed

subsection \<open>One entry\<close>

lemma ParseKey_at:
  assumes "irepr (db_iter d) es (Some i)" and "entries_ok env es"
  shows "\<exists>d'. ParseKey env ops d = Some (Some (entry_key env (es ! i)), d') \<and> same_view d d'"
proof -
  let ?n = "length (fst (es ! i)) + length (snd (es ! i))"
  from assms internal.repr_bound [OF assms(1)] have e: "key_parses env (es ! i)" "?n < 2 ^ 63" by (auto simp: entries_ok_def)
  then have n: "?n mod 2 ^ 64 = ?n" by simp
  from sample_loop_returns [OF e(2), of "fst (es ! i)" d] obtain d' where
    d': "sample_loop env (fst (es ! i)) ?n d = Some d'" "same_view d d'" "?n \<le> bytes_until_read_sampling d'"
    by (auto simp: sampled_def)
  from e(1) have "ParseInternalKey (env_coding env) (fst (es ! i)) = (True, Some (entry_key env (es ! i)))"
    by (auto simp: key_parses_def entry_key_def)
  with d' internal.key_at [OF assms(1)] internal.value_at [OF assms(1)] show ?thesis
    unfolding ParseKey_def by (simp add: n [simplified] Let_def same_view_def)
qed

lemma user_key_at:
  assumes "irepr it es (Some i)" and "entries_ok env es"
  shows "iKey ops it = Some (fst (es ! i))" and "user_key_of (fst (es ! i)) = Some (ukey env (es ! i))"
proof -
  show "iKey ops it = Some (fst (es ! i))" by (rule internal.key_at [OF assms(1)])
  from assms internal.repr_bound [OF assms(1)] have "key_parses env (es ! i)" by (auto simp: entries_ok_def)
  then show "user_key_of (fst (es ! i)) = Some (ukey env (es ! i))"
    by (auto simp: key_parses_def entry_key_def ParseInternalKey_def user_key_of_def ExtractUserKey_def hard_assert_def Let_def
        split: if_splits)
qed

lemma type_at:
  assumes "irepr it es q" and "entries_ok env es" and "i < length es"
  shows "ptype (entry_key env (es ! i)) = kTypeDeletion \<or> ptype (entry_key env (es ! i)) = kTypeValue"
proof -
  from assms have "key_parses env (es ! i)" by (auto simp: entries_ok_def)
  then show ?thesis
    by (auto simp: key_parses_def entry_key_def ParseInternalKey_def value_type_of_def value_type_code_def Let_def
        split: if_splits dest: type_byte_cases)
qed

lemma same_key_between:
  assumes "irepr it es q" and "entries_ok env es" and "i \<le> j" and "j \<le> k" and "k < length es"
    and "user_comparator env (ukey env (es ! i)) (ukey env (es ! k)) = 0"
  shows "user_comparator env (ukey env (es ! j)) (ukey env (es ! k)) = 0"
proof -
  have "user_comparator env (ukey env (es ! j)) (ukey env (es ! k)) \<le> 0" using assms ukey_mono by blast
  moreover have "user_comparator env (ukey env (es ! k)) (ukey env (es ! j)) \<le> 0"
    using user_trans(1) [of "ukey env (es ! k)" "ukey env (es ! i)" "ukey env (es ! j)"] assms ukey_mono [OF assms(1,2), of i j]
      comparator.cmp_zero_sym [OF user_cmp, of "ukey env (es ! i)" "ukey env (es ! k)"] by auto
  ultimately show ?thesis
    using comparator.cmp_le_swap [OF user_cmp, of "ukey env (es ! k)" "ukey env (es ! j)"] by simp
qed

subsection \<open>Forward search\<close>

text \<open>
  The state of the loop at the entry \<open>i\<close>: what it skips is exactly what lies before \<open>b\<close> or shares its user key with a
  visible entry already passed.
\<close>

definition skips :: "64 word \<Rightarrow> (bytes \<times> bytes) list \<Rightarrow> bool \<Rightarrow> bytes \<Rightarrow> nat \<Rightarrow> nat \<Rightarrow> bool" where
  "skips s es skipping skip b i \<longleftrightarrow>
     (\<forall>e. i \<le> e \<and> e < length es \<and> visible env s (es ! e) \<longrightarrow>
        (skipping \<and> user_comparator env (ukey env (es ! e)) skip \<le> 0 \<longleftrightarrow>
         e < b \<or> (\<exists>j<max i b. visible env s (es ! j) \<and> user_comparator env (ukey env (es ! j)) (ukey env (es ! e)) = 0))) \<and>
     (\<forall>e. i \<le> e \<and> Suc e < b \<longrightarrow> \<not> visible env s (es ! e))"

lemma skips_at:
  assumes "skips s es skipping skip b i" and "i \<le> e" and "e < length es" and "visible env s (es ! e)"
  shows "skipping \<and> user_comparator env (ukey env (es ! e)) skip \<le> 0 \<longleftrightarrow>
    e < b \<or> (\<exists>j<max i b. visible env s (es ! j) \<and> user_comparator env (ukey env (es ! j)) (ukey env (es ! e)) = 0)"
  using assms unfolding skips_def by blast

lemma skips_live:
  assumes "skips s es skipping skip b i" and "i < length es" and "visible env s (es ! i)"
    and "ptype (entry_key env (es ! i)) = kTypeValue"
  shows "skipping \<and> user_comparator env (ukey env (es ! i)) skip \<le> 0 \<longleftrightarrow> \<not> (b \<le> i \<and> live env s es i)"
  using skips_at [OF assms(1) order_refl assms(2,3)] assms by (cases "i < b") (auto simp: live_def max_def)

lemma skips_pass:
  assumes "irepr it es q" and "entries_ok env es" and k: "skips s es skipping skip b i" and "i < length es"
    and p: "visible env s (es ! i) \<Longrightarrow> skipping \<and> user_comparator env (ukey env (es ! i)) skip \<le> 0"
  shows "skips s es skipping skip b (Suc i)"
proof -
  have "skipping \<and> user_comparator env (ukey env (es ! e)) skip \<le> 0 \<longleftrightarrow>
      e < b \<or> (\<exists>j<max (Suc i) b. visible env s (es ! j) \<and> user_comparator env (ukey env (es ! j)) (ukey env (es ! e)) = 0)"
    if e: "Suc i \<le> e" "e < length es" "visible env s (es ! e)" for e
  proof (cases "i < b")
    case True
    with skips_at [OF k Suc_leD [OF e(1)] e(2,3)] show ?thesis by (simp add: max_def)
  next
    case False
    have "skipping \<and> user_comparator env (ukey env (es ! e)) skip \<le> 0"
      if "visible env s (es ! i)" "user_comparator env (ukey env (es ! i)) (ukey env (es ! e)) = 0"
      using p [OF that(1)] that user_trans(1) [of "ukey env (es ! e)" "ukey env (es ! i)" skip]
        comparator.cmp_zero_sym [OF user_cmp, of "ukey env (es ! i)" "ukey env (es ! e)"] by simp
    with False skips_at [OF k Suc_leD [OF e(1)] e(2,3)] show ?thesis
      by (simp add: max_absorb1 less_Suc_eq) blast
  qed
  with k show ?thesis unfolding skips_def by auto
qed

lemma skips_deletion:
  assumes r: "irepr it es q" "entries_ok env es" and "skips s es skipping skip b i" and "i < length es"
    and v: "visible env s (es ! i)"
  shows "skips s es True (ukey env (es ! i)) b (Suc i)"
proof -
  from assms(3) v have b: "b \<le> Suc i" unfolding skips_def by (meson not_le le_refl)
  have "user_comparator env (ukey env (es ! e)) (ukey env (es ! i)) \<le> 0 \<longleftrightarrow>
      (\<exists>j<Suc i. visible env s (es ! j) \<and> user_comparator env (ukey env (es ! j)) (ukey env (es ! e)) = 0)"
    if e: "Suc i \<le> e" "e < length es" for e
  proof
    assume "user_comparator env (ukey env (es ! e)) (ukey env (es ! i)) \<le> 0"
    with ukey_mono [OF r, of i e] e have "user_comparator env (ukey env (es ! i)) (ukey env (es ! e)) = 0"
      using comparator.cmp_le_swap [OF user_cmp, of "ukey env (es ! e)" "ukey env (es ! i)"] by simp
    with v show "\<exists>j<Suc i. visible env s (es ! j) \<and> user_comparator env (ukey env (es ! j)) (ukey env (es ! e)) = 0" by blast
  next
    assume "\<exists>j<Suc i. visible env s (es ! j) \<and> user_comparator env (ukey env (es ! j)) (ukey env (es ! e)) = 0"
    with same_key_between [OF r, of _ i e] e have "user_comparator env (ukey env (es ! i)) (ukey env (es ! e)) = 0"
      by (metis Suc_leD less_Suc_eq_le)
    then show "user_comparator env (ukey env (es ! e)) (ukey env (es ! i)) \<le> 0"
      using comparator.cmp_zero_sym [OF user_cmp, of "ukey env (es ! i)" "ukey env (es ! e)"] by simp
  qed
  with b show ?thesis unfolding skips_def by (auto simp: max_absorb1)
qed

text \<open>The start of a step forward from the entry \<open>m\<close>.\<close>

lemma skips_after:
  assumes r: "irepr it es q" "entries_ok env es" and m: "m < length es" "visible env s (es ! m)" and i: "i \<le> m"
    and h: "\<And>j. i \<le> j \<Longrightarrow> j < m \<Longrightarrow> \<not> visible env s (es ! j)"
  shows "skips s es True (ukey env (es ! m)) (Suc m) i"
proof -
  have "user_comparator env (ukey env (es ! e)) (ukey env (es ! m)) \<le> 0 \<longleftrightarrow>
      e < Suc m \<or> (\<exists>j<Suc m. visible env s (es ! j) \<and> user_comparator env (ukey env (es ! j)) (ukey env (es ! e)) = 0)"
    if e: "i \<le> e" "e < length es" "visible env s (es ! e)" for e
  proof (cases "e \<le> m")
    case True
    with ukey_mono [OF r True m(1)] show ?thesis by simp
  next
    case False
    then have me: "m \<le> e" by simp
    have "user_comparator env (ukey env (es ! e)) (ukey env (es ! m)) \<le> 0 \<longleftrightarrow>
        user_comparator env (ukey env (es ! m)) (ukey env (es ! e)) = 0"
      using ukey_mono [OF r me e(2)] comparator.cmp_le_swap [OF user_cmp, of "ukey env (es ! e)" "ukey env (es ! m)"] by auto
    with False m same_key_between [OF r _ me e(2)] show ?thesis by (auto simp: less_Suc_eq_le)
  qed
  with i h show ?thesis unfolding skips_def by (auto simp: max_absorb2)
qed

text \<open>The loop finds the first entry shown at or after both its start and \<open>b\<close>.\<close>

definition found_next :: "64 word \<Rightarrow> (bytes \<times> bytes) list \<Rightarrow> nat \<Rightarrow> ('it, 'r) DBIter \<Rightarrow> bool" where
  "found_next s es b d \<longleftrightarrow>
     direction d = kForward \<and> db_sequence d = s \<and>
     (if db_valid d
      then \<exists>m. irepr (db_iter d) es (Some m) \<and> live env s es m \<and> b \<le> m \<and> (\<forall>j. b \<le> j \<and> j < m \<longrightarrow> \<not> live env s es j)
      else (\<exists>q. irepr (db_iter d) es q) \<and> (\<forall>j\<ge>b. \<not> live env s es j))"

lemma found_next_mono:
  assumes "found_next s es b' d" and "b \<le> b'" and "\<And>j. b \<le> j \<Longrightarrow> j < b' \<Longrightarrow> \<not> live env s es j"
  shows "found_next s es b d"
  using assms unfolding found_next_def by (auto split: if_splits) (metis not_le order_trans)+

lemma next_case_passes:
  assumes r: "irepr it es q" "entries_ok env es" and k: "skips s es skipping (saved_key d) b i" and i: "i < length es"
    and d: "db_sequence d = s" and "\<not> (b \<le> i \<and> live env s es i)"
  shows "\<exists>skipping' d'. next_case env skipping (Some (entry_key env (es ! i))) d = (False, skipping', d') \<and>
    db_iter d' = db_iter d \<and> direction d' = direction d \<and> db_sequence d' = s \<and> skips s es skipping' (saved_key d') b (Suc i)"
proof (cases "visible env s (es ! i)")
  case True
  from type_at [OF r i] show ?thesis
  proof
    assume "ptype (entry_key env (es ! i)) = kTypeDeletion"
    with True skips_deletion [OF r k i True] d show ?thesis by (auto simp: next_case_def visible_def)
  next
    assume t: "ptype (entry_key env (es ! i)) = kTypeValue"
    from skips_live [OF k i True t] assms(6) have h: "skipping \<and> user_comparator env (ukey env (es ! i)) (saved_key d) \<le> 0" by simp
    with t True skips_pass [OF r k i] d show ?thesis by (auto simp: next_case_def visible_def)
  qed
next
  case False
  with skips_pass [OF r k i] d show ?thesis by (simp add: next_case_def visible_def)
qed

lemma next_loop_finds:
  fixes d :: "('it, 'r) DBIter"
  assumes "irepr (db_iter d) es (Some i)" and ok: "entries_ok env es" and "direction d = kForward" and "db_sequence d = s"
    and "skips s es skipping (saved_key d) b i"
  shows "\<exists>d'. next_loop env ops skipping d = Some d' \<and> found_next s es (max i b) d'"
  using assms(1,3-)
proof (induction "length es - i" arbitrary: i d skipping rule: less_induct)
  case less
  note i = internal.repr_bound [OF less.prems(1)]
  from ParseKey_at [OF less.prems(1) ok] obtain d1 where p: "ParseKey env ops d = Some (Some (entry_key env (es ! i)), d1)"
    and v: "db_iter d1 = db_iter d" "direction d1 = kForward" "db_sequence d1 = s" "saved_key d1 = saved_key d"
    using less.prems(2,3) by (auto simp: same_view_def)
  show ?case
  proof (cases "max i b \<le> i \<and> live env s es i")
    case True
    then have "visible env s (es ! i)" "ptype (entry_key env (es ! i)) = kTypeValue" by (auto simp: live_def)
    with skips_live [OF less.prems(4) i] True p v less.prems(1) show ?thesis
      by (subst next_loop.simps) (auto simp: next_case_def visible_def found_next_def)
  next
    case False
    then have nl: "\<not> (b \<le> i \<and> live env s es i)" by simp
    from next_case_passes [OF less.prems(1) ok _ i v(3) nl, of skipping] less.prems(4) v(4) obtain skipping' d2 where
      c: "next_case env skipping (Some (entry_key env (es ! i))) d1 = (False, skipping', d2)" "db_iter d2 = db_iter d"
        "direction d2 = kForward" "db_sequence d2 = s" "skips s es skipping' (saved_key d2) b (Suc i)"
      using v(1,2) by auto
    from internal.next_at [OF less.prems(1)] obtain it where
      it: "iNext ops (db_iter d) = Some it" "irepr it es (pos_of es (Suc i))" by blast
    show ?thesis
    proof (cases "Suc i < length es")
      case True
      with it(2) have r: "irepr it es (Some (Suc i))" by (simp add: pos_of_def)
      have "length es - Suc i < length es - i" using i by simp
      from less.hyps [OF this, of "d2\<lparr>db_iter := it\<rparr>" skipping'] r c(3-5) obtain d' where
        d': "next_loop env ops skipping' (d2\<lparr>db_iter := it\<rparr>) = Some d'" "found_next s es (max (Suc i) b) d'" by auto
      have skip: "\<not> live env s es j" if "max i b \<le> j" "j < max (Suc i) b" for j
        using nl that by (cases "j = i") auto
      have "found_next s es (max i b) d'" by (rule found_next_mono [OF d'(2)]) (simp, rule skip)
      with d'(1) p c(1,2) it(1) internal.valid_iff [OF r] show ?thesis by (subst next_loop.simps) simp
    next
      case False
      with it(2) have r: "irepr it es None" by (simp add: pos_of_def)
      have "\<not> live env s es j" if "max i b \<le> j" for j
        using nl that False i by (cases "j = i") (auto simp: live_def)
      with r c p it(1) internal.valid_iff [OF r] show ?thesis
        by (subst next_loop.simps) (auto simp: found_next_def)
    qed
  qed
qed

subsection \<open>Backward search\<close>

text \<open>
  The state of the loop at the entry \<open>i\<close>, started at \<open>hi\<close>: either nothing passed is shown, or the last visible entry
  passed is a value \<open>m\<close>, saved, and nothing after it is shown.
\<close>

definition passed :: "64 word \<Rightarrow> (bytes \<times> bytes) list \<Rightarrow> nat \<Rightarrow> nat \<Rightarrow> ValueType \<Rightarrow> ('it, 'r) DBIter \<Rightarrow> bool" where
  "passed s es hi n value_type d \<longleftrightarrow>
     direction d = kReverse \<and> db_sequence d = s \<and>
     (if value_type = kTypeDeletion then \<forall>j. n \<le> j \<and> j \<le> hi \<longrightarrow> \<not> live env s es j
      else \<exists>m. n \<le> m \<and> m \<le> hi \<and> m < length es \<and> visible env s (es ! m) \<and> ptype (entry_key env (es ! m)) = kTypeValue \<and>
        saved_key d = ukey env (es ! m) \<and> saved_value d = snd (es ! m) \<and>
        (\<forall>j. n \<le> j \<and> j < m \<longrightarrow> \<not> visible env s (es ! j)) \<and> (\<forall>j. m < j \<and> j \<le> hi \<longrightarrow> \<not> live env s es j))"

definition found_prev :: "64 word \<Rightarrow> (bytes \<times> bytes) list \<Rightarrow> nat \<Rightarrow> ValueType \<Rightarrow> ('it, 'r) DBIter \<Rightarrow> bool" where
  "found_prev s es hi value_type d \<longleftrightarrow>
     direction d = kReverse \<and> db_sequence d = s \<and>
     (if value_type = kTypeDeletion then (\<exists>q. irepr (db_iter d) es q) \<and> (\<forall>j\<le>hi. \<not> live env s es j)
      else \<exists>m q. irepr (db_iter d) es q \<and> live env s es m \<and> m \<le> hi \<and> (\<forall>j. m < j \<and> j \<le> hi \<longrightarrow> \<not> live env s es j) \<and>
        saved_key d = ukey env (es ! m) \<and> saved_value d = snd (es ! m) \<and> last_visible env s es m q)"

lemma passed_start:
  assumes "passed s es hi 0 value_type d" and "irepr (db_iter d) es None"
  shows "found_prev s es hi value_type d"
proof (cases "value_type = kTypeDeletion")
  case False
  with assms(1) obtain m where m: "m \<le> hi" "m < length es" "visible env s (es ! m)" "ptype (entry_key env (es ! m)) = kTypeValue"
    "saved_key d = ukey env (es ! m)" "saved_value d = snd (es ! m)" "\<forall>j<m. \<not> visible env s (es ! j)"
    "\<forall>j. m < j \<and> j \<le> hi \<longrightarrow> \<not> live env s es j" by (auto simp: passed_def)
  then have "live env s es m" "last_visible env s es m None" by (auto simp: live_def last_visible_def)
  with assms m False show ?thesis unfolding found_prev_def passed_def by auto
qed (use assms in \<open>auto simp: passed_def found_prev_def\<close>)

lemma passed_break:
  assumes r: "irepr (db_iter d) es (Some i)" "entries_ok env es" and p: "passed s es hi (Suc i) value_type d"
    and t: "value_type \<noteq> kTypeDeletion" and v: "visible env s (es ! i)" and c: "user_comparator env (ukey env (es ! i)) (saved_key d) < 0"
  shows "found_prev s es hi value_type d"
proof -
  from p t obtain m where m: "i < m" "m \<le> hi" "m < length es" "visible env s (es ! m)" "ptype (entry_key env (es ! m)) = kTypeValue"
    "saved_key d = ukey env (es ! m)" "saved_value d = snd (es ! m)" "\<forall>j. Suc i \<le> j \<and> j < m \<longrightarrow> \<not> visible env s (es ! j)"
    "\<forall>j. m < j \<and> j \<le> hi \<longrightarrow> \<not> live env s es j" by (auto simp: passed_def Suc_le_eq)
  have "\<not> visible env s (es ! j)" if "j < m" "user_comparator env (ukey env (es ! j)) (ukey env (es ! m)) = 0" for j
  proof (cases "j \<le> i")
    case True
    from same_key_between [OF r True _ m(3) that(2)] m(1,6) c show ?thesis by simp
  qed (use m(8) that(1) in auto)
  with m have "live env s es m" "last_visible env s es m (Some i)" using v by (auto simp: live_def last_visible_def)
  with r(1) p m t show ?thesis unfolding found_prev_def passed_def by auto
qed

text \<open>Going on from a visible entry, nothing after it is shown.\<close>

lemma passed_not_live:
  assumes r: "irepr it es q" "entries_ok env es" and p: "passed s es hi (Suc i) value_type d"
    and v: "visible env s (es ! i)" and c: "value_type = kTypeDeletion \<or> \<not> user_comparator env (ukey env (es ! i)) (saved_key d) < 0"
    and j: "i < j" "j \<le> hi"
  shows "\<not> live env s es j"
proof (cases "value_type = kTypeDeletion")
  case False
  with p obtain m where m: "i < m" "m < length es" "saved_key d = ukey env (es ! m)"
    "\<forall>j. Suc i \<le> j \<and> j < m \<longrightarrow> \<not> visible env s (es ! j)" "\<forall>j. m < j \<and> j \<le> hi \<longrightarrow> \<not> live env s es j"
    by (auto simp: passed_def Suc_le_eq)
  have "user_comparator env (ukey env (es ! i)) (ukey env (es ! m)) = 0"
    using ukey_mono [OF r, of i m] m c False by simp
  with m v have "\<not> live env s es m" by (auto simp: live_def)
  with m j show ?thesis by (cases j m rule: linorder_cases) (auto simp: live_def)
qed (use p j in \<open>auto simp: passed_def\<close>)

lemma prev_case_passes:
  assumes r: "irepr (db_iter d) es (Some i)" "entries_ok env es" and p: "passed s es hi (Suc i) value_type d" and i: "i \<le> hi"
  shows "\<exists>stop value_type' d'. prev_case env ops value_type (Some (entry_key env (es ! i))) d = Some (stop, value_type', d') \<and>
    db_iter d' = db_iter d \<and>
    (if stop then found_prev s es hi value_type' d' else passed s es hi i value_type' d')"
proof -
  note b = internal.repr_bound [OF r(1)]
  have s: "db_sequence d = s" "direction d = kReverse" using p by (auto simp: passed_def)
  consider (hidden) "\<not> visible env s (es ! i)"
    | (stop) "visible env s (es ! i)" "value_type \<noteq> kTypeDeletion" "user_comparator env (ukey env (es ! i)) (saved_key d) < 0"
    | (go) "visible env s (es ! i)" "value_type = kTypeDeletion \<or> \<not> user_comparator env (ukey env (es ! i)) (saved_key d) < 0"
    by blast
  then show ?thesis
  proof cases
    case hidden
    then have "\<not> live env s es i" by (simp add: live_def)
    with p hidden have "passed s es hi i value_type d"
      unfolding passed_def by (auto simp: Suc_le_eq split: if_splits) (metis le_less)+
    with hidden s show ?thesis by (auto simp: prev_case_def visible_def)
  next
    case stop
    with passed_break [OF r p stop(2,1,3)] s show ?thesis by (auto simp: prev_case_def visible_def)
  next
    case go
    note nl = passed_not_live [OF r p go]
    from type_at [OF r b] show ?thesis
    proof
      assume t: "ptype (entry_key env (es ! i)) = kTypeDeletion"
      have "\<not> live env s es j" if "i \<le> j" "j \<le> hi" for j
        using nl [of j] that t by (cases "j = i") (auto simp: live_def)
      with go t s show ?thesis by (auto simp: prev_case_def visible_def ClearSavedValue_def passed_def)
    next
      assume t: "ptype (entry_key env (es ! i)) = kTypeValue"
      let ?d = "d\<lparr>saved_key := ukey env (es ! i), saved_value := snd (es ! i)\<rparr>"
      have "passed s es hi i kTypeValue ?d" unfolding passed_def using s nl i b go(1) t by auto
      with go t s user_key_at [OF r] internal.value_at [OF r(1)] show ?thesis by (auto simp: prev_case_def visible_def)
    qed
  qed
qed

lemma prev_loop_finds:
  fixes d :: "('it, 'r) DBIter"
  assumes "irepr (db_iter d) es (Some i)" and ok: "entries_ok env es" and "passed s es hi (Suc i) value_type d" and "i \<le> hi"
  shows "\<exists>value_type' d'. prev_loop env ops value_type d = Some (value_type', d') \<and> found_prev s es hi value_type' d'"
  using assms(1,3,4)
proof (induction i arbitrary: d value_type rule: less_induct)
  case (less i)
  from ParseKey_at [OF less.prems(1) ok] obtain d1 where
    p: "ParseKey env ops d = Some (Some (entry_key env (es ! i)), d1)" "same_view d d1" by blast
  then have v: "db_iter d1 = db_iter d" "passed s es hi (Suc i) value_type d1"
    using less.prems(2) by (auto simp: same_view_def passed_def)
  from prev_case_passes [OF _ ok v(2) less.prems(3)] less.prems(1) v(1) obtain stop value_type' d2 where
    c: "prev_case env ops value_type (Some (entry_key env (es ! i))) d1 = Some (stop, value_type', d2)" "db_iter d2 = db_iter d"
      "if stop then found_prev s es hi value_type' d2 else passed s es hi i value_type' d2" by auto
  show ?case
  proof (cases stop)
    case True
    with p(1) c show ?thesis by (subst prev_loop.simps) simp
  next
    case False
    from internal.prev_at [OF less.prems(1)] obtain it where
      it: "iPrev ops (db_iter d) = Some it" "irepr it es (if i = 0 then None else Some (i - 1))" by blast
    from False c(3) have pd: "passed s es hi i value_type' (d2\<lparr>db_iter := it\<rparr>)" by (simp add: passed_def)
    show ?thesis
    proof (cases "i = 0")
      case True
      with it(2) have r: "irepr it es None" by simp
      from passed_start [OF pd [unfolded True]] r have "found_prev s es hi value_type' (d2\<lparr>db_iter := it\<rparr>)" by simp
      with p(1) c it(1) False internal.valid_iff [OF r] show ?thesis by (subst prev_loop.simps) simp
    next
      case pos: False
      with it(2) have r: "irepr it es (Some (i - 1))" by simp
      from pos less.prems(3) have "i - 1 < i" "i - 1 \<le> hi" "Suc (i - 1) = i" by auto
      with less.IH [of "i - 1" "d2\<lparr>db_iter := it\<rparr>" value_type'] pd r obtain vt d' where
        "prev_loop env ops value_type' (d2\<lparr>db_iter := it\<rparr>) = Some (vt, d')" "found_prev s es hi vt d'" by auto
      with p(1) c it(1) False internal.valid_iff [OF r] show ?thesis by (subst prev_loop.simps) simp
    qed
  qed
qed

lemma leave_key_leaves:
  fixes d :: "('it, 'r) DBIter"
  assumes "irepr (db_iter d) es (Some i)" and ok: "entries_ok env es" and "saved_key d = ukey env (es ! m)" and "i \<le> m"
    and "\<And>j. i \<le> j \<Longrightarrow> j \<le> m \<Longrightarrow> \<not> user_comparator env (ukey env (es ! j)) (ukey env (es ! m)) < 0"
  shows "\<exists>start d' q. leave_key env ops d = Some (start, d') \<and> db_sequence d' = db_sequence d \<and> direction d' = direction d \<and>
    irepr (db_iter d') es q \<and>
    (if start then \<not> db_valid d' \<and> (\<forall>j\<le>m. \<not> user_comparator env (ukey env (es ! j)) (ukey env (es ! m)) < 0)
     else \<exists>j. q = Some j \<and> j < m \<and> (\<forall>k. j < k \<and> k \<le> m \<longrightarrow> \<not> user_comparator env (ukey env (es ! k)) (ukey env (es ! m)) < 0))"
  using assms(1,3-)
proof (induction i arbitrary: d)
  case 0
  from internal.prev_at [OF 0(1)] obtain it where it: "iPrev ops (db_iter d) = Some it" "irepr it es None" by auto
  with internal.valid_iff [OF it(2)] 0 show ?case by (subst leave_key.simps) (auto simp: ClearSavedValue_def)
next
  case (Suc i)
  from internal.prev_at [OF Suc(2)] obtain it where it: "iPrev ops (db_iter d) = Some it" "irepr it es (Some i)" by auto
  note f = internal.valid_iff [OF it(2)] user_key_at [OF it(2) ok]
  show ?case
  proof (cases "user_comparator env (ukey env (es ! i)) (ukey env (es ! m)) < 0")
    case True
    with it f Suc.prems show ?thesis by (subst leave_key.simps) (auto simp: Suc_le_eq)
  next
    case False
    have "\<not> user_comparator env (ukey env (es ! j)) (ukey env (es ! m)) < 0" if "i \<le> j" "j \<le> m" for j
      using False Suc.prems(4) [of j] that by (cases "i = j") auto
    with Suc.IH [of "d\<lparr>db_iter := it\<rparr>"] it(2) Suc.prems(2,3) have "\<exists>start d' q. leave_key env ops (d\<lparr>db_iter := it\<rparr>) = Some (start, d') \<and>
      db_sequence d' = db_sequence d \<and> direction d' = direction d \<and> irepr (db_iter d') es q \<and>
      (if start then \<not> db_valid d' \<and> (\<forall>j\<le>m. \<not> user_comparator env (ukey env (es ! j)) (ukey env (es ! m)) < 0)
       else \<exists>j. q = Some j \<and> j < m \<and> (\<forall>k. j < k \<and> k \<le> m \<longrightarrow> \<not> user_comparator env (ukey env (es ! k)) (ukey env (es ! m)) < 0))"
      by simp
    with False it f Suc.prems(2) show ?thesis by (subst leave_key.simps) simp
  qed
qed

subsection \<open>Positions\<close>

lemma found_next_repr:
  assumes f: "found_next s es b d" and ok: "entries_ok env es" "s \<le> kMaxSequenceNumber" and b: "b \<le> length es"
  shows "db_repr env irepr d (user_entries env s es) (pos_of (user_entries env s es) (rank (live env s es) b))"
proof (cases "db_valid d")
  case True
  with f obtain m where m: "irepr (db_iter d) es (Some m)" "live env s es m" "b \<le> m" "\<forall>j. b \<le> j \<and> j < m \<longrightarrow> \<not> live env s es j"
    by (auto simp: found_next_def)
  from rank_eq [OF m(3), of "live env s es"] m(4) have r: "rank (live env s es) b = rank (live env s es) m" by simp
  from f have "db_sequence d = s" "direction d = kForward" by (auto simp: found_next_def)
  with True m(1,2) ok shown_rank(2) [OF m(2)] db_repr_forward [of irepr d es m env] show ?thesis
    unfolding r pos_of_def by auto
next
  case False
  with f have "\<forall>j\<ge>b. \<not> live env s es j" by (simp add: found_next_def)
  with rank_eq [OF b, of "live env s es"] have "rank (live env s es) b = length (user_entries env s es)"
    by (simp add: length_user_entries)
  with False f ok show ?thesis by (auto simp: db_repr_def pos_of_def found_next_def)
qed

lemma FindNext_repr:
  fixes d :: "('it, 'r) DBIter"
  assumes r: "irepr (db_iter d) es (Some i)" and ok: "entries_ok env es" "db_sequence d \<le> kMaxSequenceNumber"
    and d: "direction d = kForward" and k: "skips (db_sequence d) es skipping (saved_key d) b i" and b: "i \<le> b" "b \<le> length es"
  shows "\<exists>d'. FindNextUserEntry env ops skipping d = Some d' \<and>
    db_repr env irepr d' (user_entries env (db_sequence d) es)
      (pos_of (user_entries env (db_sequence d) es) (rank (live env (db_sequence d) es) b))"
proof -
  from next_loop_finds [OF r ok(1) d refl k] b(1) obtain d' where
    "next_loop env ops skipping d = Some d'" "found_next (db_sequence d) es b d'" by (auto simp: max_absorb2)
  with found_next_repr [OF _ ok b(2)] internal.valid_iff [OF r] d show ?thesis by (auto simp: FindNextUserEntry_def)
qed

lemma FindPrev_repr:
  fixes d :: "('it, 'r) DBIter"
  assumes r: "irepr (db_iter d) es (Some i)" and ok: "entries_ok env es" "db_sequence d \<le> kMaxSequenceNumber"
    and d: "direction d = kReverse" and n: "rank (live env (db_sequence d) es) (Suc i) = n"
  shows "\<exists>d'. FindPrevUserEntry env ops d = Some d' \<and>
    db_repr env irepr d' (user_entries env (db_sequence d) es) (if n = 0 then None else Some (n - 1))"
proof -
  let ?L = "live env (db_sequence d) es"
  have "passed (db_sequence d) es i (Suc i) kTypeDeletion d" using d by (auto simp: passed_def)
  from prev_loop_finds [OF r ok(1) this] obtain vt d' where
    p: "prev_loop env ops kTypeDeletion d = Some (vt, d')" "found_prev (db_sequence d) es i vt d'" by auto
  show ?thesis
  proof (cases "vt = kTypeDeletion")
    case True
    with p(2) have "\<forall>j\<le>i. \<not> ?L j" by (simp add: found_prev_def)
    with rank_eq [of 0 "Suc i" ?L] n have "n = 0" by (simp add: rank_def)
    with True p ok d internal.valid_iff [OF r] show ?thesis
      by (auto simp: FindPrevUserEntry_def ClearSavedValue_def db_repr_def found_prev_def)
  next
    case False
    with p(2) obtain m q where m: "irepr (db_iter d') es q" "?L m" "m \<le> i" "\<forall>j. m < j \<and> j \<le> i \<longrightarrow> \<not> ?L j"
      "saved_key d' = ukey env (es ! m)" "saved_value d' = snd (es ! m)" "last_visible env (db_sequence d) es m q"
      "direction d' = kReverse" "db_sequence d' = db_sequence d" by (auto simp: found_prev_def)
    from rank_eq [of "Suc m" "Suc i" ?L] m(2,3,4) n have "n = Suc (rank ?L m)" by (auto simp: rank_Suc)
    with False p(1) m ok d internal.valid_iff [OF r] db_repr_reverse [of irepr "d'\<lparr>db_valid := True\<rparr>" es q env m] show ?thesis
      by (auto simp: FindPrevUserEntry_def)
  qed
qed

lemma FindPrev_start:
  fixes d :: "('it, 'r) DBIter"
  assumes r: "irepr (db_iter d) es None" and ok: "entries_ok env es" "db_sequence d \<le> kMaxSequenceNumber"
    and d: "direction d = kReverse"
  shows "\<exists>d'. FindPrevUserEntry env ops d = Some d' \<and> db_repr env irepr d' (user_entries env (db_sequence d) es) None"
  using assms internal.valid_iff [OF r] by (auto simp: FindPrevUserEntry_def ClearSavedValue_def db_repr_def)

lemma db_reprE:
  assumes "db_repr env irepr d us (Some i)"
  obtains es m where "entries_ok env es" "db_sequence d \<le> kMaxSequenceNumber" "us = user_entries env (db_sequence d) es"
    "db_valid d" "live env (db_sequence d) es m" "m < length es" "visible env (db_sequence d) (es ! m)"
    "i = rank (live env (db_sequence d) es) m" "us ! i = (ukey env (es ! m), snd (es ! m))" "i < length us"
    "direction d = kForward \<and> irepr (db_iter d) es (Some m) \<or>
     direction d = kReverse \<and> saved_key d = ukey env (es ! m) \<and> saved_value d = snd (es ! m) \<and>
       (\<exists>q. irepr (db_iter d) es q \<and> last_visible env (db_sequence d) es m q)"
proof -
  from assms obtain es q where e: "irepr (db_iter d) es q" "entries_ok env es" "db_sequence d \<le> kMaxSequenceNumber"
    "us = user_entries env (db_sequence d) es" "db_valid d" "i < length us"
    "let m = shown env (db_sequence d) es ! i
     in direction d = kForward \<and> q = Some m \<or>
        direction d = kReverse \<and> saved_key d = ukey env (es ! m) \<and> saved_value d = snd (es ! m) \<and>
        last_visible env (db_sequence d) es m q" by (auto simp: db_repr_def)
  let ?m = "shown env (db_sequence d) es ! i"
  from e(4,6) have m: "live env (db_sequence d) es ?m" "rank (live env (db_sequence d) es) ?m = i"
    "us ! i = (ukey env (es ! ?m), snd (es ! ?m))" using shown_nth [of i env "db_sequence d" es] by simp_all
  then have "?m < length es" "visible env (db_sequence d) (es ! ?m)" by (auto simp: live_def)
  moreover have "direction d = kForward \<and> irepr (db_iter d) es (Some ?m) \<or>
     direction d = kReverse \<and> saved_key d = ukey env (es ! ?m) \<and> saved_value d = snd (es ! ?m) \<and>
       (\<exists>q. irepr (db_iter d) es q \<and> last_visible env (db_sequence d) es ?m q)"
    using e(1,7) unfolding Let_def by auto
  ultimately show thesis using e(2-6) m that by metis
qed

subsection \<open>The moves\<close>

lemma Next_repr:
  fixes d :: "('it, 'r) DBIter"
  assumes "db_repr env irepr d us (Some i)"
  shows "\<exists>d'. DBIter_Next env ops d = Some d' \<and> db_repr env irepr d' us (pos_of us (Suc i))"
proof -
  from assms obtain es m where e: "entries_ok env es" "db_sequence d \<le> kMaxSequenceNumber" "us = user_entries env (db_sequence d) es"
    "db_valid d" "live env (db_sequence d) es m" "m < length es" "visible env (db_sequence d) (es ! m)"
    "i = rank (live env (db_sequence d) es) m"
    and c: "direction d = kForward \<and> irepr (db_iter d) es (Some m) \<or>
     direction d = kReverse \<and> saved_key d = ukey env (es ! m) \<and> saved_value d = snd (es ! m) \<and>
       (\<exists>q. irepr (db_iter d) es q \<and> last_visible env (db_sequence d) es m q)"
    by (rule db_reprE)
  have n: "rank (live env (db_sequence d) es) (Suc m) = Suc i" using e(5,8) by (simp add: rank_Suc)
  from c show ?thesis
  proof (elim disjE conjE exE)
    assume d: "direction d = kForward" and r: "irepr (db_iter d) es (Some m)"
    have "skips (db_sequence d) es True (ukey env (es ! m)) (Suc m) m" by (rule skips_after [OF r e(1,6,7)]) auto
    with FindNext_repr [of "d\<lparr>saved_key := ukey env (es ! m)\<rparr>" es m True "Suc m"] r d e n user_key_at [OF r e(1)] show ?thesis
      by (simp add: DBIter_Next_def)
  next
    fix q
    assume d: "direction d = kReverse" "saved_key d = ukey env (es ! m)" and r: "irepr (db_iter d) es q"
      and l: "last_visible env (db_sequence d) es m q"
    define j where "j = (case q of None \<Rightarrow> 0 | Some k \<Rightarrow> Suc k)"
    have j: "j \<le> m" "\<And>k. j \<le> k \<Longrightarrow> k < m \<Longrightarrow> \<not> visible env (db_sequence d) (es ! k)"
      using l by (auto simp: j_def last_visible_def split: option.splits)
    have "\<exists>it. (if iValid ops (db_iter d) then iNext ops (db_iter d) else iSeekToFirst ops (db_iter d)) = Some it \<and>
        irepr it es (pos_of es j)"
      using internal.valid_iff [OF r] internal.next_at [of "db_iter d" es] internal.seek_first [OF r] r
      by (cases q) (auto simp: j_def)
    with j(1) e(6) obtain it where
      it: "(if iValid ops (db_iter d) then iNext ops (db_iter d) else iSeekToFirst ops (db_iter d)) = Some it" "irepr it es (Some j)"
      by (auto simp: pos_of_def)
    have "skips (db_sequence d) es True (ukey env (es ! m)) (Suc m) j" by (rule skips_after [OF r e(1,6,7) j])
    with FindNext_repr [of "d\<lparr>direction := kForward, db_iter := it\<rparr>" es j True "Suc m"] it(2) d e n j(1) have
      "\<exists>d'. FindNextUserEntry env ops True (d\<lparr>direction := kForward, db_iter := it\<rparr>) = Some d' \<and>
        db_repr env irepr d' us (pos_of us (Suc i))" by simp
    with it internal.valid_iff [OF it(2)] d(1) e(4) show ?thesis by (simp add: DBIter_Next_def)
  qed
qed

lemma Prev_repr:
  fixes d :: "('it, 'r) DBIter"
  assumes "db_repr env irepr d us (Some i)"
  shows "\<exists>d'. DBIter_Prev env ops d = Some d' \<and> db_repr env irepr d' us (if i = 0 then None else Some (i - 1))"
proof -
  from assms obtain es m where e: "entries_ok env es" "db_sequence d \<le> kMaxSequenceNumber" "us = user_entries env (db_sequence d) es"
    "db_valid d" "live env (db_sequence d) es m" "m < length es" "visible env (db_sequence d) (es ! m)"
    "i = rank (live env (db_sequence d) es) m"
    and c: "direction d = kForward \<and> irepr (db_iter d) es (Some m) \<or>
     direction d = kReverse \<and> saved_key d = ukey env (es ! m) \<and> saved_value d = snd (es ! m) \<and>
       (\<exists>q. irepr (db_iter d) es q \<and> last_visible env (db_sequence d) es m q)"
    by (rule db_reprE)
  let ?L = "live env (db_sequence d) es"
  from c show ?thesis
  proof (elim disjE conjE exE)
    assume d: "direction d = kForward" and r: "irepr (db_iter d) es (Some m)"
    have own: "\<not> ?L j" if "j < m" "\<not> user_comparator env (ukey env (es ! j)) (ukey env (es ! m)) < 0" for j
      using that ukey_mono [OF r e(1), of j m] e(5,6) by (auto simp: live_def)
    let ?d = "d\<lparr>saved_key := ukey env (es ! m)\<rparr>"
    have "\<And>j. m \<le> j \<Longrightarrow> j \<le> m \<Longrightarrow> \<not> user_comparator env (ukey env (es ! j)) (ukey env (es ! m)) < 0"
      using comparator.cmp_refl [OF user_cmp] by simp
    from leave_key_leaves [of ?d es m m, OF _ e(1) _ _ this] r obtain start d' q where
      k: "leave_key env ops ?d = Some (start, d')" "db_sequence d' = db_sequence d" "direction d' = kForward" "irepr (db_iter d') es q"
        "if start then \<not> db_valid d' \<and> (\<forall>j\<le>m. \<not> user_comparator env (ukey env (es ! j)) (ukey env (es ! m)) < 0)
         else \<exists>j. q = Some j \<and> j < m \<and> (\<forall>k. j < k \<and> k \<le> m \<longrightarrow> \<not> user_comparator env (ukey env (es ! k)) (ukey env (es ! m)) < 0)"
      using d by auto
    note f = user_key_at [OF r e(1)] internal.valid_iff [OF r]
    show ?thesis
    proof (cases start)
      case True
      with k(5) own have "rank ?L m = rank ?L 0" by (intro rank_eq) auto
      then have "i = 0" using e(8) by (simp add: rank_def)
      moreover from k True e db_repr_none [of irepr d' es q env] have "db_repr env irepr d' us None" by simp
      ultimately show ?thesis using k(1) f d e(4) True by (simp add: DBIter_Prev_def)
    next
      case False
      with k(5) obtain j where j: "q = Some j" "j < m"
        "\<forall>k. j < k \<and> k \<le> m \<longrightarrow> \<not> user_comparator env (ukey env (es ! k)) (ukey env (es ! m)) < 0" by auto
      have "rank ?L m = rank ?L (Suc j)" by (rule rank_eq) (use j own in auto)
      with FindPrev_repr [of "d'\<lparr>direction := kReverse\<rparr>" es j i] j k e f d False show ?thesis by (simp add: DBIter_Prev_def)
    qed
  next
    fix q
    assume d: "direction d = kReverse" and r: "irepr (db_iter d) es q" and l: "last_visible env (db_sequence d) es m q"
    show ?thesis
    proof (cases q)
      case None
      with l have "rank ?L m = rank ?L 0" by (intro rank_eq) (auto simp: last_visible_def live_def)
      then have "i = 0" using e(8) by (simp add: rank_def)
      with None FindPrev_start [of d es] r d e show ?thesis by (simp add: DBIter_Prev_def)
    next
      case (Some j)
      with l have "rank ?L m = rank ?L (Suc j)" by (intro rank_eq) (auto simp: last_visible_def live_def)
      with Some FindPrev_repr [of d es j i] r d e show ?thesis by (simp add: DBIter_Prev_def)
    qed
  qed
qed

text \<open>Where the internal iterator stops when it seeks the target at the snapshot.\<close>

lemma seek_bounds:
  assumes r: "irepr it es q" and ok: "entries_ok env es" and s: "s \<le> kMaxSequenceNumber"
    and i: "i = length (takeWhile (\<lambda>e. icmp (fst e) (AppendInternalKey env \<lparr>user_key = t, sequence = s, ptype = kTypeValue\<rparr>) < 0) es)"
  shows "\<And>j. j < i \<Longrightarrow> visible env s (es ! j) \<Longrightarrow> user_comparator env (ukey env (es ! j)) t < 0"
    and "\<And>j. i \<le> j \<Longrightarrow> j < length es \<Longrightarrow> \<not> user_comparator env (ukey env (es ! j)) t < 0"
proof -
  let ?k = "(AppendInternalKey env \<lparr>user_key = t, sequence = s, ptype = kTypeValue\<rparr>, [] :: bytes)"
  from laws s have "ParseInternalKey (env_coding env) (fst ?k) = (True, Some \<lparr>user_key = t, sequence = s, ptype = kTypeValue\<rparr>)"
    unfolding db_env_laws_def key_laws_def by simp
  then have k: "key_parses env ?k" "entry_key env ?k = \<lparr>user_key = t, sequence = s, ptype = kTypeValue\<rparr>"
    by (auto simp: key_parses_def entry_key_def)
  have il: "i \<le> length es" using i by (simp add: length_takeWhile_le)
  have p: "key_parses env (es ! j)" if "j < length es" for j using ok that by (simp add: entries_ok_def)
  show "user_comparator env (ukey env (es ! j)) t < 0" if j: "j < i" "visible env s (es ! j)" for j
  proof -
    from j(1) i have "icmp (fst (es ! j)) (fst ?k) < 0" using nth_mem [of j "takeWhile (\<lambda>e. icmp (fst e) (fst ?k) < 0) es"]
      by (auto simp: takeWhile_nth dest: set_takeWhileD)
    moreover have "\<not> value_type_code kTypeValue < value_type_code (ptype (entry_key env (es ! j)))"
      using type_at [OF r ok, of j] j(1) il by (auto simp: value_type_code_def)
    ultimately show ?thesis
      using icmp_order [OF p k(1), of j] k(2) j il by (auto simp: visible_def)
  qed
  show "\<not> user_comparator env (ukey env (es ! j)) t < 0" if j: "i \<le> j" "j < length es" for j
  proof
    assume "user_comparator env (ukey env (es ! j)) t < 0"
    with ukey_mono [OF r ok j] have "user_comparator env (ukey env (es ! i)) t < 0" by (rule user_trans(3))
    with icmp_order [OF p k(1), of i] k(2) j have "icmp (fst (es ! i)) (fst ?k) < 0" by simp
    with i j nth_length_takeWhile [of "\<lambda>e. icmp (fst e) (fst ?k) < 0" es] show False by simp
  qed
qed

lemma seek_rank:
  assumes "i \<le> length es" and "\<And>j. j < i \<Longrightarrow> visible env s (es ! j) \<Longrightarrow> user_comparator env (ukey env (es ! j)) t < 0"
    and "\<And>j. i \<le> j \<Longrightarrow> j < length es \<Longrightarrow> \<not> user_comparator env (ukey env (es ! j)) t < 0"
  shows "length (takeWhile (\<lambda>e. user_comparator env (fst e) t < 0) (user_entries env s es)) = rank (live env s es) i"
proof -
  let ?f = "\<lambda>i. (ukey env (es ! i), snd (es ! i))"
  let ?a = "map ?f (filter (live env s es) [0..<i])" and ?b = "map ?f (filter (live env s es) [i..<length es])"
  have "user_entries env s es = ?a @ ?b" using filter_upt_split [OF assms(1)] by (simp add: user_entries_def shown_def)
  moreover have "takeWhile (\<lambda>e. user_comparator env (fst e) t < 0) (?a @ ?b) = ?a @ takeWhile (\<lambda>e. user_comparator env (fst e) t < 0) ?b"
    by (rule takeWhile_append2) (use assms(2) in \<open>auto simp: live_def\<close>)
  moreover have "\<forall>e\<in>set ?b. \<not> user_comparator env (fst e) t < 0" using assms(3) by auto
  then have "takeWhile (\<lambda>e. user_comparator env (fst e) t < 0) ?b = []" by (cases ?b) auto
  ultimately show ?thesis by (simp add: rank_def)
qed

lemma Seek_repr:
  fixes d :: "('it, 'r) DBIter"
  assumes "db_repr env irepr d us p"
  shows "\<exists>d'. DBIter_Seek env ops t d = Some d' \<and>
    db_repr env irepr d' us (pos_of us (length (takeWhile (\<lambda>e. user_comparator env (fst e) t < 0) us)))"
proof -
  from assms obtain es q where e: "irepr (db_iter d) es q" "entries_ok env es" "db_sequence d \<le> kMaxSequenceNumber"
    "us = user_entries env (db_sequence d) es" by (auto simp: db_repr_def)
  let ?k = "AppendInternalKey env \<lparr>user_key = t, sequence = db_sequence d, ptype = kTypeValue\<rparr>"
  define i where "i = length (takeWhile (\<lambda>e. icmp (fst e) ?k < 0) es)"
  have il: "i \<le> length es" by (simp add: i_def length_takeWhile_le)
  note b = seek_bounds [OF e(1-3) i_def]
  from seek_rank [OF il b] e(4) have n: "length (takeWhile (\<lambda>e. user_comparator env (fst e) t < 0) us) = rank (live env (db_sequence d) es) i"
    by simp
  from internal.seek_at [OF e(1), of ?k] obtain it where it: "iSeek ops ?k (db_iter d) = Some it" "irepr it es (pos_of es i)"
    by (auto simp: i_def)
  let ?d = "d\<lparr>direction := kForward, saved_value := [], saved_key := ?k, db_iter := it\<rparr>"
  show ?thesis
  proof (cases "i < length es")
    case True
    with it(2) have r: "irepr it es (Some i)" by (simp add: pos_of_def)
    have "user_comparator env (ukey env (es ! j)) (ukey env (es ! k)) \<noteq> 0"
      if "j < i" "visible env (db_sequence d) (es ! j)" "i \<le> k" "k < length es" for j k
      using b(1) [OF that(1,2)] b(2) [OF that(3,4)]
        user_trans(3) [of "ukey env (es ! k)" "ukey env (es ! j)" t]
        comparator.cmp_zero_sym [OF user_cmp, of "ukey env (es ! j)" "ukey env (es ! k)"] by auto
    then have "skips (db_sequence d) es False ?k i i" unfolding skips_def by auto
    with FindNext_repr [of ?d es i False i] r e il have
      "\<exists>d'. FindNextUserEntry env ops False ?d = Some d' \<and> db_repr env irepr d' us (pos_of us (rank (live env (db_sequence d) es) i))"
      by simp
    with it(1) internal.valid_iff [OF r] n show ?thesis
      by (simp add: DBIter_Seek_def ClearSavedValue_def kValueTypeForSeek_def)
  next
    case False
    with it(2) have r: "irepr it es None" by (simp add: pos_of_def)
    from False il e(4) n have "pos_of us (length (takeWhile (\<lambda>e. user_comparator env (fst e) t < 0) us)) = None"
      by (simp add: pos_of_def length_user_entries)
    with it(1) internal.valid_iff [OF r] db_repr_none [of irepr "?d\<lparr>db_valid := False\<rparr>" es None env] r e show ?thesis
      by (simp add: DBIter_Seek_def ClearSavedValue_def kValueTypeForSeek_def)
  qed
qed

lemma ends_repr:
  fixes d :: "('it, 'r) DBIter"
  assumes "db_repr env irepr d us p"
  shows "\<exists>d'. DBIter_SeekToFirst env ops d = Some d' \<and> db_repr env irepr d' us (pos_of us 0)"
    and "\<exists>d'. DBIter_SeekToLast env ops d = Some d' \<and> db_repr env irepr d' us (if us = [] then None else Some (length us - 1))"
proof -
  from assms obtain es q where e: "irepr (db_iter d) es q" "entries_ok env es" "db_sequence d \<le> kMaxSequenceNumber"
    "us = user_entries env (db_sequence d) es" by (auto simp: db_repr_def)
  have len: "length us = rank (live env (db_sequence d) es) (length es)" using e(4) by (simp add: length_user_entries)
  from internal.seek_first [OF e(1)] obtain it where it: "iSeekToFirst ops (db_iter d) = Some it" "irepr it es (pos_of es 0)" by blast
  let ?d = "d\<lparr>direction := kForward, saved_value := [], db_iter := it\<rparr>"
  show "\<exists>d'. DBIter_SeekToFirst env ops d = Some d' \<and> db_repr env irepr d' us (pos_of us 0)"
  proof (cases "es = []")
    case True
    with it(2) have r: "irepr it es None" by (simp add: pos_of_def)
    with True it(1) internal.valid_iff [OF r] db_repr_none [of irepr "?d\<lparr>db_valid := False\<rparr>" es None env] e len show ?thesis
      by (simp add: DBIter_SeekToFirst_def ClearSavedValue_def pos_of_def rank_def)
  next
    case False
    with it(2) have r: "irepr it es (Some 0)" by (simp add: pos_of_def)
    have "skips (db_sequence d) es False (saved_key d) 0 0" unfolding skips_def by auto
    with FindNext_repr [of ?d es 0 False 0] r e it(1) internal.valid_iff [OF r] show ?thesis
      by (simp add: DBIter_SeekToFirst_def ClearSavedValue_def rank_def)
  qed
  from internal.seek_last [OF e(1)] obtain it' where
    l: "iSeekToLast ops (db_iter d) = Some it'" "irepr it' es (if es = [] then None else Some (length es - 1))" by blast
  let ?d' = "d\<lparr>direction := kReverse, saved_value := [], db_iter := it'\<rparr>"
  show "\<exists>d'. DBIter_SeekToLast env ops d = Some d' \<and> db_repr env irepr d' us (if us = [] then None else Some (length us - 1))"
  proof (cases "es = []")
    case True
    then have "us = []" using len by (simp add: rank_def)
    with True FindPrev_start [of ?d' es] l e show ?thesis by (simp add: DBIter_SeekToLast_def ClearSavedValue_def)
  next
    case False
    with FindPrev_repr [of ?d' es "length es - 1" "length us"] l e len show ?thesis
      by (auto simp: DBIter_SeekToLast_def ClearSavedValue_def)
  qed
qed

lemma user_entries_sorted:
  assumes "irepr it es q" and "entries_ok env es"
  shows "sorted_wrt (\<lambda>a b. user_comparator env (fst a) (fst b) < 0) (user_entries env s es)"
proof -
  have lt: "sorted_wrt (<) (shown env s es)" by (simp add: shown_def sorted_wrt_filter)
  have "sorted_wrt (\<lambda>i j. user_comparator env (ukey env (es ! i)) (ukey env (es ! j)) < 0) (shown env s es)"
  proof (rule sorted_wrt_mono_rel [OF _ lt])
    fix i j
    assume "i \<in> set (shown env s es)" "j \<in> set (shown env s es)" "i < j"
    then show "user_comparator env (ukey env (es ! i)) (ukey env (es ! j)) < 0"
      using ukey_mono [OF assms, of i j] by (auto simp: shown_def live_def)
  qed
  then show ?thesis by (simp add: user_entries_def sorted_wrt_map)
qed

lemma view_at:
  fixes d :: "('it, 'r) DBIter"
  assumes "db_repr env irepr d us (Some i)"
  shows "DBIter_key ops d = Some (fst (us ! i))" and "DBIter_value ops d = Some (snd (us ! i))" and "i < length us"
proof -
  from assms obtain es m where e: "entries_ok env es" "db_valid d" "us ! i = (ukey env (es ! m), snd (es ! m))" "i < length us"
    and c: "direction d = kForward \<and> irepr (db_iter d) es (Some m) \<or>
     direction d = kReverse \<and> saved_key d = ukey env (es ! m) \<and> saved_value d = snd (es ! m) \<and>
       (\<exists>q. irepr (db_iter d) es q \<and> last_visible env (db_sequence d) es m q)"
    by (rule db_reprE)
  from c e(2,3) user_key_at [OF _ e(1), of "db_iter d" m] internal.value_at [of "db_iter d" es m]
  show "DBIter_key ops d = Some (fst (us ! i))" "DBIter_value ops d = Some (snd (us ! i))"
    by (auto simp: DBIter_key_def DBIter_value_def)
  show "i < length us" by (rule e(4))
qed

end

sublocale db_iterator \<subseteq> user: entry_iterator "dbiter_ops env ops" "user_comparator env" "db_repr env irepr"
proof
  fix d us p
  show "sorted_wrt (\<lambda>a b. user_comparator env (fst a) (fst b) < 0) us" if "db_repr env irepr d us p"
    using that user_entries_sorted by (auto simp: db_repr_def)
  show "iValid (dbiter_ops env ops) d \<longleftrightarrow> p \<noteq> None" if "db_repr env irepr d us p"
    using that by (auto simp: db_repr_def dbiter_ops_def split: option.splits)
qed (simp_all add: dbiter_ops_def view_at Next_repr Prev_repr [simplified] Seek_repr ends_repr [simplified])

end
