(* ===== verification/Db_Iter_Client.thy ===== *)
theory Db_Iter_Client
  imports Db_Iter_Spec Skiplist_Spec
begin

text \<open>
  The database iterator over a memtable: the skip list provides the internal iterator, byte strings with the documented
  packing provide the internal keys.
\<close>

section \<open>Internal keys in a memtable\<close>

definition memtable_env :: "nat db_env" where
  "memtable_env =
     \<lparr>env_coding = plain_coding, AppendInternalKey = plain_append, user_comparator = bytes_compare,
      Uniform = (\<lambda>n r. (Suc r mod n, Suc r))\<rparr>"

lemma memtable_random: "\<exists>k. 0 < fst (RandomCompactionPeriod memtable_env ((next_random memtable_env ^^ k) r))"
proof (cases "Suc r mod 2097152 = 0")
  case True
  then have "Suc (Suc r) mod 2097152 = 1" by (simp add: mod_Suc)
  then show ?thesis
    by (intro exI [of _ 1]) (simp add: RandomCompactionPeriod_def next_random_def memtable_env_def kReadBytesPeriod_def)
next
  case False
  then show ?thesis
    by (intro exI [of _ 0]) (simp add: RandomCompactionPeriod_def memtable_env_def kReadBytesPeriod_def)
qed

lemma memtable_env_laws: "db_env_laws memtable_env internal_compare"
  unfolding db_env_laws_def
proof (intro conjI allI impI)
  show "key_laws (env_coding memtable_env) (AppendInternalKey memtable_env) (user_comparator memtable_env) internal_compare"
    by (simp add: memtable_env_def plain_key_laws)
  show "fst (Uniform memtable_env n r) < n" if "0 < n" for n r using that by (simp add: memtable_env_def)
  show "\<exists>k. 0 < fst (RandomCompactionPeriod memtable_env ((next_random memtable_env ^^ k) r))" for r by (rule memtable_random)
qed

interpretation memtable: db_iterator "sl_iter_ops internal_compare ([] :: bytes)" internal_compare "sl_iter_repr internal_compare"
    memtable_env
  by (intro db_iterator.intro sl_entry_iterator internal_comparator db_iterator_axioms.intro memtable_env_laws)

section \<open>What a client sees\<close>

lemma db_repr_new:
  assumes "irepr it es q" and "entries_ok env es" and "s \<le> kMaxSequenceNumber"
  shows "db_repr env irepr (NewDBIterator env it s r) (user_entries env s es) None"
  using assms by (auto simp: db_repr_def NewDBIterator_def split: prod.splits)

context db_iterator
begin

lemma moves_refine:
  fixes it :: 'it
  assumes "irepr it es q" and "entries_ok env es" and "s \<le> kMaxSequenceNumber"
    and "moves (cursor_move (user_comparator env) (user_entries env s es)) ms None = Some p"
  shows "\<exists>d. moves (do_move (dbiter_ops env ops)) ms (NewDBIterator env it s r) = Some d \<and>
    DBIter_key ops d = map_option (\<lambda>i. fst (user_entries env s es ! i)) p \<and>
    DBIter_value ops d = map_option (\<lambda>i. snd (user_entries env s es ! i)) p"
proof -
  have "db_repr env irepr (NewDBIterator env it s r) (user_entries env s es) None"
    by (rule db_repr_new [where irepr = irepr, OF assms(1-3)])
  from user.moves_simulate [OF this assms(4)] obtain d where
    d: "moves (do_move (dbiter_ops env ops)) ms (NewDBIterator env it s r) = Some d" "db_repr env irepr d (user_entries env s es) p"
    by blast
  have "\<not> db_valid d" if "p = None" using d(2) that by (auto simp: db_repr_def)
  with d view_at show ?thesis by (cases p) (auto simp: DBIter_key_def DBIter_value_def)
qed

end

section \<open>Properties\<close>

text \<open>
  C3: Over any internal iterator that meets the iterator contract, a database iterator made for a snapshot returns from every
  sequence of moves that the cursor over the snapshot's entries can make, forward, backward and turning around, and
  shows the cursor's key and value: of every user key the newest version at or below the snapshot, unless that is a deletion.
\<close>

theorem db_iterator_refines_cursor:
  assumes "entry_iterator ops icmp irepr" and "db_env_laws env icmp" and "irepr it es q" and "entries_ok env es"
    and "s \<le> kMaxSequenceNumber"
    and "moves (cursor_move (user_comparator env) (user_entries env s es)) ms None = Some p"
  shows "\<exists>d. moves (do_move (dbiter_ops env ops)) ms (NewDBIterator env it s r) = Some d \<and>
    DBIter_key ops d = map_option (\<lambda>i. fst (user_entries env s es ! i)) p \<and>
    DBIter_value ops d = map_option (\<lambda>i. snd (user_entries env s es ! i)) p"
  by (rule db_iterator.moves_refine [OF db_iterator.intro [OF assms(1) db_iterator_axioms.intro [OF assms(2)]] assms(3-6)])

text \<open>
  A memtable with two versions of one key and, of another, a value and its deletion.
\<close>

definition sample_memtable :: "(bytes \<times> bytes) list" where
  "sample_memtable =
     [(version 97 4 kTypeDeletion, []), (version 97 2 kTypeValue, [1]), (version 98 3 kTypeValue, [2]), (version 98 1 kTypeValue, [3])]"

lemma version_parse:
  assumes "s \<le> kMaxSequenceNumber" and "t = kTypeDeletion \<or> t = kTypeValue"
  shows "key_parses memtable_env (version u s t, v)" and "entry_key memtable_env (version u s t, v) = \<lparr>user_key = [u], sequence = s, ptype = t\<rparr>"
    and "length (version u s t) = 9"
  using parse_append_key [OF plain_coding_laws plain_append_def assms, of "[u]"]
  by (simp_all add: key_parses_def entry_key_def version_def memtable_env_def)

lemma sample_sorted: "sorted_wrt (\<lambda>a b. entry_cmp internal_compare a b < 0) sample_memtable"
  by (simp add: sample_memtable_def entry_cmp_def version_compare bytes_compare_single)

lemma sample_entries_ok: "entries_ok memtable_env sample_memtable"
  by (simp add: entries_ok_def sample_memtable_def version_parse)

lemma sample_view: "user_entries memtable_env 3 sample_memtable = [([97], [1]), ([98], [2])]"
proof -
  have c: "user_comparator memtable_env = bytes_compare" by (simp add: memtable_env_def)
  have two: "(\<forall>j<2. P j) \<longleftrightarrow> P 0 \<and> P (1 :: nat)" and three: "(\<forall>j<3. P j) \<longleftrightarrow> P 0 \<and> P 1 \<and> P (2 :: nat)" for P
    by (auto simp: less_2_cases_iff numeral_3_eq_3 less_Suc_eq numeral_2_eq_2)
  have "live memtable_env 3 sample_memtable 1" "live memtable_env 3 sample_memtable 2"
    "\<not> live memtable_env 3 sample_memtable 0" "\<not> live memtable_env 3 sample_memtable 3"
    by (simp_all add: live_def visible_def sample_memtable_def version_parse bytes_compare_single c two three)
  moreover have "[0..<length sample_memtable] = [0, 1, 2, 3]" by (simp add: sample_memtable_def upt_rec)
  ultimately have "shown memtable_env 3 sample_memtable = [1, 2]" by (simp add: shown_def)
  then show ?thesis by (simp add: user_entries_def sample_memtable_def version_parse)
qed

context comparator
begin

lemma insert_all_ascending:
  assumes "sl_rep cmp sl ks" and "sorted_wrt (\<lambda>a b. cmp a b < 0) (ks @ keys)"
  shows "\<exists>sl'. insert_all cmp f keys sl = Some sl' \<and> sl_rep cmp sl' (ks @ keys)"
  using assms
proof (induction keys arbitrary: sl ks)
  case (Cons k keys)
  then have lt: "\<forall>x\<in>set ks. cmp x k < 0" by (auto simp: sorted_wrt_append)
  then have "filter (\<lambda>x. cmp x k < 0) ks = ks" "filter (\<lambda>x. \<not> cmp x k < 0) ks = []" by (auto simp: filter_empty_conv)
  moreover from lt have "\<forall>x\<in>set ks. cmp x k \<noteq> 0" by auto
  ultimately obtain sl1 where
    "Insert cmp f k sl = Some sl1" "sl_rep cmp sl1 (ks @ [k])"
    using sl_rep_Insert [OF Cons.prems(1), of k f] by auto
  with Cons.IH [OF this(2)] Cons.prems(2) show ?case by auto
qed simp

end

theorem db_iterator_refines_cursor_witness:
  "\<exists>sl0 sl d. SkipList ([], []) (7 :: nat) = Some sl0 \<and>
    insert_all (entry_cmp internal_compare) (\<lambda>r. (of_nat r, Suc r)) sample_memtable sl0 = Some sl \<and>
    moves (do_move (dbiter_ops memtable_env (sl_iter_ops internal_compare []))) [MLast, MPrev, MNext, MPrev]
      (NewDBIterator memtable_env (Iterator sl) 3 0) = Some d \<and>
    DBIter_key (sl_iter_ops internal_compare []) d = Some [97] \<and> DBIter_value (sl_iter_ops internal_compare []) d = Some [1]"
proof -
  let ?cmp = "entry_cmp internal_compare :: bytes \<times> bytes \<Rightarrow> _" and ?ms = "[MLast, MPrev, MNext, MPrev] :: bytes move list"
  from sl_rep_SkipList [of "([], []) :: bytes \<times> bytes" "7 :: nat" ?cmp] obtain sl0 where
    sl0: "SkipList ([], []) (7 :: nat) = Some sl0" "sl_rep ?cmp sl0 []" by blast
  from comparator.insert_all_ascending [OF entry_cmp_comparator [OF internal_comparator] sl0(2), of sample_memtable "\<lambda>r. (of_nat r, Suc r)"]
    sample_sorted obtain sl where
    sl: "insert_all ?cmp (\<lambda>r. (of_nat r, Suc r)) sample_memtable sl0 = Some sl" "sl_rep ?cmp sl sample_memtable" by auto
  from sl(2) have "sl_iter_repr internal_compare (Iterator sl) sample_memtable None"
    by (auto simp: sl_rep_def sl_iter_repr_def Iterator_def)
  moreover have "moves (cursor_move (user_comparator memtable_env) (user_entries memtable_env 3 sample_memtable)) ?ms None = Some (Some 0)"
    by (simp add: sample_view pos_of_def)
  ultimately have "\<exists>d. moves (do_move (dbiter_ops memtable_env (sl_iter_ops internal_compare []))) ?ms
      (NewDBIterator memtable_env (Iterator sl) 3 0) = Some d \<and>
    DBIter_key (sl_iter_ops internal_compare []) d = map_option (\<lambda>i. fst (user_entries memtable_env 3 sample_memtable ! i)) (Some 0) \<and>
    DBIter_value (sl_iter_ops internal_compare []) d = map_option (\<lambda>i. snd (user_entries memtable_env 3 sample_memtable ! i)) (Some 0)"
    by (intro db_iterator_refines_cursor [OF sl_entry_iterator [OF internal_comparator] memtable_env_laws _ sample_entries_ok]) simp_all
  with sl0(1) sl(1) show ?thesis unfolding sample_view by auto
qed

end
