(* ===== verification/Log_Reader.thy ===== *)
theory Log_Reader
  imports Prelude
begin

text \<open>
  The reader of leveldb's logs (\<open>db/log_reader.cc\<close>): records cut into fragments, each with a checksum, a length and a type,
  in blocks of a fixed size.

  The sizes and type numbers of \<open>db/log_format.h\<close> and \<open>db/log_reader.h\<close>, the checksum of \<open>util/crc32c.h\<close> and the sequential
  file are not part of the sources: they are the parameters \<open>log_format\<close> and \<open>seq_file\<close>. Offsets are 64-bit
  words, as in the code. The reporter's calls are recorded. \<open>None\<close> is a loop that does not end.
\<close>

section \<open>The reader\<close>

type_synonym log_bytes = "8 word list"

record log_format =
  kBlockSize :: nat
  kHeaderSize :: nat
  kZeroType :: "32 word"
  kFullType :: "32 word"
  kFirstType :: "32 word"
  kMiddleType :: "32 word"
  kLastType :: "32 word"
  kEof :: "32 word"
  kBadRecord :: "32 word"
  expected_crc :: "log_bytes \<Rightarrow> 32 word"
  crc_Value :: "log_bytes \<Rightarrow> 32 word"

datatype log_status = Log_ok | Log_corruption string | Log_error

text \<open>\<open>Read\<close> returns its status, the bytes it read and the file after it.\<close>

record 'f seq_file =
  file_Read :: "nat \<Rightarrow> 'f \<Rightarrow> log_status \<times> log_bytes \<times> 'f"
  file_Skip :: "64 word \<Rightarrow> 'f \<Rightarrow> log_status \<times> 'f"

record 'f log_reader =
  lr_file :: 'f
  has_reporter :: bool
  lr_checksum :: bool
  lr_buffer :: log_bytes
  lr_eof :: bool
  last_record_offset :: "64 word"
  end_of_buffer_offset :: "64 word"
  initial_offset :: "64 word"
  resyncing :: bool
  reported :: "(64 word \<times> log_status) list"

definition Reader :: "'f \<Rightarrow> bool \<Rightarrow> bool \<Rightarrow> 64 word \<Rightarrow> 'f log_reader" where
  "Reader file reporter checksum initial =
     \<lparr>lr_file = file, has_reporter = reporter, lr_checksum = checksum, lr_buffer = [], lr_eof = False, last_record_offset = 0,
      end_of_buffer_offset = 0, initial_offset = initial, resyncing = (initial > 0), reported = []\<rparr>"

abbreviation buffer_size :: "'f log_reader \<Rightarrow> 64 word" where
  "buffer_size r \<equiv> of_nat (length (lr_buffer r))"

definition ReportDrop :: "64 word \<Rightarrow> log_status \<Rightarrow> 'f log_reader \<Rightarrow> 'f log_reader" where
  "ReportDrop bytes reason r =
     (if has_reporter r \<and> end_of_buffer_offset r - buffer_size r - bytes \<ge> initial_offset r
      then r\<lparr>reported := (bytes, reason) # reported r\<rparr> else r)"

definition ReportCorruption :: "64 word \<Rightarrow> string \<Rightarrow> 'f log_reader \<Rightarrow> 'f log_reader" where
  "ReportCorruption bytes reason r = ReportDrop bytes (Log_corruption reason) r"

definition SkipToInitialBlock :: "log_format \<Rightarrow> 'f seq_file \<Rightarrow> 'f log_reader \<Rightarrow> bool \<times> 'f log_reader" where
  "SkipToInitialBlock lf sf r =
     (let offset_in_block = initial_offset r mod of_nat (kBlockSize lf);
          block_start_location = initial_offset r - offset_in_block;
          block_start_location =
            (if offset_in_block > of_nat (kBlockSize lf) - 6 then block_start_location + of_nat (kBlockSize lf)
             else block_start_location);
          r = r\<lparr>end_of_buffer_offset := block_start_location\<rparr>
      in if block_start_location > 0
         then let (skip_status, f) = file_Skip sf block_start_location (lr_file r);
                  r = r\<lparr>lr_file := f\<rparr>
              in if skip_status \<noteq> Log_ok then (False, ReportDrop block_start_location skip_status r) else (True, r)
         else (True, r))"

section \<open>Physical records\<close>

text \<open>
  The part of \<open>ReadPhysicalRecord\<close> after the buffer holds a header. The result is the type, the fragment and the reader; where
  the code leaves the fragment alone it is the old one. Characters are signed.
\<close>

definition parse_record :: "log_format \<Rightarrow> log_bytes \<Rightarrow> 'f log_reader \<Rightarrow> 32 word \<times> log_bytes \<times> 'f log_reader" where
  "parse_record lf fragment r =
     (let header = lr_buffer r;
          a = unat (header ! 4);
          b = unat (header ! 5);
          type = (scast (header ! 6) :: 32 word);
          len = a + b * 256
      in if kHeaderSize lf + len > length (lr_buffer r)
         then let drop_size = buffer_size r;
                  r = r\<lparr>lr_buffer := []\<rparr>
              in if \<not> lr_eof r then (kBadRecord lf, fragment, ReportCorruption drop_size ''bad record length'' r)
                 else (kEof lf, fragment, r)
         else if type = kZeroType lf \<and> len = 0 then (kBadRecord lf, fragment, r\<lparr>lr_buffer := []\<rparr>)
         else if lr_checksum r \<and> crc_Value lf (take (1 + len) (drop 6 header)) \<noteq> expected_crc lf (take 4 header)
         then let drop_size = buffer_size r
              in (kBadRecord lf, fragment, ReportCorruption drop_size ''checksum mismatch'' (r\<lparr>lr_buffer := []\<rparr>))
         else let r = r\<lparr>lr_buffer := drop (kHeaderSize lf + len) (lr_buffer r)\<rparr>
              in if end_of_buffer_offset r - buffer_size r - of_nat (kHeaderSize lf) - of_nat len < initial_offset r
                 then (kBadRecord lf, [], r)
                 else (type, take len (drop (kHeaderSize lf) header), r))"

partial_function (option) ReadPhysicalRecord ::
    "log_format \<Rightarrow> 'f seq_file \<Rightarrow> log_bytes \<Rightarrow> 'f log_reader \<Rightarrow> (32 word \<times> log_bytes \<times> 'f log_reader) option" where
  "ReadPhysicalRecord lf sf fragment r =
     (if length (lr_buffer r) < kHeaderSize lf
      then if \<not> lr_eof r
           then let (status, buf, f) = file_Read sf (kBlockSize lf) (lr_file r);
                    r = r\<lparr>lr_file := f, lr_buffer := buf, end_of_buffer_offset := end_of_buffer_offset r + of_nat (length buf)\<rparr>
                in if status \<noteq> Log_ok
                   then Some (kEof lf, fragment,
                              (ReportDrop (of_nat (kBlockSize lf)) status (r\<lparr>lr_buffer := []\<rparr>))\<lparr>lr_eof := True\<rparr>)
                   else ReadPhysicalRecord lf sf fragment (if length buf < kBlockSize lf then r\<lparr>lr_eof := True\<rparr> else r)
           else Some (kEof lf, fragment, r\<lparr>lr_buffer := []\<rparr>)
      else Some (parse_record lf fragment r))"

section \<open>Logical records\<close>

text \<open>The local variables of \<open>ReadRecord\<close> that its loop changes.\<close>

record log_locals =
  in_fragmented_record :: bool
  scratch :: log_bytes
  prospective_record_offset :: "64 word"
  lr_fragment :: log_bytes

text \<open>The outcome of one turn of the loop: go on, or return with the record.\<close>

datatype turn = Go_on | Return_false | Return_record log_bytes

definition record_turn ::
    "log_format \<Rightarrow> 32 word \<Rightarrow> log_locals \<Rightarrow> 'f log_reader \<Rightarrow> turn \<times> log_locals \<times> 'f log_reader" where
  "record_turn lf record_type l r =
     (let fragment = lr_fragment l;
          physical_record_offset =
            end_of_buffer_offset r - buffer_size r - of_nat (kHeaderSize lf) - of_nat (length fragment)
      in if resyncing r \<and> record_type = kMiddleType lf then (Go_on, l, r)
         else if resyncing r \<and> record_type = kLastType lf then (Go_on, l, r\<lparr>resyncing := False\<rparr>)
         else let r = r\<lparr>resyncing := False\<rparr>
         in if record_type = kFullType lf
            then let r = (if in_fragmented_record l \<and> scratch l \<noteq> []
                          then ReportCorruption (of_nat (length (scratch l))) ''partial record without end(1)'' r else r)
                 in (Return_record fragment, l\<lparr>prospective_record_offset := physical_record_offset, scratch := []\<rparr>,
                     r\<lparr>last_record_offset := physical_record_offset\<rparr>)
            else if record_type = kFirstType lf
            then let r = (if in_fragmented_record l \<and> scratch l \<noteq> []
                          then ReportCorruption (of_nat (length (scratch l))) ''partial record without end(2)'' r else r)
                 in (Go_on, l\<lparr>prospective_record_offset := physical_record_offset, scratch := fragment,
                              in_fragmented_record := True\<rparr>, r)
            else if record_type = kMiddleType lf
            then if \<not> in_fragmented_record l
                 then (Go_on, l, ReportCorruption (of_nat (length fragment)) ''missing start of fragmented record(1)'' r)
                 else (Go_on, l\<lparr>scratch := scratch l @ fragment\<rparr>, r)
            else if record_type = kLastType lf
            then if \<not> in_fragmented_record l
                 then (Go_on, l, ReportCorruption (of_nat (length fragment)) ''missing start of fragmented record(2)'' r)
                 else (Return_record (scratch l @ fragment), l\<lparr>scratch := scratch l @ fragment\<rparr>,
                       r\<lparr>last_record_offset := prospective_record_offset l\<rparr>)
            else if record_type = kEof lf
            then (Return_false, if in_fragmented_record l then l\<lparr>scratch := []\<rparr> else l, r)
            else if record_type = kBadRecord lf
            then if in_fragmented_record l
                 then (Go_on, l\<lparr>in_fragmented_record := False, scratch := []\<rparr>,
                       ReportCorruption (of_nat (length (scratch l))) ''error in middle of record'' r)
                 else (Go_on, l, r)
            else (Go_on, l\<lparr>in_fragmented_record := False, scratch := []\<rparr>,
                  ReportCorruption
                    (of_nat (length fragment + (if in_fragmented_record l then length (scratch l) else 0)))
                    ''unknown record type'' r))"

partial_function (option) record_loop ::
    "log_format \<Rightarrow> 'f seq_file \<Rightarrow> log_locals \<Rightarrow> 'f log_reader \<Rightarrow> (log_bytes option \<times> 'f log_reader) option" where
  "record_loop lf sf l r =
     do { (record_type, fragment, r) \<leftarrow> ReadPhysicalRecord lf sf (lr_fragment l) r;
          let (t, l, r) = record_turn lf record_type (l\<lparr>lr_fragment := fragment\<rparr>) r;
          case t of
            Go_on \<Rightarrow> record_loop lf sf l r
          | Return_false \<Rightarrow> Some (None, r)
          | Return_record rec \<Rightarrow> Some (Some rec, r) }"

text \<open>The result is the record, or \<open>None\<close> where the code returns false.\<close>

definition ReadRecord :: "log_format \<Rightarrow> 'f seq_file \<Rightarrow> 'f log_reader \<Rightarrow> (log_bytes option \<times> 'f log_reader) option" where
  "ReadRecord lf sf r =
     (let (ok, r) = (if last_record_offset r < initial_offset r then SkipToInitialBlock lf sf r else (True, r))
      in if ok
         then record_loop lf sf
                \<lparr>in_fragmented_record = False, scratch = [], prospective_record_offset = 0, lr_fragment = []\<rparr> r
         else Some (None, r))"

definition LastRecordOffset :: "'f log_reader \<Rightarrow> 64 word" where
  "LastRecordOffset r = last_record_offset r"

declare ReadPhysicalRecord.simps [code] record_loop.simps [code]

end
