(* ===== verification/Log_Reader_Spec.thy ===== *)
theory Log_Reader_Spec
  imports Log_Reader "HOL-Library.Sublist"
begin

text \<open>
  The log reader ends on every file, and reads from a log whose writer may have stopped at any byte exactly the records
  that were complete, without reporting a corruption.
\<close>

section \<open>The format\<close>

definition log_format_ok :: "log_format \<Rightarrow> bool" where
  "log_format_ok lf \<longleftrightarrow>
     kHeaderSize lf = 7 \<and> kHeaderSize lf \<le> kBlockSize lf \<and>
     distinct [kFullType lf, kFirstType lf, kMiddleType lf, kLastType lf, kEof lf, kBadRecord lf]"

lemma log_format_okD:
  assumes "log_format_ok lf"
  shows "kHeaderSize lf = 7" and "7 \<le> kBlockSize lf"
    and "kFirstType lf \<noteq> kFullType lf" and "kMiddleType lf \<noteq> kFullType lf" and "kMiddleType lf \<noteq> kFirstType lf"
    and "kLastType lf \<noteq> kFullType lf" and "kLastType lf \<noteq> kFirstType lf" and "kLastType lf \<noteq> kMiddleType lf"
    and "kEof lf \<noteq> kFullType lf" and "kEof lf \<noteq> kFirstType lf" and "kEof lf \<noteq> kMiddleType lf" and "kEof lf \<noteq> kLastType lf"
  using assms by (auto simp: log_format_ok_def)

text \<open>The bytes \<open>bs\<close> are the physical record with the type \<open>t\<close> and the payload \<open>p\<close>.\<close>

definition frames :: "log_format \<Rightarrow> bool \<Rightarrow> log_bytes \<Rightarrow> 32 word \<Rightarrow> log_bytes \<Rightarrow> bool" where
  "frames lf chk bs t p \<longleftrightarrow>
     length bs = kHeaderSize lf + length p \<and> drop (kHeaderSize lf) bs = p \<and>
     unat (bs ! 4) + unat (bs ! 5) * 256 = length p \<and> scast (bs ! 6) = t \<and> \<not> (t = kZeroType lf \<and> p = []) \<and>
     (chk \<longrightarrow> crc_Value lf (drop 6 bs) = expected_crc lf (take 4 bs))"

text \<open>
  A block holds physical records and a trailer too short for a header. The last block, marked by \<open>final\<close>, may be cut inside
  a record.
\<close>

inductive block_holds :: "log_format \<Rightarrow> bool \<Rightarrow> bool \<Rightarrow> log_bytes \<Rightarrow> (32 word \<times> log_bytes) list \<Rightarrow> bool"
  for lf chk final where
  Trailer: "length b < kHeaderSize lf \<Longrightarrow> block_holds lf chk final b []"
| Torn: "final \<Longrightarrow> kHeaderSize lf \<le> length b \<Longrightarrow> length b < kHeaderSize lf + (unat (b ! 4) + unat (b ! 5) * 256) \<Longrightarrow>
    block_holds lf chk final b []"
| Rec: "frames lf chk bs t p \<Longrightarrow> block_holds lf chk final b ps \<Longrightarrow> block_holds lf chk final (bs @ b) ((t, p) # ps)"

inductive log_blocks :: "log_format \<Rightarrow> bool \<Rightarrow> log_bytes \<Rightarrow> (32 word \<times> log_bytes) list \<Rightarrow> bool"
  for lf chk where
  Last: "length b < kBlockSize lf \<Longrightarrow> block_holds lf chk True b ps \<Longrightarrow> log_blocks lf chk b ps"
| More: "length b = kBlockSize lf \<Longrightarrow> block_holds lf chk False b ps \<Longrightarrow> log_blocks lf chk bs qs \<Longrightarrow>
    log_blocks lf chk (b @ bs) (ps @ qs)"

inductive_cases block_holds_NilE: "block_holds lf chk final b []"
inductive_cases block_holds_ConsE: "block_holds lf chk final b ((t, p) # ps)"
inductive_cases log_blocksE: "log_blocks lf chk bs ps"

text \<open>The fragments of a record.\<close>

definition cuts :: "log_format \<Rightarrow> log_bytes \<Rightarrow> (32 word \<times> log_bytes) list \<Rightarrow> bool" where
  "cuts lf d ps \<longleftrightarrow>
     ps = [(kFullType lf, d)] \<or>
     (\<exists>p ms q. ps = (kFirstType lf, p) # map (Pair (kMiddleType lf)) ms @ [(kLastType lf, q)] \<and> d = p @ concat ms @ q)"

definition torn :: "log_format \<Rightarrow> (32 word \<times> log_bytes) list \<Rightarrow> bool" where
  "torn lf ps \<longleftrightarrow> ps = [] \<or> (\<exists>p ms. ps = (kFirstType lf, p) # map (Pair (kMiddleType lf)) ms)"

section \<open>A log cut at any byte\<close>

lemma block_holds_cut:
  assumes "log_format_ok lf" and "block_holds lf chk final b ps"
  shows "\<exists>qs. block_holds lf chk True (take n b) qs \<and> prefix qs ps"
  using assms(2)
proof (induction arbitrary: n rule: block_holds.induct)
  case (Trailer b)
  then have "block_holds lf chk True (take n b) []" by (intro block_holds.Trailer) simp
  then show ?case by blast
next
  case (Torn b)
  have "block_holds lf chk True (take n b) []"
  proof (cases "min n (length b) < kHeaderSize lf")
    case True
    then show ?thesis by (intro block_holds.Trailer) simp
  next
    case False
    with log_format_okD(1) [OF assms(1)] Torn(3) show ?thesis by (intro block_holds.Torn) auto
  qed
  then show ?case by blast
next
  case (Rec bs t p b ps)
  show ?case
  proof (cases "n < length bs")
    case True
    have "block_holds lf chk True (take n bs) []"
    proof (cases "n < kHeaderSize lf")
      case True
      then show ?thesis by (intro block_holds.Trailer) simp
    next
      case False
      with True Rec(1) log_format_okD(1) [OF assms(1)] show ?thesis by (intro block_holds.Torn) (auto simp: frames_def)
    qed
    with True show ?thesis by auto
  next
    case False
    from Rec(3) [of "n - length bs"] obtain qs where "block_holds lf chk True (take (n - length bs) b) qs" "prefix qs ps" by blast
    with block_holds.Rec [OF Rec(1)] False show ?thesis by (intro exI [of _ "(t, p) # qs"]) simp
  qed
qed

lemma log_blocks_cut:
  assumes "log_format_ok lf" and "log_blocks lf chk bytes ps"
  shows "\<exists>qs. log_blocks lf chk (take n bytes) qs \<and> prefix qs ps"
  using assms(2)
proof (induction arbitrary: n rule: log_blocks.induct)
  case (Last b ps)
  from block_holds_cut [OF assms(1) Last(2), of n] obtain qs where "block_holds lf chk True (take n b) qs" "prefix qs ps" by blast
  with Last(1) show ?case by (intro exI [of _ qs]) (auto intro: log_blocks.Last)
next
  case (More b ps bs qs)
  show ?case
  proof (cases "n < length b")
    case True
    from block_holds_cut [OF assms(1) More(2), of n] obtain rs where "block_holds lf chk True (take n b) rs" "prefix rs ps" by blast
    with True More(1) show ?thesis by (intro exI [of _ rs]) (auto intro: log_blocks.Last)
  next
    case False
    from More(4) [of "n - length b"] obtain rs where "log_blocks lf chk (take (n - length b) bs) rs" "prefix rs qs" by blast
    with log_blocks.More [OF More(1,2)] False show ?thesis by (intro exI [of _ "ps @ rs"]) simp
  qed
qed

lemma cuts_prefix:
  assumes "cuts lf d ps" and "prefix qs ps" and "qs \<noteq> ps"
  shows "torn lf qs"
proof (cases qs)
  case (Cons x xs)
  from assms(1) consider "ps = [(kFullType lf, d)]"
    | p ms q where "ps = (kFirstType lf, p) # map (Pair (kMiddleType lf)) ms @ [(kLastType lf, q)]"
    by (auto simp: cuts_def)
  then show ?thesis
  proof cases
    case 1
    with assms(2,3) Cons show ?thesis by (auto simp: prefix_Cons)
  next
    case 2
    with assms(2,3) Cons have "x = (kFirstType lf, p)" "prefix xs (map (Pair (kMiddleType lf)) ms)"
      by (auto simp: prefix_snoc)
    then have "x = (kFirstType lf, p)" "xs = map (Pair (kMiddleType lf)) (take (length xs) ms)"
      by (auto simp: prefix_def take_map [symmetric])
    with Cons show ?thesis unfolding torn_def by blast
  qed
qed (simp add: torn_def)

lemma cuts_all_prefix:
  assumes "list_all2 (cuts lf) ds pss" and "prefix qs (concat pss)"
  shows "\<exists>k ts. qs = concat (take k pss) @ ts \<and> torn lf ts \<and> k \<le> length ds"
  using assms
proof (induction arbitrary: qs rule: list_all2_induct)
  case Nil
  then show ?case by (simp add: torn_def)
next
  case (Cons d ds ps pss)
  show ?case
  proof (cases "prefix ps qs")
    case True
    then obtain rs where rs: "qs = ps @ rs" by (auto simp: prefix_def)
    with Cons.prems Cons.IH [of rs] obtain k ts where "rs = concat (take k pss) @ ts" "torn lf ts" "k \<le> length ds" by auto
    with rs show ?thesis by (intro exI [of _ "Suc k"] exI [of _ ts]) simp
  next
    case False
    with Cons.prems have "prefix qs ps" "qs \<noteq> ps" by (auto simp: prefix_append)
    with cuts_prefix [OF Cons.hyps(1)] show ?thesis by (intro exI [of _ 0] exI [of _ qs]) simp
  qed
qed

section \<open>Reading physical records\<close>

text \<open>A file that holds \<open>bytes\<close> returns them in the portions asked for.\<close>

definition file_holds :: "'f seq_file \<Rightarrow> ('f \<Rightarrow> log_bytes \<Rightarrow> bool) \<Rightarrow> bool" where
  "file_holds sf holds \<longleftrightarrow>
     (\<forall>f bytes n. holds f bytes \<longrightarrow> (\<exists>f'. file_Read sf n f = (Log_ok, take n bytes, f') \<and> holds f' (drop n bytes)))"

text \<open>The physical records that are left: those in the buffer, then those in the file.\<close>

definition stream ::
    "log_format \<Rightarrow> ('f \<Rightarrow> log_bytes \<Rightarrow> bool) \<Rightarrow> 'f log_reader \<Rightarrow> (32 word \<times> log_bytes) list \<Rightarrow> bool" where
  "stream lf holds r ps \<longleftrightarrow>
     initial_offset r = 0 \<and> \<not> resyncing r \<and> reported r = [] \<and>
     (\<exists>cur qs. ps = cur @ qs \<and> block_holds lf (lr_checksum r) (lr_eof r) (lr_buffer r) cur \<and>
        (if lr_eof r then qs = [] else \<exists>bytes. holds (lr_file r) bytes \<and> log_blocks lf (lr_checksum r) bytes qs))"

lemma streamI:
  assumes "ps = cur @ qs" and "block_holds lf (lr_checksum r) (lr_eof r) (lr_buffer r) cur"
    and "lr_eof r \<Longrightarrow> qs = []" and "\<not> lr_eof r \<Longrightarrow> \<exists>bytes. holds (lr_file r) bytes \<and> log_blocks lf (lr_checksum r) bytes qs"
    and "initial_offset r = 0" and "\<not> resyncing r" and "reported r = []"
  shows "stream lf holds r ps"
  unfolding stream_def using assms by (intro conjI exI [of _ cur] exI [of _ qs]) auto

lemma parse_record_frames:
  assumes lf: "log_format_ok lf" and f: "frames lf (lr_checksum r) bs t p" and b: "lr_buffer r = bs @ b"
    and i: "initial_offset r = 0"
  shows "parse_record lf fragment r = (t, p, r\<lparr>lr_buffer := b\<rparr>)"
proof -
  have h: "kHeaderSize lf = 7" by (rule log_format_okD(1) [OF lf])
  with f have len: "length bs = 7 + length p" "drop 7 bs = p" by (auto simp: frames_def)
  then have nth: "lr_buffer r ! 4 = bs ! 4" "lr_buffer r ! 5 = bs ! 5" "lr_buffer r ! 6 = bs ! 6"
    using b by (simp_all add: nth_append)
  have "take (1 + length p) (drop 6 (lr_buffer r)) = drop 6 bs" "take 4 (lr_buffer r) = take 4 bs"
    "drop (7 + length p) (lr_buffer r) = b" "take (length p) (drop 7 (lr_buffer r)) = p"
    using b len by simp_all
  with f h nth b i len(1) show ?thesis by (auto simp: parse_record_def frames_def Let_def)
qed

lemma parse_record_torn:
  assumes "lr_eof r" and "length (lr_buffer r) < kHeaderSize lf + (unat (lr_buffer r ! 4) + unat (lr_buffer r ! 5) * 256)"
  shows "parse_record lf fragment r = (kEof lf, fragment, r\<lparr>lr_buffer := []\<rparr>)"
  using assms by (simp add: parse_record_def Let_def)

lemma block_holds_empty: "log_format_ok lf \<Longrightarrow> block_holds lf chk final [] []"
  by (rule block_holds.Trailer) (simp add: log_format_okD)

text \<open>What a call does once the buffer holds a block.\<close>

lemma ReadPhysicalRecord_buffered:
  assumes lf: "log_format_ok lf" and b: "block_holds lf (lr_checksum r) (lr_eof r) (lr_buffer r) cur"
    and i: "initial_offset r = 0" and c: "cur \<noteq> [] \<or> lr_eof r"
  shows "ReadPhysicalRecord lf sf fragment r =
    (case cur of [] \<Rightarrow> Some (kEof lf, fragment, r\<lparr>lr_buffer := []\<rparr>)
     | (t, p) # ps \<Rightarrow> Some (t, p, r\<lparr>lr_buffer := drop (kHeaderSize lf + length p) (lr_buffer r)\<rparr>)) \<and>
    (\<forall>t p ps. cur = (t, p) # ps \<longrightarrow>
      block_holds lf (lr_checksum r) (lr_eof r) (drop (kHeaderSize lf + length p) (lr_buffer r)) ps)"
proof (cases cur)
  case Nil
  with c have e: "lr_eof r" by simp
  from b [unfolded Nil] consider "length (lr_buffer r) < kHeaderSize lf"
    | "length (lr_buffer r) < kHeaderSize lf + (unat (lr_buffer r ! 4) + unat (lr_buffer r ! 5) * 256)"
    by (auto elim: block_holds_NilE)
  then show ?thesis
  proof cases
    case 1
    with Nil e show ?thesis by (subst ReadPhysicalRecord.simps) simp
  next
    case 2
    with Nil e parse_record_torn [OF e, of lf] show ?thesis by (subst ReadPhysicalRecord.simps) simp
  qed
next
  case (Cons x ps)
  obtain t p where x: "x = (t, p)" by (cases x)
  from b [unfolded Cons x] obtain bs b' where
    f: "lr_buffer r = bs @ b'" "frames lf (lr_checksum r) bs t p" "block_holds lf (lr_checksum r) (lr_eof r) b' ps"
    by (cases rule: block_holds_ConsE) auto
  then have "length bs = kHeaderSize lf + length p" by (simp add: frames_def)
  with f Cons x parse_record_frames [OF lf f(2,1) i] show ?thesis by (subst ReadPhysicalRecord.simps) simp
qed

lemma ReadPhysicalRecord_refill:
  assumes lf: "log_format_ok lf" and sf: "file_holds sf holds" and s: "stream lf holds r ps"
    and e: "\<not> lr_eof r" and small: "length (lr_buffer r) < kHeaderSize lf" 
  shows "\<exists>r'. ReadPhysicalRecord lf sf fragment r = ReadPhysicalRecord lf sf fragment r' \<and> stream lf holds r' ps \<and>
    (lr_eof r' \<or> kHeaderSize lf \<le> length (lr_buffer r'))"
proof -
  let ?rd = "\<lambda>f b. r\<lparr>lr_file := f, lr_buffer := b, end_of_buffer_offset := end_of_buffer_offset r + of_nat (length b)\<rparr>"
  have h: "kHeaderSize lf = 7" "7 \<le> kBlockSize lf" by (rule log_format_okD [OF lf])+
  from s obtain cur qs bytes where q: "ps = cur @ qs" "block_holds lf (lr_checksum r) (lr_eof r) (lr_buffer r) cur"
    "holds (lr_file r) bytes" "log_blocks lf (lr_checksum r) bytes qs" "initial_offset r = 0" "\<not> resyncing r" "reported r = []"
    using e by (auto simp: stream_def)
  have "cur = []"
  proof (rule ccontr)
    assume "cur \<noteq> []"
    then obtain t p cs where "cur = (t, p) # cs" by (metis neq_Nil_conv prod.exhaust)
    with q(2) small show False by (auto elim!: block_holds_ConsE simp: frames_def)
  qed
  with q(1) have ps: "ps = qs" by simp
  from sf q(3) obtain f where f: "file_Read sf (kBlockSize lf) (lr_file r) = (Log_ok, take (kBlockSize lf) bytes, f)"
    "holds f (drop (kBlockSize lf) bytes)" unfolding file_holds_def by blast
  from q(4) consider "length bytes < kBlockSize lf" "block_holds lf (lr_checksum r) True bytes qs"
    | b bs cs rs where "bytes = b @ bs" "qs = cs @ rs" "length b = kBlockSize lf" "block_holds lf (lr_checksum r) False b cs"
      "log_blocks lf (lr_checksum r) bs rs"
    by (auto elim: log_blocksE)
  then show ?thesis
  proof cases
    case 1
    then have "stream lf holds ((?rd f bytes)\<lparr>lr_eof := True\<rparr>) ps" using q ps by (intro streamI [where cur = qs and qs = "[]"]) auto
    moreover have "ReadPhysicalRecord lf sf fragment r = ReadPhysicalRecord lf sf fragment ((?rd f bytes)\<lparr>lr_eof := True\<rparr>)"
      using f(1) e small 1 by (subst ReadPhysicalRecord.simps) simp
    ultimately show ?thesis by (intro exI [of _ "(?rd f bytes)\<lparr>lr_eof := True\<rparr>"]) simp
  next
    case (2 b bs cs rs)
    then have "stream lf holds (?rd f b) ps" using q ps f(2) e by (intro streamI [where cur = cs and qs = rs]) auto
    moreover have "ReadPhysicalRecord lf sf fragment r = ReadPhysicalRecord lf sf fragment (?rd f b)"
      using f(1) e small 2 by (subst ReadPhysicalRecord.simps) simp
    ultimately show ?thesis using 2 h by (intro exI [of _ "?rd f b"]) simp
  qed
qed

lemma ReadPhysicalRecord_ready:
  assumes lf: "log_format_ok lf" and s: "stream lf holds r ps" and c: "lr_eof r \<or> kHeaderSize lf \<le> length (lr_buffer r)"
  shows "\<exists>r'. ReadPhysicalRecord lf sf fragment r =
      (case ps of [] \<Rightarrow> Some (kEof lf, fragment, r') | (t, p) # qs \<Rightarrow> Some (t, p, r')) \<and> stream lf holds r' (tl ps)"
proof -
  from s obtain cur qs where q: "ps = cur @ qs" "block_holds lf (lr_checksum r) (lr_eof r) (lr_buffer r) cur"
    and l: "if lr_eof r then qs = [] else \<exists>bytes. holds (lr_file r) bytes \<and> log_blocks lf (lr_checksum r) bytes qs"
    and i: "initial_offset r = 0" "\<not> resyncing r" "reported r = []" by (auto simp: stream_def)
  have "cur \<noteq> [] \<or> lr_eof r" using c q(2) by (auto elim!: block_holds_NilE)
  note rd = ReadPhysicalRecord_buffered [OF lf q(2) i(1) this, of sf fragment]
  show ?thesis
  proof (cases cur)
    case Nil
    with \<open>cur \<noteq> [] \<or> lr_eof r\<close> l q(1) have "ps = []" "lr_eof r" by auto
    moreover from this have "stream lf holds (r\<lparr>lr_buffer := []\<rparr>) []" using i block_holds_empty [OF lf] by (auto simp: stream_def)
    ultimately show ?thesis using rd Nil by (intro exI [of _ "r\<lparr>lr_buffer := []\<rparr>"]) simp
  next
    case (Cons x cs)
    obtain t p where x: "x = (t, p)" by (cases x)
    let ?r = "r\<lparr>lr_buffer := drop (kHeaderSize lf + length p) (lr_buffer r)\<rparr>"
    have "stream lf holds ?r (cs @ qs)" using rd Cons x l i by (intro streamI [where cur = cs and qs = qs]) (auto split: if_splits)
    with rd Cons x q(1) show ?thesis by (intro exI [of _ ?r]) simp
  qed
qed

lemma ReadPhysicalRecord_stream:
  assumes "log_format_ok lf" and "file_holds sf holds" and "stream lf holds r ps"
  shows "\<exists>r'. ReadPhysicalRecord lf sf fragment r =
      (case ps of [] \<Rightarrow> Some (kEof lf, fragment, r') | (t, p) # qs \<Rightarrow> Some (t, p, r')) \<and> stream lf holds r' (tl ps)"
proof (cases "lr_eof r \<or> kHeaderSize lf \<le> length (lr_buffer r)")
  case True
  then show ?thesis by (rule ReadPhysicalRecord_ready [OF assms(1,3)])
next
  case False
  then obtain r1 where "ReadPhysicalRecord lf sf fragment r = ReadPhysicalRecord lf sf fragment r1" "stream lf holds r1 ps"
    "lr_eof r1 \<or> kHeaderSize lf \<le> length (lr_buffer r1)"
    using ReadPhysicalRecord_refill [OF assms, of fragment] by auto
  with ReadPhysicalRecord_ready [OF assms(1), of holds r1 ps sf fragment] show ?thesis by simp
qed

section \<open>Reading records\<close>

lemma stream_update [simp]:
  "stream lf holds (r\<lparr>last_record_offset := x\<rparr>) ps \<longleftrightarrow> stream lf holds r ps"
  "stream lf holds (r\<lparr>resyncing := False\<rparr>) ps \<longleftrightarrow> initial_offset r = 0 \<and> stream lf holds (r\<lparr>resyncing := False\<rparr>) ps"
  by (auto simp: stream_def)

lemma streamD: "stream lf holds r ps \<Longrightarrow> \<not> resyncing r \<and> initial_offset r = 0 \<and> reported r = []"
  by (simp add: stream_def)

lemma not_resyncing: "\<not> resyncing r \<Longrightarrow> r\<lparr>resyncing := False\<rparr> = r"
  by simp

text \<open>One turn of the loop for each kind of physical record.\<close>

lemma record_loop_step:
  assumes "log_format_ok lf" and "file_holds sf holds" and "stream lf holds r ((t, p) # ps)"
  shows "\<exists>r'. stream lf holds r' ps \<and>
    record_loop lf sf l r =
      (case record_turn lf t (l\<lparr>lr_fragment := p\<rparr>) r' of
         (Go_on, l', r'') \<Rightarrow> record_loop lf sf l' r''
       | (Return_false, l', r'') \<Rightarrow> Some (None, r'')
       | (Return_record rec, l', r'') \<Rightarrow> Some (Some rec, r''))"
proof -
  from ReadPhysicalRecord_stream [OF assms, of "lr_fragment l"] obtain r' where
    r': "ReadPhysicalRecord lf sf (lr_fragment l) r = Some (t, p, r')" "stream lf holds r' ps" by auto
  then show ?thesis by (intro exI [of _ r']) (subst record_loop.simps, simp split: prod.splits turn.splits)
qed

lemma record_loop_end:
  assumes "log_format_ok lf" and "file_holds sf holds" and "stream lf holds r []"
  shows "\<exists>r'. record_loop lf sf l r = Some (None, r') \<and> stream lf holds r' []"
proof -
  from ReadPhysicalRecord_stream [OF assms, of "lr_fragment l"] obtain r' where
    r': "ReadPhysicalRecord lf sf (lr_fragment l) r = Some (kEof lf, lr_fragment l, r')" "stream lf holds r' []" by auto
  with streamD [OF r'(2)] log_format_okD [OF assms(1)] show ?thesis
    by (subst record_loop.simps) (simp add: record_turn_def Let_def not_resyncing)
qed

lemma record_loop_middles:
  assumes lf: "log_format_ok lf" and sf: "file_holds sf holds" and "in_fragmented_record l"
    and "stream lf holds r (map (Pair (kMiddleType lf)) ms @ qs)"
  shows "\<exists>l' r'. record_loop lf sf l r = record_loop lf sf l' r' \<and> in_fragmented_record l' \<and>
    scratch l' = scratch l @ concat ms \<and> stream lf holds r' qs"
  using assms(3,4)
proof (induction ms arbitrary: l r)
  case (Cons m ms)
  from record_loop_step [OF lf sf, of r "kMiddleType lf" m "map (Pair (kMiddleType lf)) ms @ qs" l] Cons.prems(2) obtain r' where
    r': "stream lf holds r' (map (Pair (kMiddleType lf)) ms @ qs)"
    "record_loop lf sf l r =
      (case record_turn lf (kMiddleType lf) (l\<lparr>lr_fragment := m\<rparr>) r' of
         (Go_on, l', r'') \<Rightarrow> record_loop lf sf l' r''
       | (Return_false, l', r'') \<Rightarrow> Some (None, r'')
       | (Return_record rec, l', r'') \<Rightarrow> Some (Some rec, r''))" by auto
  let ?l = "l\<lparr>lr_fragment := m, scratch := scratch l @ m\<rparr>"
  have "record_turn lf (kMiddleType lf) (l\<lparr>lr_fragment := m\<rparr>) r' = (Go_on, ?l, r')"
    using log_format_okD [OF lf] streamD [OF r'(1)] Cons.prems(1) by (simp add: record_turn_def Let_def not_resyncing)
  with r'(2) have "record_loop lf sf l r = record_loop lf sf ?l r'" by simp
  with Cons.IH [of ?l r'] r'(1) Cons.prems(1) show ?case by auto
qed auto

lemma record_loop_first:
  assumes lf: "log_format_ok lf" and sf: "file_holds sf holds" and "\<not> in_fragmented_record l"
    and "stream lf holds r ((kFirstType lf, p) # map (Pair (kMiddleType lf)) ms @ qs)"
  shows "\<exists>l' r'. record_loop lf sf l r = record_loop lf sf l' r' \<and> in_fragmented_record l' \<and>
    scratch l' = p @ concat ms \<and> stream lf holds r' qs"
proof -
  let ?ms = "map (Pair (kMiddleType lf)) ms @ qs"
  from record_loop_step [OF lf sf assms(4), of l] obtain r' where
    r': "stream lf holds r' ?ms"
    "record_loop lf sf l r =
      (case record_turn lf (kFirstType lf) (l\<lparr>lr_fragment := p\<rparr>) r' of
         (Go_on, l', r'') \<Rightarrow> record_loop lf sf l' r''
       | (Return_false, l', r'') \<Rightarrow> Some (None, r'')
       | (Return_record rec, l', r'') \<Rightarrow> Some (Some rec, r''))" by auto
  obtain l1 where "record_turn lf (kFirstType lf) (l\<lparr>lr_fragment := p\<rparr>) r' = (Go_on, l1, r')"
    "in_fragmented_record l1" "scratch l1 = p"
    using log_format_okD [OF lf] streamD [OF r'(1)] assms(3) by (simp add: record_turn_def Let_def not_resyncing)
  with r'(2) record_loop_middles [OF lf sf _ r'(1), of l1] show ?thesis by auto
qed

lemma record_loop_cut:
  assumes lf: "log_format_ok lf" and sf: "file_holds sf holds" and l: "\<not> in_fragmented_record l"
    and d: "cuts lf d ps" and s: "stream lf holds r (ps @ qs)"
  shows "\<exists>r'. record_loop lf sf l r = Some (Some d, r') \<and> stream lf holds r' qs"
  using d unfolding cuts_def
proof (elim disjE exE conjE)
  assume "ps = [(kFullType lf, d)]"
  with record_loop_step [OF lf sf, of r "kFullType lf" d qs l] s obtain r' where
    r': "stream lf holds r' qs"
    "record_loop lf sf l r =
      (case record_turn lf (kFullType lf) (l\<lparr>lr_fragment := d\<rparr>) r' of
         (Go_on, l', r'') \<Rightarrow> record_loop lf sf l' r''
       | (Return_false, l', r'') \<Rightarrow> Some (None, r'')
       | (Return_record rec, l', r'') \<Rightarrow> Some (Some rec, r''))" by auto
  with log_format_okD [OF lf] streamD [OF r'(1)] l show ?thesis by (simp add: record_turn_def Let_def not_resyncing)
next
  fix p ms q
  assume ps: "ps = (kFirstType lf, p) # map (Pair (kMiddleType lf)) ms @ [(kLastType lf, q)]" and dd: "d = p @ concat ms @ q"
  with record_loop_first [OF lf sf l, of r p ms "(kLastType lf, q) # qs"] s obtain l' r' where
    1: "record_loop lf sf l r = record_loop lf sf l' r'" "in_fragmented_record l'" "scratch l' = p @ concat ms"
      "stream lf holds r' ((kLastType lf, q) # qs)" by auto
  from record_loop_step [OF lf sf 1(4), of l'] obtain r2 where
    r2: "stream lf holds r2 qs"
    "record_loop lf sf l' r' =
      (case record_turn lf (kLastType lf) (l'\<lparr>lr_fragment := q\<rparr>) r2 of
         (Go_on, l', r'') \<Rightarrow> record_loop lf sf l' r''
       | (Return_false, l', r'') \<Rightarrow> Some (None, r'')
       | (Return_record rec, l', r'') \<Rightarrow> Some (Some rec, r''))" by auto
  with 1 dd log_format_okD [OF lf] streamD [OF r2(1)] show ?thesis by (simp add: record_turn_def Let_def not_resyncing)
qed

lemma record_loop_torn:
  assumes lf: "log_format_ok lf" and sf: "file_holds sf holds" and l: "\<not> in_fragmented_record l"
    and t: "torn lf ps" and s: "stream lf holds r ps"
  shows "\<exists>r'. record_loop lf sf l r = Some (None, r') \<and> stream lf holds r' []"
  using t unfolding torn_def
proof (elim disjE exE)
  fix p ms
  assume "ps = (kFirstType lf, p) # map (Pair (kMiddleType lf)) ms"
  with record_loop_first [OF lf sf l, of r p ms "[]"] s obtain l' r' where
    "record_loop lf sf l r = record_loop lf sf l' r'" "stream lf holds r' []" by auto
  with record_loop_end [OF lf sf, of r' l'] show ?thesis by simp
qed (use record_loop_end [OF lf sf] s in simp)

section \<open>A client that reads the whole log\<close>

partial_function (option) read_all :: "log_format \<Rightarrow> 'f seq_file \<Rightarrow> 'f log_reader \<Rightarrow> (log_bytes list \<times> 'f log_reader) option" where
  "read_all lf sf r =
     do { (rec, r) \<leftarrow> ReadRecord lf sf r;
          case rec of
            None \<Rightarrow> Some ([], r)
          | Some d \<Rightarrow> do { (ds, r) \<leftarrow> read_all lf sf r; Some (d # ds, r) } }"

lemma read_all_stream:
  assumes lf: "log_format_ok lf" and sf: "file_holds sf holds" and "list_all2 (cuts lf) ds pss" and "torn lf ts"
    and "stream lf holds r (concat pss @ ts)"
  shows "\<exists>r'. read_all lf sf r = Some (ds, r') \<and> reported r' = []"
  using assms(3,5)
proof (induction arbitrary: r rule: list_all2_induct)
  case Nil
  let ?l = "\<lparr>in_fragmented_record = False, scratch = [], prospective_record_offset = 0, lr_fragment = []\<rparr>"
  from record_loop_torn [OF lf sf, of ?l ts r] assms(4) Nil obtain r' where
    "record_loop lf sf ?l r = Some (None, r')" "stream lf holds r' []" by auto
  with streamD [OF Nil] streamD [of lf holds r'] show ?case
    by (subst read_all.simps) (auto simp: ReadRecord_def)
next
  case (Cons d ds ps pss)
  let ?l = "\<lparr>in_fragmented_record = False, scratch = [], prospective_record_offset = 0, lr_fragment = []\<rparr>"
  from record_loop_cut [OF lf sf, of ?l d ps r "concat pss @ ts"] Cons obtain r' where
    "record_loop lf sf ?l r = Some (Some d, r')" "stream lf holds r' (concat pss @ ts)" by auto
  with Cons.IH [of r'] streamD [OF Cons.prems] show ?case
    by (subst read_all.simps) (auto simp: ReadRecord_def)
qed

section \<open>Every file\<close>

text \<open>Of any file only this is needed: what is read or skipped is not read again.\<close>

definition file_bounded :: "'f seq_file \<Rightarrow> ('f \<Rightarrow> nat) \<Rightarrow> bool" where
  "file_bounded sf left \<longleftrightarrow>
     (\<forall>n f st bs f'. file_Read sf n f = (st, bs, f') \<longrightarrow> left f' + length bs \<le> left f) \<and>
     (\<forall>n f st f'. file_Skip sf n f = (st, f') \<longrightarrow> left f' \<le> left f)"

definition unread :: "('f \<Rightarrow> nat) \<Rightarrow> 'f log_reader \<Rightarrow> nat" where
  "unread left r = left (lr_file r) + length (lr_buffer r)"

lemma report_same [simp]:
  "lr_file (ReportDrop n st r) = lr_file r" "lr_buffer (ReportDrop n st r) = lr_buffer r"
  "lr_file (ReportCorruption n s r) = lr_file r" "lr_buffer (ReportCorruption n s r) = lr_buffer r"
  by (simp_all add: ReportCorruption_def ReportDrop_def)

lemma parse_record_shrinks:
  assumes "log_format_ok lf" and "kHeaderSize lf \<le> length (lr_buffer r)" and "parse_record lf fragment r = (t, p, r')"
  shows "unread left r' < unread left r"
proof -
  have "kHeaderSize lf = 7" by (rule log_format_okD(1) [OF assms(1)])
  with assms(2,3) show ?thesis by (auto simp: parse_record_def Let_def unread_def split: if_splits)
qed

lemma ReadPhysicalRecord_ready_shrinks:
  assumes "log_format_ok lf" and "lr_eof r \<or> kHeaderSize lf \<le> length (lr_buffer r)"
  shows "\<exists>t p r'. ReadPhysicalRecord lf sf fragment r = Some (t, p, r') \<and> (t = kEof lf \<or> unread left r' < unread left r)"
proof (cases "kHeaderSize lf \<le> length (lr_buffer r)")
  case True
  obtain t p r' where "parse_record lf fragment r = (t, p, r')" by (metis prod.exhaust)
  with True parse_record_shrinks [OF assms(1) True this] show ?thesis by (subst ReadPhysicalRecord.simps) simp
next
  case False
  with assms(2) show ?thesis by (subst ReadPhysicalRecord.simps) simp
qed

lemma ReadPhysicalRecord_returns:
  assumes lf: "log_format_ok lf" and sf: "file_bounded sf left"
  shows "\<exists>t p r'. ReadPhysicalRecord lf sf fragment r = Some (t, p, r') \<and> (t = kEof lf \<or> unread left r' < unread left r)"
proof (cases "lr_eof r \<or> kHeaderSize lf \<le> length (lr_buffer r)")
  case True
  then show ?thesis by (rule ReadPhysicalRecord_ready_shrinks [OF lf])
next
  case False
  obtain st buf f where rd: "file_Read sf (kBlockSize lf) (lr_file r) = (st, buf, f)" by (metis prod.exhaust)
  show ?thesis
  proof (cases "st = Log_ok")
    case True
    let ?r = "r\<lparr>lr_file := f, lr_buffer := buf, end_of_buffer_offset := end_of_buffer_offset r + of_nat (length buf)\<rparr>"
    let ?r' = "if length buf < kBlockSize lf then ?r\<lparr>lr_eof := True\<rparr> else ?r"
    have "ReadPhysicalRecord lf sf fragment r = ReadPhysicalRecord lf sf fragment ?r'"
      using False True rd by (subst ReadPhysicalRecord.simps) simp
    moreover have "lr_eof ?r' \<or> kHeaderSize lf \<le> length (lr_buffer ?r')" using log_format_okD(1,2) [OF lf] by auto
    moreover have "left f + length buf \<le> left (lr_file r)" using sf rd by (auto simp: file_bounded_def)
    then have "unread left ?r' \<le> unread left r" by (auto simp: unread_def)
    ultimately show ?thesis using ReadPhysicalRecord_ready_shrinks [OF lf, of ?r' sf fragment left] by force
  next
    case e: False
    with False rd show ?thesis by (subst ReadPhysicalRecord.simps) auto
  qed
qed

lemma record_turn_unread:
  assumes "record_turn lf t l r = (x, l', r')"
  shows "unread left r' = unread left r"
  using assms by (auto simp: record_turn_def Let_def unread_def split: if_splits)

lemma record_turn_eof:
  assumes "log_format_ok lf"
  shows "\<exists>l' r'. record_turn lf (kEof lf) l r = (Return_false, l', r')"
  using log_format_okD [OF assms] by (simp add: record_turn_def Let_def)

lemma record_loop_returns:
  assumes lf: "log_format_ok lf" and sf: "file_bounded sf left"
  shows "\<exists>rec r'. record_loop lf sf l r = Some (rec, r') \<and> (rec = None \<or> unread left r' < unread left r)"
proof (induction "unread left r" arbitrary: l r rule: less_induct)
  case less
  from ReadPhysicalRecord_returns [OF lf sf, of "lr_fragment l" r] obtain t p r1 where
    rd: "ReadPhysicalRecord lf sf (lr_fragment l) r = Some (t, p, r1)" "t = kEof lf \<or> unread left r1 < unread left r" by blast
  obtain x l2 r2 where t: "record_turn lf t (l\<lparr>lr_fragment := p\<rparr>) r1 = (x, l2, r2)" by (metis prod.exhaust)
  show ?case
  proof (cases "t = kEof lf")
    case True
    with rd(1) t record_turn_eof [OF lf, of "l\<lparr>lr_fragment := p\<rparr>" r1] show ?thesis by (subst record_loop.simps) auto
  next
    case False
    with rd(2) record_turn_unread [OF t, of left] have less2: "unread left r2 < unread left r" by simp
    from less.hyps [OF less2, of l2] obtain rec r3 where
      "record_loop lf sf l2 r2 = Some (rec, r3)" "rec = None \<or> unread left r3 < unread left r2" by blast
    with rd(1) t less2 show ?thesis by (subst record_loop.simps) (auto split: turn.splits)
  qed
qed

lemma SkipToInitialBlock_unread:
  assumes "file_bounded sf left" and "SkipToInitialBlock lf sf r = (ok, r')"
  shows "unread left r' \<le> unread left r"
  using assms by (auto simp: SkipToInitialBlock_def Let_def unread_def file_bounded_def split: if_splits prod.splits)

lemma ReadRecord_returns:
  assumes lf: "log_format_ok lf" and sf: "file_bounded sf left"
  shows "\<exists>rec r'. ReadRecord lf sf r = Some (rec, r') \<and> (rec = None \<or> unread left r' < unread left r)"
proof -
  obtain ok r1 where s: "(if last_record_offset r < initial_offset r then SkipToInitialBlock lf sf r else (True, r)) = (ok, r1)"
    by (metis prod.exhaust)
  then have "unread left r1 \<le> unread left r" using SkipToInitialBlock_unread [OF sf, of lf r] by (auto split: if_splits)
  with s record_loop_returns [OF lf sf, of
      "\<lparr>in_fragmented_record = False, scratch = [], prospective_record_offset = 0, lr_fragment = []\<rparr>" r1] show ?thesis
    by (auto simp: ReadRecord_def)
qed

section \<open>A concrete format\<close>

definition sample_format :: log_format where
  "sample_format =
     \<lparr>kBlockSize = 12, kHeaderSize = 7, kZeroType = 0, kFullType = 1, kFirstType = 2, kMiddleType = 3, kLastType = 4, kEof = 5,
      kBadRecord = 6, expected_crc = (\<lambda>bs. foldr (\<lambda>b n. ucast b + 256 * n) bs 0),
      crc_Value = (\<lambda>bs. sum_list (map ucast bs))\<rparr>"

definition list_file :: "log_bytes seq_file" where
  "list_file = \<lparr>file_Read = (\<lambda>n f. (Log_ok, take n f, drop n f)), file_Skip = (\<lambda>n f. (Log_ok, drop (unat n) f))\<rparr>"

text \<open>One record of six bytes, cut at the end of the first block.\<close>

definition sample_log :: log_bytes where
  "sample_log = [37, 0, 0, 0, 5, 0, 2, 5, 6, 7, 8, 9] @ [14, 0, 0, 0, 1, 0, 4, 10]"

lemma sample_format_ok: "log_format_ok sample_format" by (simp add: log_format_ok_def sample_format_def)

lemma list_file_holds: "file_holds list_file (=)" by (simp add: file_holds_def list_file_def)

lemma list_file_bounded: "file_bounded list_file length" by (auto simp: file_bounded_def list_file_def)

lemma sample_log_blocks: "log_blocks sample_format True sample_log ([(2, [5, 6, 7, 8, 9])] @ [(4, [10])])"
proof -
  have "frames sample_format True [37, 0, 0, 0, 5, 0, 2, 5, 6, 7, 8, 9] 2 [5, 6, 7, 8, 9]"
    "frames sample_format True [14, 0, 0, 0, 1, 0, 4, 10] 4 [10]" by (simp_all add: frames_def sample_format_def)
  then have "block_holds sample_format True False ([37, 0, 0, 0, 5, 0, 2, 5, 6, 7, 8, 9] @ []) [(2, [5, 6, 7, 8, 9])]"
    "block_holds sample_format True True ([14, 0, 0, 0, 1, 0, 4, 10] @ []) [(4, [10])]"
    by (intro block_holds.Rec block_holds_empty [OF sample_format_ok]; simp)+
  then show ?thesis
    unfolding sample_log_def by (intro log_blocks.More log_blocks.Last) (simp_all add: sample_format_def)
qed

section \<open>Properties\<close>

text \<open>
  C11: On any file, whatever bytes it holds and whatever errors its reads return, a client that reads until there are no more
  records ends, from every state of the reader: each call returns, and each record uses up bytes of the file.
\<close>

theorem log_reader_returns:
  assumes "log_format_ok lf" and "file_bounded sf left"
  shows "\<exists>ds r'. read_all lf sf r = Some (ds, r') \<and> length ds \<le> left (lr_file r) + length (lr_buffer r)"
proof (induction "unread left r" arbitrary: r rule: less_induct)
  case less
  from ReadRecord_returns [OF assms, of r] obtain rec r1 where
    rd: "ReadRecord lf sf r = Some (rec, r1)" "rec = None \<or> unread left r1 < unread left r" by blast
  show ?case
  proof (cases rec)
    case None
    with rd(1) show ?thesis by (subst read_all.simps) simp
  next
    case (Some d)
    with rd(2) have lt: "unread left r1 < unread left r" by simp
    from less.hyps [OF lt] obtain ds r2 where "read_all lf sf r1 = Some (ds, r2)" "length ds \<le> unread left r1"
      by (auto simp: unread_def)
    with Some rd(1) lt show ?thesis by (subst read_all.simps) (auto simp: unread_def)
  qed
qed

theorem log_reader_returns_witness:
  "\<exists>ds r'. read_all sample_format list_file (Reader [7, 200, 1, 9, 255, 255, 5, 5, 0, 0, 0, 1, 0, 3, 9] True True 3) = Some (ds, r')"
  using log_reader_returns [OF sample_format_ok list_file_bounded] by blast

text \<open>
  C10: Take the log of any records, cut into fragments and blocks in any way the format allows, and let its writer stop after
  any number of bytes, in the middle of a block, a header or a fragment. The reader returns the first of the records, in order,
  without a corruption report; it returns all of them if no byte is missing.
\<close>

theorem log_survives_crash:
  assumes "log_format_ok lf" and "file_holds sf holds" and "list_all2 (cuts lf) ds pss"
    and "log_blocks lf chk bytes (concat pss)" and "holds f (take n bytes)"
  shows "\<exists>k r'. read_all lf sf (Reader f True chk 0) = Some (take k ds, r') \<and> reported r' = [] \<and>
    (length bytes \<le> n \<longrightarrow> take k ds = ds)"
proof -
  let ?r = "Reader f True chk 0"
  have start: "stream lf holds ?r ps" if "log_blocks lf chk (take n bytes) ps" for ps
    using that assms(5) block_holds_empty [OF assms(1)] by (intro streamI [where cur = "[]" and qs = ps]) (auto simp: Reader_def)
  show ?thesis
  proof (cases "length bytes \<le> n")
    case True
    with assms(4) have "stream lf holds ?r (concat pss @ [])" by (auto intro: start)
    moreover have "torn lf []" by (simp add: torn_def)
    ultimately show ?thesis using read_all_stream [OF assms(1-3), of "[]" ?r] by (auto intro: exI [of _ "length ds"])
  next
    case False
    from log_blocks_cut [OF assms(1,4), of n] obtain qs where q: "log_blocks lf chk (take n bytes) qs" "prefix qs (concat pss)"
      by blast
    from cuts_all_prefix [OF assms(3) q(2)] obtain k ts where
      k: "qs = concat (take k pss) @ ts" "torn lf ts" by blast
    have "list_all2 (cuts lf) (take k ds) (take k pss)" by (rule list_all2_takeI [OF assms(3)])
    from read_all_stream [OF assms(1,2) this k(2), of ?r] start [OF q(1)] k(1) False show ?thesis by blast
  qed
qed

theorem log_survives_crash_witness:
  "\<exists>r'. read_all sample_format list_file (Reader sample_log True True 0) = Some ([[5, 6, 7, 8, 9, 10]], r') \<and> reported r' = []"
proof -
  let ?ps = "[(2, [5, 6, 7, 8, 9]), (4, [10])] :: (32 word \<times> log_bytes) list"
  have "list_all2 (cuts sample_format) [[5, 6, 7, 8, 9, 10]] [?ps]"
    by (auto simp: cuts_def sample_format_def intro!: exI [of _ "[5, 6, 7, 8, 9]"] exI [of _ "[]"] exI [of _ "[10]"])
  moreover have "log_blocks sample_format True sample_log (concat [?ps])" using sample_log_blocks by simp
  ultimately show ?thesis
    using log_survives_crash [OF sample_format_ok list_file_holds, of "[[5, 6, 7, 8, 9, 10]]" "[?ps]" True sample_log sample_log 20]
    by (auto simp: sample_log_def)
qed

end
