(* ===== verification/Version_Files.thy ===== *)
theory Version_Files
  imports Iterators Internal_Keys
begin

text \<open>
  The files of a leveldb version (\<open>db/version_set.cc\<close>): the searches over a level, the iterator over a level's files, the
  lookup of a key, the statistics of seeks and the files that overlap a range.

  The comparators, \<open>AppendInternalKey\<close> and the fixed-width coding are not part of the sources and form the record
  \<open>vset_env\<close>; the table cache is an argument of the lookup. \<open>None\<close> is a failed assertion, undefined behaviour or a loop
  that does not end. A pointer to a \<open>FileMetaData\<close> is the record of the fields that never change, with its address; the
  field \<open>allowed_seeks\<close>, which changes, is in a store by address.
\<close>

section \<open>Versions\<close>

record vset_env =
  vs_coding :: coding
  vs_append :: "ParsedInternalKey \<Rightarrow> bytes"
  vs_ucmp :: "bytes \<Rightarrow> bytes \<Rightarrow> int"
  vs_icmp :: "bytes \<Rightarrow> bytes \<Rightarrow> int"
  max_file_size :: "64 word"

record FileRef = FileMetaData +
  file_addr :: nat

text \<open>\<open>score_exceeds\<close> is \<open>compaction_score_ >= 1\<close>, the only use of that number.\<close>

record Version =
  level_files :: "nat \<Rightarrow> FileRef list"
  file_to_compact :: "FileRef option"
  file_to_compact_level :: int
  score_exceeds :: bool
  compaction_level :: int

definition kMaxMemCompactLevel :: nat where "kMaxMemCompactLevel = 2"

definition encoded :: "InternalKey \<Rightarrow> bytes option" where
  "encoded k = (case InternalKey_Encode k of Inl _ \<Rightarrow> None | Inr b \<Rightarrow> Some b)"

definition icompare :: "vset_env \<Rightarrow> InternalKey \<Rightarrow> InternalKey \<Rightarrow> int option" where
  "icompare env a b = (case InternalKey_Compare (vs_icmp env) a b of Inl _ \<Rightarrow> None | Inr r \<Rightarrow> Some r)"

text \<open>A filter whose test may fail.\<close>

primrec filter_option :: "('a \<Rightarrow> bool option) \<Rightarrow> 'a list \<Rightarrow> 'a list option" where
  "filter_option p [] = Some []"
| "filter_option p (x # xs) = do { b \<leftarrow> p x; ys \<leftarrow> filter_option p xs; Some (if b then x # ys else ys) }"

section \<open>Sizes\<close>

definition TargetFileSize :: "vset_env \<Rightarrow> 64 word" where
  "TargetFileSize env = max_file_size env"

definition MaxGrandParentOverlapBytes :: "vset_env \<Rightarrow> 64 word" where
  "MaxGrandParentOverlapBytes env = 10 * TargetFileSize env"

definition ExpandedCompactionByteSizeLimit :: "vset_env \<Rightarrow> 64 word" where
  "ExpandedCompactionByteSizeLimit env = 25 * TargetFileSize env"

definition MaxFileSizeForLevel :: "vset_env \<Rightarrow> nat \<Rightarrow> 64 word" where
  "MaxFileSizeForLevel env level = TargetFileSize env"

definition TotalFileSize :: "FileRef list \<Rightarrow> 64 word" where
  "TotalFileSize files = fold (\<lambda>f sum. sum + file_size f) files 0"

section \<open>Searching a level\<close>

partial_function (option) find_file_loop :: "vset_env \<Rightarrow> FileRef list \<Rightarrow> bytes \<Rightarrow> nat \<Rightarrow> nat \<Rightarrow> nat option" where
  "find_file_loop env files key left right =
     (if left < right
      then let mid = (left + right) mod 2 ^ 32 div 2
           in if mid < length files
              then do {
                l \<leftarrow> encoded (largest (files ! mid));
                if vs_icmp env l key < 0 then find_file_loop env files key ((mid + 1) mod 2 ^ 32) right
                else find_file_loop env files key left mid
              }
              else None
      else Some right)"

definition FindFile :: "vset_env \<Rightarrow> FileRef list \<Rightarrow> bytes \<Rightarrow> nat option" where
  "FindFile env files key = find_file_loop env files key 0 (length files mod 2 ^ 32)"

definition AfterFile :: "vset_env \<Rightarrow> bytes option \<Rightarrow> FileRef \<Rightarrow> bool option" where
  "AfterFile env key f =
     (case key of
        None \<Rightarrow> Some False
      | Some u \<Rightarrow> do { l \<leftarrow> user_key_of (largest f); Some (0 < vs_ucmp env u l) })"

definition BeforeFile :: "vset_env \<Rightarrow> bytes option \<Rightarrow> FileRef \<Rightarrow> bool option" where
  "BeforeFile env key f =
     (case key of
        None \<Rightarrow> Some False
      | Some u \<Rightarrow> do { s \<leftarrow> user_key_of (smallest f); Some (vs_ucmp env u s < 0) })"

primrec some_overlap :: "vset_env \<Rightarrow> bytes option \<Rightarrow> bytes option \<Rightarrow> FileRef list \<Rightarrow> bool option" where
  "some_overlap env lo hi [] = Some False"
| "some_overlap env lo hi (f # fs) = do {
     a \<leftarrow> AfterFile env lo f;
     b \<leftarrow> (if a then Some True else BeforeFile env hi f);
     if b then some_overlap env lo hi fs else Some True
   }"

definition SomeFileOverlapsRange ::
    "vset_env \<Rightarrow> bool \<Rightarrow> FileRef list \<Rightarrow> bytes option \<Rightarrow> bytes option \<Rightarrow> bool option" where
  "SomeFileOverlapsRange env disjoint_sorted_files files smallest_user_key largest_user_key =
     (if \<not> disjoint_sorted_files then some_overlap env smallest_user_key largest_user_key files
      else do {
        index \<leftarrow> (case smallest_user_key of
                    None \<Rightarrow> Some 0
                  | Some u \<Rightarrow> do {
                      small_key \<leftarrow> encoded (InternalKey_make (vs_append env) u kMaxSequenceNumber kValueTypeForSeek);
                      FindFile env files small_key });
        if length files \<le> index then Some False
        else do { b \<leftarrow> BeforeFile env largest_user_key (files ! index); Some (\<not> b) }
      })"

section \<open>The iterator over the files of a level\<close>

record LevelFileNumIterator =
  flist :: "FileRef list"
  index :: nat

definition LevelFileNumIterator_new :: "FileRef list \<Rightarrow> LevelFileNumIterator" where
  "LevelFileNumIterator_new fs = \<lparr>flist = fs, index = length fs mod 2 ^ 32\<rparr>"

definition level_Valid :: "LevelFileNumIterator \<Rightarrow> bool" where
  "level_Valid it \<longleftrightarrow> index it < length (flist it)"

definition level_Seek :: "vset_env \<Rightarrow> bytes \<Rightarrow> LevelFileNumIterator \<Rightarrow> LevelFileNumIterator option" where
  "level_Seek env target it = do { i \<leftarrow> FindFile env (flist it) target; Some (it\<lparr>index := i\<rparr>) }"

definition level_SeekToFirst :: "LevelFileNumIterator \<Rightarrow> LevelFileNumIterator option" where
  "level_SeekToFirst it = Some (it\<lparr>index := 0\<rparr>)"

definition level_SeekToLast :: "LevelFileNumIterator \<Rightarrow> LevelFileNumIterator option" where
  "level_SeekToLast it = Some (it\<lparr>index := if flist it = [] then 0 else (length (flist it) - 1) mod 2 ^ 32\<rparr>)"

definition level_Next :: "LevelFileNumIterator \<Rightarrow> LevelFileNumIterator option" where
  "level_Next it = (if level_Valid it then Some (it\<lparr>index := (index it + 1) mod 2 ^ 32\<rparr>) else None)"

definition level_Prev :: "LevelFileNumIterator \<Rightarrow> LevelFileNumIterator option" where
  "level_Prev it =
     (if level_Valid it
      then Some (it\<lparr>index := if index it = 0 then length (flist it) mod 2 ^ 32 else index it - 1\<rparr>)
      else None)"

definition level_key :: "LevelFileNumIterator \<Rightarrow> bytes option" where
  "level_key it = (if level_Valid it then encoded (largest (flist it ! index it)) else None)"

definition level_value :: "vset_env \<Rightarrow> LevelFileNumIterator \<Rightarrow> bytes option" where
  "level_value env it =
     (if level_Valid it
      then let f = flist it ! index it
           in Some (PutFixed64 (vs_coding env) (number f) @ PutFixed64 (vs_coding env) (file_size f))
      else None)"

definition level_ops :: "vset_env \<Rightarrow> (LevelFileNumIterator, bytes, bytes) iter_ops" where
  "level_ops env =
     \<lparr>iValid = level_Valid, iKey = level_key, iValue = level_value env, iNext = level_Next, iPrev = level_Prev,
      iSeek = level_Seek env, iSeekToFirst = level_SeekToFirst, iSeekToLast = level_SeekToLast\<rparr>"

section \<open>Looking up a key\<close>

text \<open>
  The table cache, by file number and file size: the error it returns, or else the one entry it hands to the callback, if
  any.
\<close>

type_synonym 'e table_cache = "64 word \<Rightarrow> 64 word \<Rightarrow> bytes \<Rightarrow> 'e + (bytes \<times> bytes) option"

datatype SaverState = kNotFound | kFound | kDeleted | kCorrupt

text \<open>The state of the saver and the value it assigned.\<close>

definition SaveValue :: "vset_env \<Rightarrow> bytes \<Rightarrow> bytes \<Rightarrow> bytes \<Rightarrow> SaverState \<times> bytes \<Rightarrow> SaverState \<times> bytes" where
  "SaveValue env ukey ikey v s =
     (case ParseInternalKey (vs_coding env) ikey of
        (True, Some parsed_key) \<Rightarrow>
          if vs_ucmp env (user_key parsed_key) ukey = 0
          then if ptype parsed_key = kTypeValue then (kFound, v) else (kDeleted, snd s)
          else s
      | _ \<Rightarrow> (kCorrupt, snd s))"

definition NewestFirst :: "FileRef \<Rightarrow> FileRef \<Rightarrow> bool" where
  "NewestFirst a b \<longleftrightarrow> number b < number a"

text \<open>\<open>std::sort\<close> with \<open>NewestFirst\<close>.\<close>

definition sort_newest :: "FileRef list \<Rightarrow> FileRef list" where
  "sort_newest fs = foldr (\<lambda>f sorted. takeWhile (\<lambda>g. NewestFirst g f) sorted @ f # dropWhile (\<lambda>g. NewestFirst g f) sorted) fs []"

definition covers :: "vset_env \<Rightarrow> bytes \<Rightarrow> FileRef \<Rightarrow> bool option" where
  "covers env u f = do {
     s \<leftarrow> user_key_of (smallest f);
     if 0 \<le> vs_ucmp env u s then do { l \<leftarrow> user_key_of (largest f); Some (vs_ucmp env u l \<le> 0) } else Some False
   }"

text \<open>The files of a level to search for a key, newest first.\<close>

definition files_to_search :: "vset_env \<Rightarrow> Version \<Rightarrow> bytes \<Rightarrow> bytes \<Rightarrow> nat \<Rightarrow> FileRef list option" where
  "files_to_search env v ukey ikey level =
     (let files = level_files v level
      in if files = [] then Some []
         else if level = 0 then do { tmp \<leftarrow> filter_option (covers env ukey) files; Some (sort_newest tmp) }
         else do {
           i \<leftarrow> FindFile env files ikey;
           if length files \<le> i then Some []
           else do { s \<leftarrow> user_key_of (smallest (files ! i)); Some (if vs_ucmp env ukey s < 0 then [] else [files ! i]) }
         })"

record GetStats =
  seek_file :: "FileRef option"
  seek_file_level :: int

record get_state =
  get_stats :: GetStats
  last_file_read :: "(FileRef \<times> nat) option"

datatype 'e get_result = Get_found bytes | Get_not_found | Get_corruption bytes | Get_error 'e

text \<open>A second read charges the first file.\<close>

definition charge_seek :: "get_state \<Rightarrow> get_state" where
  "charge_seek st =
     (case (last_file_read st, seek_file (get_stats st)) of
        (Some (f, level), None) \<Rightarrow> st\<lparr>get_stats := \<lparr>seek_file = Some f, seek_file_level = int level\<rparr>\<rparr>
      | _ \<Rightarrow> st)"

definition read_file ::
    "vset_env \<Rightarrow> 'e table_cache \<Rightarrow> bytes \<Rightarrow> bytes \<Rightarrow> nat \<Rightarrow> FileRef \<Rightarrow> get_state \<Rightarrow> 'e get_result option \<times> get_state" where
  "read_file env tables ukey ikey level f st =
     (let st' = (charge_seek st)\<lparr>last_file_read := Some (f, level)\<rparr>
      in case tables (number f) (file_size f) ikey of
           Inl e \<Rightarrow> (Some (Get_error e), st')
         | Inr call \<Rightarrow>
             (let (state, v) = (case call of None \<Rightarrow> (kNotFound, []) | Some (k, v) \<Rightarrow> SaveValue env ukey k v (kNotFound, []))
              in (case state of
                    kNotFound \<Rightarrow> None
                  | kFound \<Rightarrow> Some (Get_found v)
                  | kDeleted \<Rightarrow> Some Get_not_found
                  | kCorrupt \<Rightarrow> Some (Get_corruption ukey), st')))"

primrec read_files ::
    "vset_env \<Rightarrow> 'e table_cache \<Rightarrow> bytes \<Rightarrow> bytes \<Rightarrow> nat \<Rightarrow> FileRef list \<Rightarrow> get_state \<Rightarrow> 'e get_result option \<times> get_state" where
  "read_files env tables ukey ikey level [] st = (None, st)"
| "read_files env tables ukey ikey level (f # fs) st =
     (case read_file env tables ukey ikey level f st of
        (Some r, st') \<Rightarrow> (Some r, st')
      | (None, st') \<Rightarrow> read_files env tables ukey ikey level fs st')"

primrec get_levels ::
    "vset_env \<Rightarrow> 'e table_cache \<Rightarrow> Version \<Rightarrow> bytes \<Rightarrow> bytes \<Rightarrow> nat list \<Rightarrow> get_state \<Rightarrow> ('e get_result \<times> get_state) option" where
  "get_levels env tables v ukey ikey [] st = Some (Get_not_found, st)"
| "get_levels env tables v ukey ikey (level # ls) st = do {
     fs \<leftarrow> files_to_search env v ukey ikey level;
     (case read_files env tables ukey ikey level fs st of
        (Some r, st') \<Rightarrow> Some (r, st')
      | (None, st') \<Rightarrow> get_levels env tables v ukey ikey ls st')
   }"

definition no_stats :: GetStats where
  "no_stats = \<lparr>seek_file = None, seek_file_level = -1\<rparr>"

text \<open>\<open>ikey\<close> is the internal key of the \<open>LookupKey\<close>.\<close>

definition Version_Get ::
    "vset_env \<Rightarrow> 'e table_cache \<Rightarrow> Version \<Rightarrow> bytes \<Rightarrow> ('e get_result \<times> GetStats) option" where
  "Version_Get env tables v ikey = do {
     u \<leftarrow> user_key_of ikey;
     (r, st) \<leftarrow> get_levels env tables v u ikey [0..<nat kNumLevels] \<lparr>get_stats = no_stats, last_file_read = None\<rparr>;
     Some (r, get_stats st)
   }"

section \<open>Statistics of seeks\<close>

text \<open>The callback returns whether to go on.\<close>

primrec visit_files :: "(nat \<Rightarrow> FileRef \<Rightarrow> 's \<Rightarrow> bool \<times> 's) \<Rightarrow> nat \<Rightarrow> FileRef list \<Rightarrow> 's \<Rightarrow> bool \<times> 's" where
  "visit_files func level [] s = (True, s)"
| "visit_files func level (f # fs) s =
     (case func level f s of (go, s') \<Rightarrow> if go then visit_files func level fs s' else (False, s'))"

primrec visit_levels ::
    "vset_env \<Rightarrow> Version \<Rightarrow> bytes \<Rightarrow> bytes \<Rightarrow> (nat \<Rightarrow> FileRef \<Rightarrow> 's \<Rightarrow> bool \<times> 's) \<Rightarrow> nat list \<Rightarrow> 's \<Rightarrow> 's option" where
  "visit_levels env v ukey ikey func [] s = Some s"
| "visit_levels env v ukey ikey func (level # ls) s = do {
     fs \<leftarrow> files_to_search env v ukey ikey level;
     (case visit_files func level fs s of
        (go, s') \<Rightarrow> if go then visit_levels env v ukey ikey func ls s' else Some s')
   }"

definition ForEachOverlapping ::
    "vset_env \<Rightarrow> Version \<Rightarrow> bytes \<Rightarrow> bytes \<Rightarrow> (nat \<Rightarrow> FileRef \<Rightarrow> 's \<Rightarrow> bool \<times> 's) \<Rightarrow> 's \<Rightarrow> 's option" where
  "ForEachOverlapping env v ukey ikey func s = visit_levels env v ukey ikey func [0..<nat kNumLevels] s"

type_synonym seeks = "nat \<Rightarrow> int"

text \<open>The counter of a file is a 32-bit signed integer.\<close>

definition UpdateStats :: "GetStats \<Rightarrow> Version \<Rightarrow> seeks \<Rightarrow> (bool \<times> Version \<times> seeks) option" where
  "UpdateStats stats v allowed_seeks =
     (case seek_file stats of
        None \<Rightarrow> Some (False, v, allowed_seeks)
      | Some f \<Rightarrow>
          if allowed_seeks (file_addr f) = - (2 ^ 31) then None
          else let allowed = allowed_seeks(file_addr f := allowed_seeks (file_addr f) - 1)
               in if allowed (file_addr f) \<le> 0 \<and> file_to_compact v = None
                  then Some (True, v\<lparr>file_to_compact := Some f, file_to_compact_level := seek_file_level stats\<rparr>, allowed)
                  else Some (False, v, allowed))"

record match_state =
  match_stats :: GetStats
  matches :: nat

definition Match :: "nat \<Rightarrow> FileRef \<Rightarrow> match_state \<Rightarrow> bool \<times> match_state" where
  "Match level f state =
     (let n = matches state + 1;
          state' = state\<lparr>matches := n\<rparr>;
          state'' = (if n = 1 then state'\<lparr>match_stats := \<lparr>seek_file = Some f, seek_file_level = int level\<rparr>\<rparr> else state')
      in (n < 2, state''))"

definition RecordReadSample :: "vset_env \<Rightarrow> bytes \<Rightarrow> Version \<Rightarrow> seeks \<Rightarrow> (bool \<times> Version \<times> seeks) option" where
  "RecordReadSample env internal_key v allowed_seeks =
     (case ParseInternalKey (vs_coding env) internal_key of
        (True, Some ikey) \<Rightarrow> do {
          state \<leftarrow> ForEachOverlapping env v (user_key ikey) internal_key Match \<lparr>match_stats = no_stats, matches = 0\<rparr>;
          if 2 \<le> matches state then UpdateStats (match_stats state) v allowed_seeks
          else Some (False, v, allowed_seeks) }
      | _ \<Rightarrow> Some (False, v, allowed_seeks))"

section \<open>Overlapping files\<close>

definition OverlapInLevel :: "vset_env \<Rightarrow> Version \<Rightarrow> nat \<Rightarrow> bytes option \<Rightarrow> bytes option \<Rightarrow> bool option" where
  "OverlapInLevel env v level lo hi = SomeFileOverlapsRange env (0 < level) (level_files v level) lo hi"

text \<open>\<open>None\<close> as a bound is a null pointer. At level 0 a file that expands the range restarts the search.\<close>

partial_function (option) overlapping_loop ::
    "vset_env \<Rightarrow> nat \<Rightarrow> FileRef list \<Rightarrow> bytes option \<Rightarrow> bytes option \<Rightarrow> nat \<Rightarrow> FileRef list \<Rightarrow> FileRef list option" where
  "overlapping_loop env level files user_begin user_end i inputs =
     (if i < length files
      then do {
        file_start \<leftarrow> user_key_of (smallest (files ! i));
        file_limit \<leftarrow> user_key_of (largest (files ! i));
        if (case user_begin of None \<Rightarrow> False | Some b \<Rightarrow> vs_ucmp env file_limit b < 0)
        then overlapping_loop env level files user_begin user_end (i + 1) inputs
        else if (case user_end of None \<Rightarrow> False | Some e \<Rightarrow> 0 < vs_ucmp env file_start e)
        then overlapping_loop env level files user_begin user_end (i + 1) inputs
        else if level = 0 \<and> (case user_begin of None \<Rightarrow> False | Some b \<Rightarrow> vs_ucmp env file_start b < 0)
        then overlapping_loop env level files (Some file_start) user_end 0 []
        else if level = 0 \<and> (case user_end of None \<Rightarrow> False | Some e \<Rightarrow> 0 < vs_ucmp env file_limit e)
        then overlapping_loop env level files user_begin (Some file_limit) 0 []
        else overlapping_loop env level files user_begin user_end (i + 1) (inputs @ [files ! i])
      }
      else Some inputs)"

definition user_bound :: "InternalKey option \<Rightarrow> bytes option option" where
  "user_bound k = (case k of None \<Rightarrow> Some None | Some k \<Rightarrow> do { u \<leftarrow> user_key_of k; Some (Some u) })"

definition GetOverlappingInputs ::
    "vset_env \<Rightarrow> Version \<Rightarrow> nat \<Rightarrow> InternalKey option \<Rightarrow> InternalKey option \<Rightarrow> FileRef list option" where
  "GetOverlappingInputs env v level begin_key end_key =
     (if int level < kNumLevels
      then do {
        user_begin \<leftarrow> user_bound begin_key;
        user_end \<leftarrow> user_bound end_key;
        overlapping_loop env level (level_files v level) user_begin user_end 0 []
      }
      else None)"

function pick_level :: "vset_env \<Rightarrow> Version \<Rightarrow> bytes \<Rightarrow> bytes \<Rightarrow> InternalKey \<Rightarrow> InternalKey \<Rightarrow> nat \<Rightarrow> nat option" where
  "pick_level env v lo hi start limit level =
     (if level < kMaxMemCompactLevel
      then do {
        b \<leftarrow> OverlapInLevel env v (level + 1) (Some lo) (Some hi);
        if b then Some level
        else if int (level + 2) < kNumLevels
        then do {
          overlaps \<leftarrow> GetOverlappingInputs env v (level + 2) (Some start) (Some limit);
          if sint (MaxGrandParentOverlapBytes env) < sint (TotalFileSize overlaps) then Some level
          else pick_level env v lo hi start limit (level + 1)
        }
        else pick_level env v lo hi start limit (level + 1)
      }
      else Some level)"
  by pat_completeness auto

termination pick_level
  by (relation "measure (\<lambda>(_, _, _, _, _, _, level). kMaxMemCompactLevel - level)") auto

definition PickLevelForMemTableOutput :: "vset_env \<Rightarrow> Version \<Rightarrow> bytes \<Rightarrow> bytes \<Rightarrow> nat option" where
  "PickLevelForMemTableOutput env v smallest_user_key largest_user_key = do {
     b \<leftarrow> OverlapInLevel env v 0 (Some smallest_user_key) (Some largest_user_key);
     if b then Some 0
     else pick_level env v smallest_user_key largest_user_key
       (InternalKey_make (vs_append env) smallest_user_key kMaxSequenceNumber kValueTypeForSeek)
       (InternalKey_make (vs_append env) largest_user_key 0 (value_type_of 0)) 0
   }"

end
