(* ===== verification/Compaction.thy ===== *)
theory Compaction
  imports Version_Files
begin

text \<open>
  Choosing and running a compaction (\<open>db/version_set.cc\<close>, \<open>DBImpl::DoCompactionWork\<close> of \<open>db/db_impl.cc\<close>): the input files
  of two neighbouring levels, the boundary files that must go along, and the loop that copies the entries of the inputs to
  the outputs and drops those that no snapshot needs. The merging iterator over the inputs and the table builder are not
  part of the sources or are input and output: the loop runs over the list of the merged entries, and the size of a table
  under construction is a function of its entries.
\<close>

section \<open>Compactions\<close>

record Compaction =
  c_level :: nat
  max_output_file_size :: "64 word"
  input_version :: "Version option"
  c_edit :: VersionEdit
  inputs0 :: "FileRef list"
  inputs1 :: "FileRef list"
  grandparents :: "FileRef list"
  grandparent_index :: nat
  seen_key :: bool
  overlapped_bytes :: "64 word"
  level_ptrs :: "nat \<Rightarrow> nat"

definition empty_edit :: VersionEdit where
  "empty_edit =
     \<lparr>comparator_name = [], log_number = 0, prev_log_number = 0, next_file_number = 0, last_sequence = 0, has_comparator = False,
      has_log_number = False, has_prev_log_number = False, has_next_file_number = False, has_last_sequence = False,
      compact_pointers = [], deleted_files = [], new_files = []\<rparr>"

definition Compaction_new :: "vset_env \<Rightarrow> nat \<Rightarrow> Compaction" where
  "Compaction_new env level =
     \<lparr>c_level = level, max_output_file_size = MaxFileSizeForLevel env level, input_version = None, c_edit = empty_edit,
      inputs0 = [], inputs1 = [], grandparents = [], grandparent_index = 0, seen_key = False, overlapped_bytes = 0,
      level_ptrs = (\<lambda>_. 0)\<rparr>"

text \<open>\<open>current_refs\<close> is the reference count of the current version.\<close>

record VersionSet =
  current :: Version
  current_refs :: int
  compact_pointer :: "nat \<Rightarrow> bytes"

definition Version_Ref :: "VersionSet \<Rightarrow> VersionSet" where
  "Version_Ref vs = vs\<lparr>current_refs := current_refs vs + 1\<rparr>"

section \<open>Ranges and boundary files\<close>

primrec get_range_loop ::
    "vset_env \<Rightarrow> FileRef list \<Rightarrow> InternalKey \<Rightarrow> InternalKey \<Rightarrow> (InternalKey \<times> InternalKey) option" where
  "get_range_loop env [] lo hi = Some (lo, hi)"
| "get_range_loop env (f # fs) lo hi = do {
     a \<leftarrow> icompare env (smallest f) lo;
     b \<leftarrow> icompare env (largest f) hi;
     get_range_loop env fs (if a < 0 then smallest f else lo) (if 0 < b then largest f else hi)
   }"

definition GetRange :: "vset_env \<Rightarrow> FileRef list \<Rightarrow> (InternalKey \<times> InternalKey) option" where
  "GetRange env inputs =
     (case inputs of [] \<Rightarrow> None | f # fs \<Rightarrow> get_range_loop env fs (smallest f) (largest f))"

definition GetRange2 :: "vset_env \<Rightarrow> FileRef list \<Rightarrow> FileRef list \<Rightarrow> (InternalKey \<times> InternalKey) option" where
  "GetRange2 env in1 in2 = GetRange env (in1 @ in2)"

primrec largest_key_loop :: "vset_env \<Rightarrow> FileRef list \<Rightarrow> InternalKey \<Rightarrow> InternalKey option" where
  "largest_key_loop env [] k = Some k"
| "largest_key_loop env (f # fs) k = do {
     a \<leftarrow> icompare env (largest f) k;
     largest_key_loop env fs (if 0 < a then largest f else k)
   }"

text \<open>The inner \<open>None\<close> is the result false.\<close>

definition FindLargestKey :: "vset_env \<Rightarrow> FileRef list \<Rightarrow> InternalKey option option" where
  "FindLargestKey env files =
     (case files of [] \<Rightarrow> Some None | f # fs \<Rightarrow> do { k \<leftarrow> largest_key_loop env fs (largest f); Some (Some k) })"

primrec boundary_loop :: "vset_env \<Rightarrow> InternalKey \<Rightarrow> FileRef list \<Rightarrow> FileRef option \<Rightarrow> FileRef option option" where
  "boundary_loop env largest_key [] best = Some best"
| "boundary_loop env largest_key (f # fs) best = do {
     a \<leftarrow> icompare env (smallest f) largest_key;
     candidate \<leftarrow> (if 0 < a
       then do { s \<leftarrow> user_key_of (smallest f); l \<leftarrow> user_key_of largest_key; Some (vs_ucmp env s l = 0) }
       else Some False);
     best' \<leftarrow> (if candidate
       then (case best of
               None \<Rightarrow> Some (Some f)
             | Some b \<Rightarrow> do { r \<leftarrow> icompare env (smallest f) (smallest b); Some (if r < 0 then Some f else best) })
       else Some best);
     boundary_loop env largest_key fs best'
   }"

definition FindSmallestBoundaryFile :: "vset_env \<Rightarrow> FileRef list \<Rightarrow> InternalKey \<Rightarrow> FileRef option option" where
  "FindSmallestBoundaryFile env files largest_key = boundary_loop env largest_key files None"

partial_function (option) add_boundary_loop ::
    "vset_env \<Rightarrow> FileRef list \<Rightarrow> InternalKey \<Rightarrow> FileRef list \<Rightarrow> FileRef list option" where
  "add_boundary_loop env files largest_key compaction_files = do {
     b \<leftarrow> FindSmallestBoundaryFile env files largest_key;
     (case b of
        Some f \<Rightarrow> add_boundary_loop env files (largest f) (compaction_files @ [f])
      | None \<Rightarrow> Some compaction_files)
   }"

definition AddBoundaryInputs :: "vset_env \<Rightarrow> FileRef list \<Rightarrow> FileRef list \<Rightarrow> FileRef list option" where
  "AddBoundaryInputs env files compaction_files = do {
     k \<leftarrow> FindLargestKey env compaction_files;
     (case k of None \<Rightarrow> Some compaction_files | Some largest_key \<Rightarrow> add_boundary_loop env files largest_key compaction_files)
   }"

section \<open>The inputs of a compaction\<close>

text \<open>A sum of 64-bit signed integers, and whether it is below a bound; an overflow is undefined.\<close>

definition sum_below :: "64 word \<Rightarrow> 64 word \<Rightarrow> 64 word \<Rightarrow> bool option" where
  "sum_below a b bound =
     (if - (2 ^ 63) \<le> sint a + sint b \<and> sint a + sint b < 2 ^ 63 then Some (sint a + sint b < sint bound) else None)"

text \<open>
  The growth of the inputs: the ranges after it, with the inputs of both levels. The arguments are the inputs and the range of
  those of \<open>level\<close> before it.
\<close>

definition expand_inputs ::
    "vset_env \<Rightarrow> Version \<Rightarrow> nat \<Rightarrow> FileRef list \<Rightarrow> FileRef list \<Rightarrow> InternalKey \<Rightarrow> InternalKey \<times> InternalKey \<Rightarrow>
     (FileRef list \<times> FileRef list \<times> InternalKey \<times> (InternalKey \<times> InternalKey)) option" where
  "expand_inputs env v level in0 in1 hi all =
     (if in1 \<noteq> []
      then do {
        overlap0 \<leftarrow> GetOverlappingInputs env v level (Some (fst all)) (Some (snd all));
        expanded0 \<leftarrow> AddBoundaryInputs env (level_files v level) overlap0;
        small \<leftarrow> (if length in0 < length expanded0
                   then sum_below (TotalFileSize in1) (TotalFileSize expanded0) (ExpandedCompactionByteSizeLimit env)
                   else Some False);
        if small
        then do {
          (new_start, new_limit) \<leftarrow> GetRange env expanded0;
          expanded1 \<leftarrow> GetOverlappingInputs env v (level + 1) (Some new_start) (Some new_limit);
          if length expanded1 = length in1
          then do { all' \<leftarrow> GetRange2 env expanded0 expanded1; Some (expanded0, expanded1, new_limit, all') }
          else Some (in0, in1, hi, all)
        }
        else Some (in0, in1, hi, all)
      }
      else Some (in0, in1, hi, all))"

definition SetupOtherInputs :: "vset_env \<Rightarrow> VersionSet \<Rightarrow> Compaction \<Rightarrow> (VersionSet \<times> Compaction) option" where
  "SetupOtherInputs env vs c = do {
     let level = c_level c;
     in0 \<leftarrow> AddBoundaryInputs env (level_files (current vs) level) (inputs0 c);
     (lo, hi) \<leftarrow> GetRange env in0;
     in1 \<leftarrow> GetOverlappingInputs env (current vs) (level + 1) (Some lo) (Some hi);
     all \<leftarrow> GetRange2 env in0 in1;
     (in0', in1', hi', all') \<leftarrow> expand_inputs env (current vs) level in0 in1 hi all;
     gps \<leftarrow> (if int (level + 2) < kNumLevels
             then GetOverlappingInputs env (current vs) (level + 2) (Some (fst all')) (Some (snd all'))
             else Some (grandparents c));
     pointer \<leftarrow> encoded hi';
     Some (vs\<lparr>compact_pointer := (compact_pointer vs)(level := pointer)\<rparr>,
           c\<lparr>inputs0 := in0', inputs1 := in1', grandparents := gps,
             c_edit := (c_edit c)\<lparr>compact_pointers := compact_pointers (c_edit c) @ [(int level, hi')]\<rparr>\<rparr>)
   }"

section \<open>Choosing a compaction\<close>

text \<open>The first file that comes after the compaction pointer.\<close>

primrec first_after :: "vset_env \<Rightarrow> bytes \<Rightarrow> FileRef list \<Rightarrow> FileRef option option" where
  "first_after env pointer [] = Some None"
| "first_after env pointer (f # fs) =
     (if pointer = [] then Some (Some f)
      else do { l \<leftarrow> encoded (largest f); if 0 < vs_icmp env l pointer then Some (Some f) else first_after env pointer fs })"

text \<open>The level and the first input file, if there is a reason to compact.\<close>

definition pick_first_input :: "vset_env \<Rightarrow> VersionSet \<Rightarrow> (nat \<times> FileRef) option option" where
  "pick_first_input env vs =
     (let v = current vs
      in if score_exceeds v
         then if 0 \<le> compaction_level v \<and> compaction_level v + 1 < kNumLevels
              then let level = nat (compaction_level v)
                   in do {
                     f \<leftarrow> first_after env (compact_pointer vs level) (level_files v level);
                     (case f of
                        Some f \<Rightarrow> Some (Some (level, f))
                      | None \<Rightarrow> if level_files v level = [] then None else Some (Some (level, hd (level_files v level))))
                   }
              else None
         else (case file_to_compact v of
                 Some f \<Rightarrow> if 0 \<le> file_to_compact_level v then Some (Some (nat (file_to_compact_level v), f)) else None
               | None \<Rightarrow> Some None))"

text \<open>At level 0 the files connected with the chosen one.\<close>

definition first_inputs :: "vset_env \<Rightarrow> VersionSet \<Rightarrow> nat \<Rightarrow> FileRef \<Rightarrow> FileRef list option" where
  "first_inputs env vs level f =
     (if level = 0
      then do {
        (lo, hi) \<leftarrow> GetRange env [f];
        fs \<leftarrow> GetOverlappingInputs env (current vs) 0 (Some lo) (Some hi);
        if fs \<noteq> [] then Some fs else None
      }
      else Some [f])"

text \<open>The inner \<open>None\<close> is the null pointer.\<close>

definition PickCompaction :: "vset_env \<Rightarrow> VersionSet \<Rightarrow> (VersionSet \<times> Compaction option) option" where
  "PickCompaction env vs = do {
     pick \<leftarrow> pick_first_input env vs;
     (case pick of
        None \<Rightarrow> Some (vs, None)
      | Some (level, f) \<Rightarrow> do {
          in0 \<leftarrow> first_inputs env vs level f;
          (vs', c) \<leftarrow> SetupOtherInputs env (Version_Ref vs)
            ((Compaction_new env level)\<lparr>inputs0 := in0, input_version := Some (current vs)\<rparr>);
          Some (vs', Some c)
        })
   }"

text \<open>The files up to the first at which the total size reaches the limit.\<close>

primrec limit_inputs :: "64 word \<Rightarrow> 64 word \<Rightarrow> FileRef list \<Rightarrow> FileRef list" where
  "limit_inputs limit total_size [] = []"
| "limit_inputs limit total_size (f # fs) =
     (let total_size' = total_size + file_size f in if limit \<le> total_size' then [f] else f # limit_inputs limit total_size' fs)"

definition CompactRange ::
    "vset_env \<Rightarrow> VersionSet \<Rightarrow> nat \<Rightarrow> InternalKey option \<Rightarrow> InternalKey option \<Rightarrow> (VersionSet \<times> Compaction option) option" where
  "CompactRange env vs level begin_key end_key = do {
     inputs \<leftarrow> GetOverlappingInputs env (current vs) level begin_key end_key;
     if inputs = [] then Some (vs, None)
     else do {
       let in0 = (if 0 < level then limit_inputs (MaxFileSizeForLevel env level) 0 inputs else inputs);
       (vs', c) \<leftarrow> SetupOtherInputs env (Version_Ref vs)
         ((Compaction_new env level)\<lparr>inputs0 := in0, input_version := Some (current vs)\<rparr>);
       Some (vs', Some c)
     }
   }"

definition IsTrivialMove :: "vset_env \<Rightarrow> Compaction \<Rightarrow> bool" where
  "IsTrivialMove env c \<longleftrightarrow>
     length (inputs0 c) = 1 \<and> length (inputs1 c) = 0 \<and>
     sint (TotalFileSize (grandparents c)) \<le> sint (MaxGrandParentOverlapBytes env)"

definition AddInputDeletions :: "Compaction \<Rightarrow> VersionEdit \<Rightarrow> VersionEdit" where
  "AddInputDeletions c edit =
     fold (\<lambda>f e. e\<lparr>deleted_files := insort_insert (int (c_level c) + 1, number f) (deleted_files e)\<rparr>) (inputs1 c)
       (fold (\<lambda>f e. e\<lparr>deleted_files := insort_insert (int (c_level c), number f) (deleted_files e)\<rparr>) (inputs0 c) edit)"

section \<open>Running a compaction\<close>

text \<open>The files from a position on: the position where the scan stops, and whether the file there covers the key.\<close>

primrec advance_ptr :: "vset_env \<Rightarrow> bytes \<Rightarrow> nat \<Rightarrow> FileRef list \<Rightarrow> (nat \<times> bool) option" where
  "advance_ptr env u i [] = Some (i, False)"
| "advance_ptr env u i (f # fs) = do {
     l \<leftarrow> user_key_of (largest f);
     if vs_ucmp env u l \<le> 0 then do { s \<leftarrow> user_key_of (smallest f); Some (i, 0 \<le> vs_ucmp env u s) }
     else advance_ptr env u (i + 1) fs
   }"

primrec base_levels ::
    "vset_env \<Rightarrow> Version \<Rightarrow> bytes \<Rightarrow> nat list \<Rightarrow> (nat \<Rightarrow> nat) \<Rightarrow> (bool \<times> (nat \<Rightarrow> nat)) option" where
  "base_levels env v u [] ptrs = Some (True, ptrs)"
| "base_levels env v u (lvl # ls) ptrs = do {
     (i, covered) \<leftarrow> advance_ptr env u (ptrs lvl) (drop (ptrs lvl) (level_files v lvl));
     if covered then Some (False, ptrs(lvl := i)) else base_levels env v u ls (ptrs(lvl := i))
   }"

definition IsBaseLevelForKey :: "vset_env \<Rightarrow> bytes \<Rightarrow> Compaction \<Rightarrow> (bool \<times> Compaction) option" where
  "IsBaseLevelForKey env u c = do {
     v \<leftarrow> input_version c;
     (b, ptrs) \<leftarrow> base_levels env v u [c_level c + 2..<nat kNumLevels] (level_ptrs c);
     Some (b, c\<lparr>level_ptrs := ptrs\<rparr>)
   }"

primrec skip_grandparents ::
    "vset_env \<Rightarrow> bytes \<Rightarrow> bool \<Rightarrow> nat \<Rightarrow> 64 word \<Rightarrow> FileRef list \<Rightarrow> (nat \<times> 64 word) option" where
  "skip_grandparents env key seen i total_size [] = Some (i, total_size)"
| "skip_grandparents env key seen i total_size (g # gs) = do {
     l \<leftarrow> encoded (largest g);
     if 0 < vs_icmp env key l
     then skip_grandparents env key seen (i + 1) (if seen then total_size + file_size g else total_size) gs
     else Some (i, total_size)
   }"

definition ShouldStopBefore :: "vset_env \<Rightarrow> bytes \<Rightarrow> Compaction \<Rightarrow> (bool \<times> Compaction) option" where
  "ShouldStopBefore env internal_key c = do {
     (i, total_size) \<leftarrow> skip_grandparents env internal_key (seen_key c) (grandparent_index c) (overlapped_bytes c)
       (drop (grandparent_index c) (grandparents c));
     let stop = (sint (MaxGrandParentOverlapBytes env) < sint total_size);
     Some (stop, c\<lparr>grandparent_index := i, seen_key := True, overlapped_bytes := (if stop then 0 else total_size)\<rparr>)
   }"

text \<open>
  \<open>outputs\<close> are the entries of the finished tables, \<open>builder\<close> those of the table under construction; \<open>current_user_key\<close> is
  \<open>None\<close> where \<open>has_current_user_key\<close> is false.
\<close>

record CompactionState =
  compaction :: Compaction
  outputs :: "(bytes \<times> bytes) list list"
  builder :: "(bytes \<times> bytes) list option"
  current_user_key :: "bytes option"
  last_sequence_for_key :: "64 word"

definition FinishCompactionOutputFile :: "CompactionState \<Rightarrow> CompactionState" where
  "FinishCompactionOutputFile st =
     (case builder st of None \<Rightarrow> st | Some es \<Rightarrow> st\<lparr>outputs := outputs st @ [es], builder := None\<rparr>)"

definition drop_key :: "vset_env \<Rightarrow> 64 word \<Rightarrow> bytes \<Rightarrow> CompactionState \<Rightarrow> (bool \<times> CompactionState) option" where
  "drop_key env smallest_snapshot key st =
     (case ParseInternalKey (vs_coding env) key of
        (True, Some ikey) \<Rightarrow>
          (let first = (case current_user_key st of None \<Rightarrow> True | Some k \<Rightarrow> vs_ucmp env (user_key ikey) k \<noteq> 0);
               last_sequence = (if first then kMaxSequenceNumber else last_sequence_for_key st);
               st' = st\<lparr>current_user_key := (if first then Some (user_key ikey) else current_user_key st),
                        last_sequence_for_key := sequence ikey\<rparr>
           in if last_sequence \<le> smallest_snapshot then Some (True, st')
              else if ptype ikey = kTypeDeletion \<and> sequence ikey \<le> smallest_snapshot
              then do {
                (base, c) \<leftarrow> IsBaseLevelForKey env (user_key ikey) (compaction st);
                Some (base, st'\<lparr>compaction := c\<rparr>)
              }
              else Some (False, st'))
      | _ \<Rightarrow> Some (False, st\<lparr>current_user_key := None, last_sequence_for_key := kMaxSequenceNumber\<rparr>))"

definition add_output :: "((bytes \<times> bytes) list \<Rightarrow> 64 word) \<Rightarrow> bytes \<times> bytes \<Rightarrow> CompactionState \<Rightarrow> CompactionState" where
  "add_output file_size_of e st =
     (let es = (case builder st of None \<Rightarrow> [] | Some es \<Rightarrow> es) @ [e];
          st' = st\<lparr>builder := Some es\<rparr>
      in if max_output_file_size (compaction st) \<le> file_size_of es then FinishCompactionOutputFile st' else st')"

definition compact_entry ::
    "vset_env \<Rightarrow> ((bytes \<times> bytes) list \<Rightarrow> 64 word) \<Rightarrow> 64 word \<Rightarrow> bytes \<times> bytes \<Rightarrow> CompactionState \<Rightarrow> CompactionState option" where
  "compact_entry env file_size_of smallest_snapshot e st = do {
     (stop, c) \<leftarrow> ShouldStopBefore env (fst e) (compaction st);
     let st1 = st\<lparr>compaction := c\<rparr>;
     let st2 = (if stop then FinishCompactionOutputFile st1 else st1);
     (drop, st3) \<leftarrow> drop_key env smallest_snapshot (fst e) st2;
     Some (if drop then st3 else add_output file_size_of e st3)
   }"

primrec compact_entries ::
    "vset_env \<Rightarrow> ((bytes \<times> bytes) list \<Rightarrow> 64 word) \<Rightarrow> 64 word \<Rightarrow> (bytes \<times> bytes) list \<Rightarrow> CompactionState \<Rightarrow> CompactionState option" where
  "compact_entries env file_size_of smallest_snapshot [] st = Some st"
| "compact_entries env file_size_of smallest_snapshot (e # es) st = do {
     st' \<leftarrow> compact_entry env file_size_of smallest_snapshot e st;
     compact_entries env file_size_of smallest_snapshot es st'
   }"

text \<open>The tables that a compaction writes, with the compaction after it.\<close>

definition DoCompactionWork ::
    "vset_env \<Rightarrow> ((bytes \<times> bytes) list \<Rightarrow> 64 word) \<Rightarrow> 64 word \<Rightarrow> (bytes \<times> bytes) list \<Rightarrow> Compaction \<Rightarrow>
     ((bytes \<times> bytes) list list \<times> Compaction) option" where
  "DoCompactionWork env file_size_of smallest_snapshot input c = do {
     st \<leftarrow> compact_entries env file_size_of smallest_snapshot input
       \<lparr>compaction = c, outputs = [], builder = None, current_user_key = None, last_sequence_for_key = kMaxSequenceNumber\<rparr>;
     let st' = FinishCompactionOutputFile st;
     Some (outputs st', compaction st')
   }"

end
