(* ===== verification/Version_Files_Spec.thy ===== *)
theory Version_Files_Spec
  imports Version_Files
begin

text \<open>
  The searches over the files of a level: the binary search finds the first file that may hold a key, the overlap test by
  binary search is the test by a scan, the iterator over a level's files fulfils the iterator contract, and the
  overlapping inputs are the files connected with the range.
\<close>

section \<open>Files in order\<close>

definition vset_laws :: "vset_env \<Rightarrow> bool" where
  "vset_laws env \<longleftrightarrow> key_laws (vs_coding env) (vs_append env) (vs_ucmp env) (vs_icmp env)"

abbreviation ulo :: "vset_env \<Rightarrow> FileRef \<Rightarrow> bytes" where
  "ulo env f \<equiv> user_key (parsed (vs_coding env) (smallest f))"

abbreviation uhi :: "vset_env \<Rightarrow> FileRef \<Rightarrow> bytes" where
  "uhi env f \<equiv> user_key (parsed (vs_coding env) (largest f))"

definition file_ok :: "vset_env \<Rightarrow> FileRef \<Rightarrow> bool" where
  "file_ok env f \<longleftrightarrow>
     parses (vs_coding env) (smallest f) \<and> parses (vs_coding env) (largest f) \<and> vs_icmp env (smallest f) (largest f) \<le> 0"

text \<open>The files of a level above 0: sorted and disjoint as internal keys.\<close>

definition level_sorted :: "vset_env \<Rightarrow> FileRef list \<Rightarrow> bool" where
  "level_sorted env fs \<longleftrightarrow>
     (\<forall>f\<in>set fs. file_ok env f) \<and> sorted_wrt (\<lambda>f g. vs_icmp env (largest f) (smallest g) < 0) fs"

text \<open>The user keys of a file and a range have a point in common; an absent bound is infinite.\<close>

definition overlaps :: "vset_env \<Rightarrow> bytes option \<Rightarrow> bytes option \<Rightarrow> FileRef \<Rightarrow> bool" where
  "overlaps env lo hi f \<longleftrightarrow>
     (case lo of None \<Rightarrow> True | Some u \<Rightarrow> vs_ucmp env u (uhi env f) \<le> 0) \<and>
     (case hi of None \<Rightarrow> True | Some u \<Rightarrow> vs_ucmp env (ulo env f) u \<le> 0)"

lemma encoded_ok: "k \<noteq> [] \<Longrightarrow> encoded k = Some k"
  by (simp add: encoded_def InternalKey_Encode_def)

lemma file_ok_keys:
  assumes "file_ok env f"
  shows "encoded (largest f) = Some (largest f)" and "encoded (smallest f) = Some (smallest f)"
    and "user_key_of (largest f) = Some (uhi env f)" and "user_key_of (smallest f) = Some (ulo env f)"
  using assms by (auto simp: file_ok_def intro!: encoded_ok parses_user_key dest: parses_nonempty)

locale vset =
  fixes env :: vset_env
  assumes laws: "vset_laws env"
begin

abbreviation icmp :: "bytes \<Rightarrow> bytes \<Rightarrow> int" where "icmp \<equiv> vs_icmp env"
abbreviation ucmp :: "bytes \<Rightarrow> bytes \<Rightarrow> int" where "ucmp \<equiv> vs_ucmp env"
abbreviation pk :: "bytes \<Rightarrow> ParsedInternalKey" where "pk \<equiv> parsed (vs_coding env)"

end

sublocale vset \<subseteq> internal_keys "vs_coding env" "vs_append env" "vs_ucmp env" "vs_icmp env"
  by unfold_locales (use laws in \<open>simp add: vset_laws_def\<close>)

context vset
begin

lemma sorted_nth:
  assumes "level_sorted env fs" and "i < j" and "j < length fs"
  shows "icmp (largest (fs ! i)) (smallest (fs ! j)) < 0"
  using assms by (auto simp: level_sorted_def sorted_wrt_iff_nth_less)

lemma sorted_ok: "level_sorted env fs \<Longrightarrow> i < length fs \<Longrightarrow> file_ok env (fs ! i)"
  by (simp add: level_sorted_def)

lemma sorted_largest:
  assumes "level_sorted env fs" and "i \<le> j" and "j < length fs"
  shows "icmp (largest (fs ! i)) (largest (fs ! j)) \<le> 0"
proof (cases "i = j")
  case False
  with assms have "icmp (largest (fs ! i)) (smallest (fs ! j)) < 0" by (intro sorted_nth) auto
  with sorted_ok [OF assms(1,3)] i.cmp_trans [of "largest (fs ! i)" "smallest (fs ! j)" "largest (fs ! j)"] show ?thesis
    by (simp add: file_ok_def)
qed (simp add: i.cmp_refl)

lemma below_down:
  assumes "level_sorted env fs" and "i \<le> j" and "j < length fs" and "icmp (largest (fs ! j)) key < 0"
  shows "icmp (largest (fs ! i)) key < 0"
  using i.cmp_le_less_trans sorted_largest [OF assms(1-3)] assms(4) by blast

definition first_at_or_after :: "FileRef list \<Rightarrow> bytes \<Rightarrow> nat" where
  "first_at_or_after fs key = length (takeWhile (\<lambda>f. icmp (largest f) key < 0) fs)"

lemma first_iff:
  assumes "level_sorted env fs" and "i < length fs"
  shows "icmp (largest (fs ! i)) key < 0 \<longleftrightarrow> i < first_at_or_after fs key"
  unfolding first_at_or_after_def
  by (rule length_takeWhile_iff [where P = "\<lambda>f. icmp (largest f) key < 0"]) (use below_down [OF assms(1)] assms(2) in auto)

lemma first_le: "first_at_or_after fs key \<le> length fs"
  by (simp add: first_at_or_after_def length_takeWhile_le)

lemma find_file_loop_first:
  assumes "level_sorted env fs" and "length fs < 2 ^ 31"
  shows "left \<le> first_at_or_after fs key \<Longrightarrow> first_at_or_after fs key \<le> right \<Longrightarrow> right \<le> length fs \<Longrightarrow>
    find_file_loop env fs key left right = Some (first_at_or_after fs key)"
proof (induction "right - left" arbitrary: left right rule: less_induct)
  case less
  show ?case
  proof (cases "left < right")
    case True
    define mid where "mid = (left + right) div 2"
    have m: "left \<le> mid" "mid < right" "mid < length fs" using True less.prems by (auto simp: mid_def)
    have w: "(left + right) mod 2 ^ 32 div 2 = mid" "(mid + 1) mod 2 ^ 32 = mid + 1"
      using less.prems m assms(2) by (auto simp: mid_def)
    show ?thesis
    proof (cases "icmp (largest (fs ! mid)) key < 0")
      case below: True
      with first_iff [OF assms(1) m(3)] have "mid + 1 \<le> first_at_or_after fs key" by simp
      with less.hyps [of right "mid + 1"] less.prems m True below w file_ok_keys(1) [OF sorted_ok [OF assms(1) m(3)]]
      show ?thesis by (subst find_file_loop.simps) (simp add: Let_def)
    next
      case above: False
      with first_iff [OF assms(1) m(3)] have "first_at_or_after fs key \<le> mid" by simp
      with less.hyps [of mid left] less.prems m True above w file_ok_keys(1) [OF sorted_ok [OF assms(1) m(3)]]
      show ?thesis by (subst find_file_loop.simps) (simp add: Let_def)
    qed
  qed (use less.prems in \<open>simp add: find_file_loop.simps\<close>)
qed

lemma FindFile_first:
  assumes "level_sorted env fs" and "length fs < 2 ^ 31"
  shows "FindFile env fs key = Some (first_at_or_after fs key)"
proof -
  have "length fs mod 2 ^ 32 = length fs" using assms(2) by simp
  with find_file_loop_first [OF assms, of 0 key "length fs"] first_le show ?thesis by (simp add: FindFile_def)
qed

section \<open>The overlap test\<close>

lemma AfterFile_overlaps: "file_ok env f \<Longrightarrow> AfterFile env lo f = Some (case lo of None \<Rightarrow> False | Some u \<Rightarrow> \<not> ucmp u (uhi env f) \<le> 0)"
  using file_ok_keys(3) [of env f] by (cases lo) (simp_all add: AfterFile_def not_le)

lemma BeforeFile_overlaps: "file_ok env f \<Longrightarrow> BeforeFile env hi f = Some (case hi of None \<Rightarrow> False | Some u \<Rightarrow> \<not> ucmp (ulo env f) u \<le> 0)"
  using file_ok_keys(4) [of env f] u.cmp_swap by (cases hi) (simp_all add: BeforeFile_def not_le)

lemma some_overlap_iff:
  "\<forall>f\<in>set fs. file_ok env f \<Longrightarrow> some_overlap env lo hi fs = Some (\<exists>f\<in>set fs. overlaps env lo hi f)"
  by (induction fs) (auto simp: AfterFile_overlaps BeforeFile_overlaps overlaps_def split: option.splits)

text \<open>A file's user keys are in order.\<close>

lemma file_user_le: "file_ok env f \<Longrightarrow> ucmp (ulo env f) (uhi env f) \<le> 0"
  by (auto simp: file_ok_def intro: user_le)

lemma sorted_user_smallest:
  assumes "level_sorted env fs" and "i \<le> j" and "j < length fs"
  shows "ucmp (ulo env (fs ! i)) (ulo env (fs ! j)) \<le> 0"
proof (cases "i = j")
  case False
  have "i < length fs" using assms(2,3) by simp
  from sorted_ok [OF assms(1) this] have o: "file_ok env (fs ! i)" "file_ok env (fs ! j)"
    using sorted_ok [OF assms(1,3)] by simp_all
  from sorted_nth [OF assms(1) _ assms(3), of i] False assms(2)
  have "ucmp (uhi env (fs ! i)) (ulo env (fs ! j)) \<le> 0" using o by (intro user_le) (auto simp: file_ok_def)
  with file_user_le [OF o(1)] show ?thesis by (rule u.cmp_trans)
qed (simp add: u.cmp_refl)

lemma overlap_search:
  assumes "level_sorted env fs" and "length fs < 2 ^ 31"
  shows "SomeFileOverlapsRange env True fs lo hi = Some (\<exists>f\<in>set fs. overlaps env lo hi f)"
proof -
  define n where
    "n = (case lo of None \<Rightarrow> 0 | Some u \<Rightarrow>
       first_at_or_after fs (vs_append env \<lparr>user_key = u, sequence = kMaxSequenceNumber, ptype = kValueTypeForSeek\<rparr>))"
  have enc: "encoded (vs_append env \<lparr>user_key = u, sequence = kMaxSequenceNumber, ptype = kValueTypeForSeek\<rparr>) =
    Some (vs_append env \<lparr>user_key = u, sequence = kMaxSequenceNumber, ptype = kValueTypeForSeek\<rparr>)" for u
    by (rule encoded_ok, rule parses_nonempty, rule append_parses(1)) (simp_all add: kValueTypeForSeek_def)
  have code: "SomeFileOverlapsRange env True fs lo hi =
    (if length fs \<le> n then Some False else do { b \<leftarrow> BeforeFile env hi (fs ! n); Some (\<not> b) })"
    using FindFile_first [OF assms] enc
    by (auto simp: SomeFileOverlapsRange_def InternalKey_make_def n_def split: option.splits)
  have lo: "(case lo of None \<Rightarrow> True | Some u \<Rightarrow> ucmp u (uhi env (fs ! i)) \<le> 0) \<longleftrightarrow> n \<le> i" if "i < length fs" for i
  proof (cases lo)
    case (Some u)
    have "parses (vs_coding env) (largest (fs ! i))" using sorted_ok [OF assms(1) that] by (simp add: file_ok_def)
    from seek_key [OF this, of u] first_iff [OF assms(1) that] Some have "ucmp (uhi env (fs ! i)) u < 0 \<longleftrightarrow> i < n"
      by (simp add: n_def)
    with Some u.cmp_le_swap [of u "uhi env (fs ! i)"] show ?thesis by (simp add: linorder_not_less [symmetric])
  qed (simp add: n_def)
  show ?thesis
  proof (cases "n < length fs")
    case True
    have "(\<exists>f\<in>set fs. overlaps env lo hi f) \<longleftrightarrow> overlaps env lo hi (fs ! n)"
    proof
      assume "\<exists>f\<in>set fs. overlaps env lo hi f"
      then obtain i where i: "i < length fs" "overlaps env lo hi (fs ! i)" by (auto simp: in_set_conv_nth)
      with lo [of i] have "n \<le> i" by (simp add: overlaps_def)
      from i(2) lo [OF True] u.cmp_trans [OF sorted_user_smallest [OF assms(1) this i(1)]]
      show "overlaps env lo hi (fs ! n)" by (auto simp: overlaps_def split: option.splits)
    qed (use True in auto)
    with True lo [OF True] sorted_ok [OF assms(1) True] show ?thesis
      by (auto simp: code BeforeFile_overlaps overlaps_def split: option.splits)
  next
    case False
    with lo have "\<not> overlaps env lo hi f" if "f \<in> set fs" for f
      using that by (fastforce simp: overlaps_def in_set_conv_nth)
    with False show ?thesis by (auto simp: code)
  qed
qed

section \<open>The files that overlap a range\<close>

text \<open>The files connected with a range by a chain of overlapping files.\<close>

end

inductive connected :: "vset_env \<Rightarrow> FileRef list \<Rightarrow> bytes option \<Rightarrow> bytes option \<Rightarrow> FileRef \<Rightarrow> bool"
  for env fs lo hi where
  in_range: "f \<in> set fs \<Longrightarrow> overlaps env lo hi f \<Longrightarrow> connected env fs lo hi f"
| by_file: "connected env fs lo hi f \<Longrightarrow> g \<in> set fs \<Longrightarrow> overlaps env (Some (ulo env f)) (Some (uhi env f)) g \<Longrightarrow>
    connected env fs lo hi g"

definition inside :: "vset_env \<Rightarrow> bytes option \<Rightarrow> bytes option \<Rightarrow> FileRef \<Rightarrow> bool" where
  "inside env lo hi f \<longleftrightarrow>
     (case lo of None \<Rightarrow> True | Some u \<Rightarrow> vs_ucmp env u (ulo env f) \<le> 0) \<and>
     (case hi of None \<Rightarrow> True | Some u \<Rightarrow> vs_ucmp env (uhi env f) u \<le> 0)"

context vset
begin

lemma overlapping_loop_step:
  assumes "i < length fs" and "file_ok env (fs ! i)"
  shows "overlapping_loop env level fs lo hi i inputs =
    (if \<not> overlaps env lo hi (fs ! i) then overlapping_loop env level fs lo hi (i + 1) inputs
     else if level = 0 \<and> lo \<noteq> None \<and> ucmp (ulo env (fs ! i)) (the lo) < 0
     then overlapping_loop env level fs (Some (ulo env (fs ! i))) hi 0 []
     else if level = 0 \<and> hi \<noteq> None \<and> 0 < ucmp (uhi env (fs ! i)) (the hi)
     then overlapping_loop env level fs lo (Some (uhi env (fs ! i))) 0 []
     else overlapping_loop env level fs lo hi (i + 1) (inputs @ [fs ! i]))"
proof -
  have lo: "(case lo of None \<Rightarrow> False | Some b \<Rightarrow> ucmp (uhi env (fs ! i)) b < 0) \<longleftrightarrow>
      \<not> (case lo of None \<Rightarrow> True | Some u \<Rightarrow> ucmp u (uhi env (fs ! i)) \<le> 0)"
    using u.cmp_swap by (cases lo) (simp_all add: not_le)
  have hi: "(case hi of None \<Rightarrow> False | Some e \<Rightarrow> 0 < ucmp (ulo env (fs ! i)) e) \<longleftrightarrow>
      \<not> (case hi of None \<Rightarrow> True | Some u \<Rightarrow> ucmp (ulo env (fs ! i)) u \<le> 0)"
    by (cases hi) (simp_all add: not_le)
  have cases: "(case b of None \<Rightarrow> False | Some x \<Rightarrow> P x) \<longleftrightarrow> b \<noteq> None \<and> P (the b)" for b :: "bytes option" and P
    by (cases b) simp_all
  show ?thesis
    by (subst overlapping_loop.simps)
      (simp add: assms(1) file_ok_keys [OF assms(2)] lo hi overlaps_def, simp add: cases)
qed

lemma overlapping_above:
  assumes "0 < level" and "\<forall>f\<in>set fs. file_ok env f"
  shows "i \<le> length fs \<Longrightarrow>
    overlapping_loop env level fs lo hi i inputs = Some (inputs @ filter (overlaps env lo hi) (drop i fs))"
proof (induction "length fs - i" arbitrary: i inputs)
  case 0
  then show ?case by (simp add: overlapping_loop.simps)
next
  case (Suc n)
  then have i: "i < length fs" by simp
  with assms(2) have "file_ok env (fs ! i)" by simp
  from overlapping_loop_step [OF i this, of level lo hi inputs] Suc.hyps(1) [of "i + 1"] Suc.hyps(2) i assms(1)
  show ?case by (simp flip: Cons_nth_drop_Suc)
qed

text \<open>Level 0: the range grows until it contains every file that overlaps it.\<close>

definition outside :: "FileRef list \<Rightarrow> bytes option \<Rightarrow> bytes option \<Rightarrow> nat" where
  "outside fs lo hi =
     length (filter (\<lambda>f. lo \<noteq> None \<and> ucmp (ulo env f) (the lo) < 0) fs) +
     length (filter (\<lambda>f. hi \<noteq> None \<and> 0 < ucmp (uhi env f) (the hi)) fs)"

definition grown_range :: "FileRef list \<Rightarrow> bytes option \<Rightarrow> bytes option \<Rightarrow> bytes option \<Rightarrow> bytes option \<Rightarrow> bool" where
  "grown_range fs lo0 hi0 lo hi \<longleftrightarrow>
     (\<forall>g\<in>set fs. (overlaps env lo0 hi0 g \<longrightarrow> overlaps env lo hi g) \<and> (overlaps env lo hi g \<longrightarrow> connected env fs lo0 hi0 g))"

lemma overlaps_file:
  assumes "file_ok env g" and "ucmp (ulo env f) (uhi env g) \<le> 0" and "ucmp (ulo env g) (uhi env f) \<le> 0"
  shows "overlaps env (Some (ulo env f)) (Some (uhi env f)) g"
  using assms by (simp add: overlaps_def)

lemma grow_begin:
  assumes ok: "\<forall>f\<in>set fs. file_ok env f" and r: "grown_range fs lo0 hi0 (Some b) hi" and f: "f \<in> set fs" "overlaps env (Some b) hi f"
    and lt: "ucmp (ulo env f) b < 0"
  shows "grown_range fs lo0 hi0 (Some (ulo env f)) hi" and "outside fs (Some (ulo env f)) hi < outside fs (Some b) hi"
proof -
  have conn: "connected env fs lo0 hi0 f" using r f by (auto simp: grown_range_def)
  show "grown_range fs lo0 hi0 (Some (ulo env f)) hi" unfolding grown_range_def
  proof (intro ballI conjI impI)
    fix g assume g: "g \<in> set fs"
    show "overlaps env (Some (ulo env f)) hi g" if "overlaps env lo0 hi0 g"
      using that r g lt u.cmp_less_le_trans [of "ulo env f" b "uhi env g"] by (auto simp: grown_range_def overlaps_def)
    assume o: "overlaps env (Some (ulo env f)) hi g"
    show "connected env fs lo0 hi0 g"
    proof (cases "ucmp b (uhi env g) \<le> 0")
      case True
      with o r g show ?thesis by (auto simp: grown_range_def overlaps_def)
    next
      case False
      then have "ucmp (uhi env g) b \<le> 0" using u.cmp_swap [of "uhi env g" b] by simp
      then have "ucmp (uhi env g) (uhi env f) \<le> 0" using f(2) u.cmp_trans by (auto simp: overlaps_def)
      then have "ucmp (ulo env g) (uhi env f) \<le> 0" using file_user_le [of g] ok g u.cmp_trans by blast
      with o g ok show ?thesis by (intro by_file [OF conn g] overlaps_file) (auto simp: overlaps_def)
    qed
  qed
  have "length (filter (\<lambda>g. ucmp (ulo env g) (ulo env f) < 0) fs) < length (filter (\<lambda>g. ucmp (ulo env g) b < 0) fs)"
    by (rule length_filter_smaller [where P = "\<lambda>g. ucmp (ulo env g) (ulo env f) < 0", OF _ f(1)])
      (use lt u.cmp_less_trans in \<open>auto simp: u.cmp_refl\<close>)
  then show "outside fs (Some (ulo env f)) hi < outside fs (Some b) hi" by (simp add: outside_def)
qed

lemma grow_end:
  assumes ok: "\<forall>f\<in>set fs. file_ok env f" and r: "grown_range fs lo0 hi0 lo (Some e)" and f: "f \<in> set fs" "overlaps env lo (Some e) f"
    and gt: "0 < ucmp (uhi env f) e"
  shows "grown_range fs lo0 hi0 lo (Some (uhi env f))" and "outside fs lo (Some (uhi env f)) < outside fs lo (Some e)"
proof -
  have conn: "connected env fs lo0 hi0 f" using r f by (auto simp: grown_range_def)
  have lt: "ucmp e (uhi env f) < 0" using gt by (simp add: u.cmp_swap)
  show "grown_range fs lo0 hi0 lo (Some (uhi env f))" unfolding grown_range_def
  proof (intro ballI conjI impI)
    fix g assume g: "g \<in> set fs"
    show "overlaps env lo (Some (uhi env f)) g" if "overlaps env lo0 hi0 g"
      using that r g lt u.cmp_trans [of "ulo env g" e "uhi env f"] by (auto simp: grown_range_def overlaps_def)
    assume o: "overlaps env lo (Some (uhi env f)) g"
    show "connected env fs lo0 hi0 g"
    proof (cases "ucmp (ulo env g) e \<le> 0")
      case True
      with o r g show ?thesis by (auto simp: grown_range_def overlaps_def)
    next
      case False
      then have "ucmp e (ulo env g) \<le> 0" using u.cmp_swap [of e "ulo env g"] by simp
      then have "ucmp (ulo env f) (ulo env g) \<le> 0" using f(2) u.cmp_trans by (auto simp: overlaps_def)
      then have "ucmp (ulo env f) (uhi env g) \<le> 0" using file_user_le [of g] ok g u.cmp_trans by blast
      with o g ok show ?thesis by (intro by_file [OF conn g] overlaps_file) (auto simp: overlaps_def)
    qed
  qed
  have "length (filter (\<lambda>g. 0 < ucmp (uhi env g) (uhi env f)) fs) < length (filter (\<lambda>g. 0 < ucmp (uhi env g) e) fs)"
    by (rule length_filter_smaller [where P = "\<lambda>g. 0 < ucmp (uhi env g) (uhi env f)", OF _ f(1)])
      (use gt lt u.cmp_less_trans in \<open>auto simp: u.cmp_refl simp flip: u.cmp_swap\<close>)
  then show "outside fs lo (Some (uhi env f)) < outside fs lo (Some e)" by (simp add: outside_def)
qed

lemma connected_overlaps:
  assumes r: "grown_range fs lo0 hi0 lo hi" and ins: "\<And>f. f \<in> set fs \<Longrightarrow> overlaps env lo hi f \<Longrightarrow> inside env lo hi f"
  shows "connected env fs lo0 hi0 f \<Longrightarrow> f \<in> set fs \<and> overlaps env lo hi f"
proof (induction rule: connected.induct)
  case (in_range f)
  with r show ?case by (auto simp: grown_range_def)
next
  case (by_file f g)
  with ins have "inside env lo hi f" by simp
  with by_file.hyps(2,3) u.cmp_trans show ?case
    by (auto simp: inside_def overlaps_def split: option.splits; blast)
qed

text \<open>No file sticks out any more: the files in the range are the connected ones.\<close>

lemma overlapping_done:
  assumes "grown_range fs lo0 hi0 lo hi" and "\<forall>f\<in>set (filter (overlaps env lo hi) fs). inside env lo hi f"
  shows "filter (overlaps env lo hi) fs = filter (connected env fs lo0 hi0) fs"
proof (rule filter_cong [OF refl])
  show "overlaps env lo hi f \<longleftrightarrow> connected env fs lo0 hi0 f" if "f \<in> set fs" for f
    using that assms connected_overlaps [OF assms(1), of f] by (auto simp: grown_range_def)
qed

lemma restart_measure:
  assumes "(m' :: nat) < m"
  shows "m' * Suc n + (n - 0) < m * Suc n + (n - i)"
proof -
  from assms have "Suc m' * Suc n \<le> m * Suc n" by (intro mult_le_mono1) simp
  then show ?thesis by simp
qed

lemma overlapping_level0:
  assumes ok: "\<forall>f\<in>set fs. file_ok env f"
  shows "grown_range fs lo0 hi0 lo hi \<Longrightarrow> i \<le> length fs \<Longrightarrow> inputs = filter (overlaps env lo hi) (take i fs) \<Longrightarrow>
    (\<forall>f\<in>set inputs. inside env lo hi f) \<Longrightarrow>
    overlapping_loop env 0 fs lo hi i inputs = Some (filter (connected env fs lo0 hi0) fs)"
proof (induction "outside fs lo hi * Suc (length fs) + (length fs - i)" arbitrary: lo hi i inputs rule: less_induct)
  case less
  show ?case
  proof (cases "i < length fs")
    case False
    with less.prems overlapping_done [OF less.prems(1)] show ?thesis by (simp add: overlapping_loop.simps)
  next
    case True
    let ?f = "fs ! i"
    have f: "?f \<in> set fs" "file_ok env ?f" using True ok by auto
    have next_i: "outside fs lo hi * Suc (length fs) + (length fs - (i + 1)) < outside fs lo hi * Suc (length fs) + (length fs - i)"
      using True by simp
    note step = overlapping_loop_step [OF True f(2), of 0 lo hi inputs]
    consider (apart) "\<not> overlaps env lo hi ?f"
      | (low) b where "overlaps env lo hi ?f" "lo = Some b" "ucmp (ulo env ?f) b < 0"
      | (high) e where "overlaps env lo hi ?f" "\<not> (lo \<noteq> None \<and> ucmp (ulo env ?f) (the lo) < 0)" "hi = Some e" "0 < ucmp (uhi env ?f) e"
      | (keep) "overlaps env lo hi ?f" "\<not> (lo \<noteq> None \<and> ucmp (ulo env ?f) (the lo) < 0)" "\<not> (hi \<noteq> None \<and> 0 < ucmp (uhi env ?f) (the hi))"
      by (cases lo; cases hi) auto
    then show ?thesis
    proof cases
      case apart
      with less.hyps [OF next_i less.prems(1)] less.prems step True show ?thesis by (simp add: take_Suc_conv_app_nth)
    next
      case low
      from grow_begin [OF ok less.prems(1) [unfolded low(2)] f(1) low(1) [unfolded low(2)] low(3)]
        less.hyps [OF restart_measure, of "Some (ulo env ?f)" hi "[]"] step low show ?thesis by simp
    next
      case high
      from grow_end [OF ok less.prems(1) [unfolded high(3)] f(1) high(1) [unfolded high(3)] high(4)]
        less.hyps [OF restart_measure, of lo "Some (uhi env ?f)" "[]"] step high show ?thesis by auto
    next
      case keep
      then have "inside env lo hi ?f"
        by (auto simp: inside_def u.cmp_le_swap [of _ "ulo env ?f"] split: option.splits)
      with less.hyps [OF next_i less.prems(1)] less.prems step True keep show ?thesis
        by (auto simp: take_Suc_conv_app_nth)
    qed
  qed
qed

definition selected :: "nat \<Rightarrow> FileRef list \<Rightarrow> bytes option \<Rightarrow> bytes option \<Rightarrow> FileRef \<Rightarrow> bool" where
  "selected level fs lo hi f \<longleftrightarrow> (if level = 0 then connected env fs lo hi f else overlaps env lo hi f)"

lemma overlapping_loop_selects:
  assumes "\<forall>f\<in>set fs. file_ok env f"
  shows "overlapping_loop env level fs lo hi 0 [] = Some (filter (selected level fs lo hi) fs)"
proof (cases "level = 0")
  case True
  have "grown_range fs lo hi lo hi" by (auto simp: grown_range_def intro: in_range)
  with overlapping_level0 [OF assms this, of 0 "[]"] True show ?thesis by (simp add: selected_def [abs_def])
next
  case False
  with overlapping_above [OF _ assms, of level 0 lo hi "[]"] show ?thesis by (simp add: selected_def [abs_def])
qed

end

section \<open>The iterator contract\<close>

definition level_entry :: "vset_env \<Rightarrow> FileRef \<Rightarrow> bytes \<times> bytes" where
  "level_entry env f = (largest f, PutFixed64 (vs_coding env) (number f) @ PutFixed64 (vs_coding env) (file_size f))"

definition level_repr :: "vset_env \<Rightarrow> LevelFileNumIterator \<Rightarrow> (bytes \<times> bytes) list \<Rightarrow> nat option \<Rightarrow> bool" where
  "level_repr env it es p \<longleftrightarrow>
     vset_laws env \<and> level_sorted env (flist it) \<and> length (flist it) < 2 ^ 31 \<and> es = map (level_entry env) (flist it) \<and>
     (case p of None \<Rightarrow> length (flist it) \<le> index it | Some i \<Rightarrow> index it = i \<and> i < length (flist it))"

lemma level_repr_pos:
  assumes "level_repr env it es p" and "n \<le> length (flist it)"
  shows "level_repr env (it\<lparr>index := n\<rparr>) es (pos_of es n)"
  using assms by (auto simp: level_repr_def pos_of_def)

context vset
begin

lemma level_entries_sorted:
  assumes "level_sorted env fs"
  shows "sorted_wrt (\<lambda>a b. icmp (fst a) (fst b) < 0) (map (level_entry env) fs)"
proof -
  have "icmp (largest (fs ! i)) (largest (fs ! j)) < 0" if "i < j" "j < length fs" for i j
    using i.cmp_less_le_trans [OF sorted_nth [OF assms that]] sorted_ok [OF assms that(2)] by (simp add: file_ok_def)
  then show ?thesis by (auto simp: sorted_wrt_iff_nth_less level_entry_def)
qed

lemma level_seek:
  assumes "level_repr env it es p"
  shows "\<exists>it'. level_Seek env t it = Some it' \<and>
    level_repr env it' es (pos_of es (length (takeWhile (\<lambda>e. icmp (fst e) t < 0) es)))"
proof -
  from assms have r: "level_sorted env (flist it)" "length (flist it) < 2 ^ 31" "es = map (level_entry env) (flist it)"
    by (auto simp: level_repr_def)
  have "length (takeWhile (\<lambda>e. icmp (fst e) t < 0) es) = first_at_or_after (flist it) t"
    by (simp add: r(3) takeWhile_map first_at_or_after_def level_entry_def comp_def)
  with level_repr_pos [OF assms first_le] show ?thesis
    by (auto simp: level_Seek_def FindFile_first [OF r(1,2)])
qed

end

lemma level_entry_iterator: "entry_iterator (level_ops env) (vs_icmp env) (level_repr env)"
proof
  fix it es p i t
  assume r: "level_repr env it es p"
  then have laws: "vset env" by unfold_locales (simp add: level_repr_def)
  from r show "sorted_wrt (\<lambda>a b. vs_icmp env (fst a) (fst b) < 0) es"
    using vset.level_entries_sorted [OF laws] by (auto simp: level_repr_def)
  from r show "iValid (level_ops env) it \<longleftrightarrow> p \<noteq> None"
    by (auto simp: level_ops_def level_Valid_def level_repr_def split: option.splits)
  show "\<exists>it'. iSeekToFirst (level_ops env) it = Some it' \<and> level_repr env it' es (pos_of es 0)"
    using level_repr_pos [OF r, of 0] by (auto simp: level_ops_def level_SeekToFirst_def)
  show "\<exists>it'. iSeekToLast (level_ops env) it = Some it' \<and> level_repr env it' es (if es = [] then None else Some (length es - 1))"
    using r by (auto simp: level_ops_def level_SeekToLast_def level_repr_def)
  show "\<exists>it'. iSeek (level_ops env) t it = Some it' \<and>
      level_repr env it' es (pos_of es (length (takeWhile (\<lambda>e. vs_icmp env (fst e) t < 0) es)))"
    using vset.level_seek [OF laws r] by (simp add: level_ops_def)
next
  fix it es i
  assume r: "level_repr env it es (Some i)"
  then have i: "index it = i" "i < length (flist it)" "length (flist it) < 2 ^ 31" "es = map (level_entry env) (flist it)"
    "level_Valid it" by (auto simp: level_repr_def level_Valid_def)
  from r i(2) have "file_ok env (flist it ! i)" by (auto simp: level_repr_def level_sorted_def)
  with i show "iKey (level_ops env) it = Some (fst (es ! i))"
    by (simp add: level_ops_def level_key_def level_entry_def file_ok_keys)
  from i show "iValue (level_ops env) it = Some (snd (es ! i))"
    by (simp add: level_ops_def level_value_def level_entry_def Let_def)
  from i show "i < length es" by simp
  have "(i + 1) mod 2 ^ 32 = Suc i" "length (flist it) mod 2 ^ 32 = length (flist it)" using i by auto
  with i r level_repr_pos [OF r, of "Suc i"]
  show "\<exists>it'. iNext (level_ops env) it = Some it' \<and> level_repr env it' es (pos_of es (Suc i))"
    "\<exists>it'. iPrev (level_ops env) it = Some it' \<and> level_repr env it' es (if i = 0 then None else Some (i - 1))"
    by (auto simp: level_ops_def level_Next_def level_Prev_def level_repr_def)
qed

interpretation level: entry_iterator "level_ops env" "vs_icmp env" "level_repr env"
  for env :: vset_env
  by (rule level_entry_iterator)

section \<open>Properties of the searches\<close>

text \<open>
  C6: On the sorted, disjoint files of a level, the overlap test by binary search gives what the scan over all files gives: whether
  some file's user keys meet the range. Absent bounds, ranges between files and keys whose versions span two files are
  included.
\<close>

theorem overlap_search_is_scan:
  assumes "vset_laws env" and "level_sorted env files" and "length files < 2 ^ 31"
  shows "SomeFileOverlapsRange env True files lo hi = SomeFileOverlapsRange env False files lo hi \<and>
    SomeFileOverlapsRange env True files lo hi = Some (\<exists>f\<in>set files. overlaps env lo hi f)"
proof -
  from assms(2) have "\<forall>f\<in>set files. file_ok env f" by (simp add: level_sorted_def)
  with vset.overlap_search [OF vset.intro [OF assms(1)] assms(2,3)] vset.some_overlap_iff [OF vset.intro [OF assms(1)]]
  show ?thesis by (simp add: SomeFileOverlapsRange_def)
qed

text \<open>
  C5: The files that overlap a range. In a level above 0 these are the files whose user keys meet the range, in order. At level 0,
  where files overlap each other, the search with its restarts ends, and gives exactly the files that are connected with the
  range by a chain of overlapping files.
\<close>

theorem overlapping_inputs_exact:
  assumes "vset_laws env" and "int level < kNumLevels" and "\<forall>f\<in>set (level_files v level). file_ok env f"
    and "user_bound first = Some lo" and "user_bound final = Some hi"
  shows "GetOverlappingInputs env v level first final =
    Some (filter (\<lambda>f. if level = 0 then connected env (level_files v 0) lo hi f else overlaps env lo hi f) (level_files v level))"
  using vset.overlapping_loop_selects [OF vset.intro [OF assms(1)] assms(3), of level lo hi] assms(2,4,5)
  by (auto simp: GetOverlappingInputs_def vset.selected_def [OF vset.intro [OF assms(1)]] intro!: filter_cong)

section \<open>A sample level\<close>

definition plain_vset :: vset_env where
  "plain_vset =
     \<lparr>vs_coding = plain_coding, vs_append = plain_append, vs_ucmp = bytes_compare, vs_icmp = internal_compare,
      max_file_size = 2097152\<rparr>"

lemma plain_vset_simps [simp]:
  "vs_coding plain_vset = plain_coding" "vs_append plain_vset = plain_append" "vs_ucmp plain_vset = bytes_compare"
  "vs_icmp plain_vset = internal_compare" "max_file_size plain_vset = 2097152"
  by (simp_all add: plain_vset_def)

lemma plain_vset_laws: "vset_laws plain_vset"
  by (simp add: vset_laws_def plain_key_laws)

interpretation plain: vset plain_vset
  by unfold_locales (rule plain_vset_laws)

definition table_file :: "64 word \<Rightarrow> bytes \<Rightarrow> bytes \<Rightarrow> FileRef" where
  "table_file n lo hi = \<lparr>number = n, file_size = 100, smallest = lo, largest = hi, file_addr = unat n\<rparr>"

lemma table_file_simps [simp]:
  "number (table_file n lo hi) = n" "file_size (table_file n lo hi) = 100" "smallest (table_file n lo hi) = lo"
  "largest (table_file n lo hi) = hi" "file_addr (table_file n lo hi) = unat n"
  by (simp_all add: table_file_def)

lemma plain_sequence: "unat s < 2 ^ 56 \<Longrightarrow> s \<le> kMaxSequenceNumber"
  by (simp add: word_le_nat_alt kMaxSequenceNumber_def)

lemmas plain_version = version_parses [OF plain_sequence] version_compare [OF plain_sequence _ plain_sequence]

text \<open>\<open>internal_compare a b \<le> 0\<close> is \<open>\<not> internal_compare b a < 0\<close>.\<close>

lemma internal_le: "internal_compare a b \<le> 0 \<longleftrightarrow> \<not> internal_compare b a < 0"
  using packed.i.cmp_swap [of b a] by (simp add: not_less)

definition sample_files :: "FileRef list" where
  "sample_files =
     [table_file 3 (version 97 5 kTypeValue) (version 98 3 kTypeValue),
      table_file 4 (version 98 2 kTypeValue) (version 99 1 kTypeValue)]"

lemma sample_files_sorted: "level_sorted plain_vset sample_files"
  by (simp add: level_sorted_def sample_files_def file_ok_def plain_version internal_le bytes_compare_single)

theorem overlap_search_is_scan_witness:
  "SomeFileOverlapsRange plain_vset True sample_files (Some [98]) None = Some True \<and>
   SomeFileOverlapsRange plain_vset True sample_files (Some [100]) (Some [101]) = Some False"
proof -
  have "length sample_files < 2 ^ 31" by (simp add: sample_files_def)
  note search = overlap_search_is_scan [OF plain_vset_laws sample_files_sorted this, THEN conjunct2]
  show ?thesis unfolding search by (simp add: sample_files_def overlaps_def plain_version bytes_compare_single)
qed

definition sample_level0 :: "FileRef list" where
  "sample_level0 =
     [table_file 1 (version 97 9 kTypeValue) (version 98 8 kTypeValue),
      table_file 2 (version 98 7 kTypeValue) (version 99 6 kTypeValue),
      table_file 3 (version 101 5 kTypeValue) (version 102 4 kTypeValue)]"

definition sample_version0 :: Version where
  "sample_version0 =
     \<lparr>level_files = (\<lambda>l. if l = 0 then sample_level0 else []), file_to_compact = None, file_to_compact_level = -1,
      score_exceeds = False, compaction_level = -1\<rparr>"

lemma sample_connected:
  "filter (connected plain_vset sample_level0 (Some [99]) (Some [99])) sample_level0 = take 2 sample_level0"
proof -
  let ?C = "connected plain_vset sample_level0 (Some [99]) (Some [99])"
  have second: "?C (sample_level0 ! 1)"
    by (rule in_range) (simp_all add: sample_level0_def overlaps_def plain_version bytes_compare_single)
  have first: "?C (sample_level0 ! 0)"
    by (rule by_file [OF second]) (simp_all add: sample_level0_def overlaps_def plain_version bytes_compare_single)
  have "f \<in> set (take 2 sample_level0)" if "?C f" for f
    using that by induction (auto simp: sample_level0_def overlaps_def plain_version bytes_compare_single)
  moreover have "sample_level0 ! 2 \<notin> set (take 2 sample_level0)" by (simp add: sample_level0_def table_file_def)
  ultimately have third: "\<not> ?C (sample_level0 ! 2)" by blast
  have "sample_level0 = [sample_level0 ! 0, sample_level0 ! 1, sample_level0 ! 2]" by (simp add: sample_level0_def)
  then show ?thesis using first second third by (metis (no_types, lifting) filter.simps take0 take_Suc_Cons numeral_2_eq_2)
qed

theorem overlapping_inputs_exact_witness:
  "GetOverlappingInputs plain_vset sample_version0 0 (Some (version 99 3 kTypeValue)) (Some (version 99 3 kTypeValue)) =
   Some (take 2 sample_level0)"
proof -
  have ok: "\<forall>f\<in>set (level_files sample_version0 0). file_ok plain_vset f"
    by (simp add: sample_version0_def sample_level0_def file_ok_def plain_version internal_le bytes_compare_single)
  have b: "user_bound (Some (version 99 3 kTypeValue)) = Some (Some [99])"
    using parses_user_key [OF plain_version(1), of 3 kTypeValue 99] by (simp add: user_bound_def plain_version)
  from overlapping_inputs_exact [OF plain_vset_laws _ ok b b] sample_connected show ?thesis
    by (simp add: kNumLevels_def sample_version0_def)
qed

end
