(* ===== verification/Version_Get_Spec.thy ===== *)
theory Version_Get_Spec
  imports Version_Files_Spec Db_Iter_Client
begin

text \<open>
  Looking up a key in a version finds the newest entry that the snapshot sees, whatever level holds it: what the database
  iterator shows of the same entries.
\<close>

section \<open>Versions and their tables\<close>

text \<open>\<open>contents\<close> gives the entries of a table by its file number.\<close>

definition table_ok :: "vset_env \<Rightarrow> (64 word \<Rightarrow> (bytes \<times> bytes) list) \<Rightarrow> FileRef \<Rightarrow> bool" where
  "table_ok env contents f \<longleftrightarrow>
     (let es = contents (number f)
      in es \<noteq> [] \<and> sorted_wrt (\<lambda>a b. vs_icmp env (fst a) (fst b) < 0) es \<and> (\<forall>e\<in>set es. parses (vs_coding env) (fst e)) \<and>
         smallest f = fst (hd es) \<and> largest f = fst (last es))"

text \<open>A file of a smaller level, or a later file of level 0, is newer.\<close>

definition newer :: "nat \<times> FileRef \<Rightarrow> nat \<times> FileRef \<Rightarrow> bool" where
  "newer a b \<longleftrightarrow> fst a < fst b \<or> fst a = 0 \<and> fst b = 0 \<and> number (snd b) < number (snd a)"

definition version_files :: "Version \<Rightarrow> (nat \<times> FileRef) set" where
  "version_files v = {(level, f). int level < kNumLevels \<and> f \<in> set (level_files v level)}"

text \<open>
  The invariant of a version: the tables hold what their metadata says, the files of level 0 have different numbers, the
  levels above 0 are sorted, and of one user key the versions in a newer file come first in the order of internal keys: they
  are newer.
\<close>

definition version_ok :: "vset_env \<Rightarrow> (64 word \<Rightarrow> (bytes \<times> bytes) list) \<Rightarrow> Version \<Rightarrow> bool" where
  "version_ok env contents v \<longleftrightarrow>
     (\<forall>(level, f)\<in>version_files v. table_ok env contents f) \<and> distinct (map number (level_files v 0)) \<and>
     (\<forall>level. 0 < level \<and> int level < kNumLevels \<longrightarrow>
        sorted_wrt (\<lambda>f g. vs_icmp env (largest f) (smallest g) < 0) (level_files v level) \<and> length (level_files v level) < 2 ^ 31) \<and>
     (\<forall>x\<in>version_files v. \<forall>y\<in>version_files v. newer x y \<longrightarrow>
        (\<forall>a\<in>set (contents (number (snd x))). \<forall>b\<in>set (contents (number (snd y))).
           vs_ucmp env (user_key (parsed (vs_coding env) (fst a))) (user_key (parsed (vs_coding env) (fst b))) = 0 \<longrightarrow>
           vs_icmp env (fst a) (fst b) < 0))"

definition version_entries :: "(64 word \<Rightarrow> (bytes \<times> bytes) list) \<Rightarrow> Version \<Rightarrow> (bytes \<times> bytes) set" where
  "version_entries contents v = (\<Union>(level, f)\<in>version_files v. set (contents (number f)))"

text \<open>
  The table cache finds the first entry at or after the key, or a filter tells it that the table has no entry with the
  user key.
\<close>

definition table_cache_ok ::
    "vset_env \<Rightarrow> (64 word \<Rightarrow> (bytes \<times> bytes) list) \<Rightarrow> Version \<Rightarrow> 'e table_cache \<Rightarrow> bytes \<Rightarrow> bool" where
  "table_cache_ok env contents v tables ikey \<longleftrightarrow>
     (\<forall>(level, f)\<in>version_files v. \<exists>r. tables (number f) (file_size f) ikey = Inr r \<and>
        (r = find (\<lambda>e. \<not> vs_icmp env (fst e) ikey < 0) (contents (number f)) \<or>
         r = None \<and> (\<forall>e\<in>set (contents (number f)).
           vs_ucmp env (user_key (parsed (vs_coding env) (fst e))) (user_key (parsed (vs_coding env) ikey)) \<noteq> 0)))"

text \<open>The entry is a version of the user key that the snapshot sees; what a lookup returns for it.\<close>

definition seen :: "vset_env \<Rightarrow> bytes \<Rightarrow> 64 word \<Rightarrow> bytes \<times> bytes \<Rightarrow> bool" where
  "seen env u s e \<longleftrightarrow>
     vs_ucmp env (user_key (parsed (vs_coding env) (fst e))) u = 0 \<and> sequence (parsed (vs_coding env) (fst e)) \<le> s"

definition outcome :: "vset_env \<Rightarrow> bytes \<times> bytes \<Rightarrow> 'e get_result" where
  "outcome env e = (if ptype (parsed (vs_coding env) (fst e)) = kTypeValue then Get_found (snd e) else Get_not_found)"

abbreviation lookup_key :: "vset_env \<Rightarrow> bytes \<Rightarrow> 64 word \<Rightarrow> bytes" where
  "lookup_key env u s \<equiv> vs_append env \<lparr>user_key = u, sequence = s, ptype = kValueTypeForSeek\<rparr>"

section \<open>Reading a file\<close>

context vset
begin

lemma lookup_key_parses:
  assumes "s \<le> kMaxSequenceNumber"
  shows "parses (vs_coding env) (lookup_key env u s)"
    and "pk (lookup_key env u s) = \<lparr>user_key = u, sequence = s, ptype = kValueTypeForSeek\<rparr>"
  using append_parses [OF assms, of kValueTypeForSeek u] by (simp_all add: kValueTypeForSeek_def)

lemma at_lookup_key:
  assumes "s \<le> kMaxSequenceNumber" and "parses (vs_coding env) (fst e)"
  shows "\<not> icmp (fst e) (lookup_key env u s) < 0 \<longleftrightarrow> 0 < ucmp (uk (fst e)) u \<or> seen env u s e"
proof -
  have "value_type_code (ptype (pk (fst e))) \<le> value_type_code kValueTypeForSeek"
    using parsed_parts(2) [OF assms(2)] by (auto simp: value_type_code_def kValueTypeForSeek_def)
  with icmp_order [OF assms(2) lookup_key_parses(1) [OF assms(1)]] show ?thesis
    unfolding lookup_key_parses(2) [OF assms(1)] seen_def by (auto simp: not_less not_le)
qed

text \<open>The first entry at or after the lookup key is seen, or no entry is.\<close>

lemma find_seen:
  assumes "s \<le> kMaxSequenceNumber" and "sorted_wrt (\<lambda>a b. icmp (fst a) (fst b) < 0) es" and "\<forall>e\<in>set es. parses (vs_coding env) (fst e)"
  shows "find (seen env u s) es =
    (case find (\<lambda>e. \<not> icmp (fst e) (lookup_key env u s) < 0) es of None \<Rightarrow> None | Some e \<Rightarrow> if seen env u s e then Some e else None)"
  using assms(2,3)
proof (induction es)
  case (Cons e es)
  have "\<not> seen env u s e'" if "0 < ucmp (uk (fst e)) u" "e' \<in> set es" for e'
  proof -
    from Cons.prems that(2) have "ucmp (uk (fst e)) (uk (fst e')) \<le> 0" by (intro user_le) auto
    with that(1) u.cmp_swap [of u "uk (fst e)"] u.cmp_less_le_trans [of u "uk (fst e)" "uk (fst e')"] u.cmp_swap [of u "uk (fst e')"]
    show ?thesis by (auto simp: seen_def)
  qed
  then have "0 < ucmp (uk (fst e)) u \<Longrightarrow> find (seen env u s) es = None" by (auto simp: find_None_iff)
  moreover have "\<not> seen env u s e" if "0 < ucmp (uk (fst e)) u" using that by (simp add: seen_def)
  ultimately show ?case using Cons at_lookup_key [OF assms(1), of e u] by auto
qed simp

lemma read_file_seen:
  assumes "s \<le> kMaxSequenceNumber" and "table_ok env contents f" and "table_cache_ok env contents v tables (lookup_key env u s)"
    and "(level, f) \<in> version_files v"
  shows "fst (read_file env tables u (lookup_key env u s) level f st) = map_option (outcome env) (find (seen env u s) (contents (number f)))"
proof -
  let ?es = "contents (number f)"
  from assms(2) have es: "sorted_wrt (\<lambda>a b. icmp (fst a) (fst b) < 0) ?es" "\<forall>e\<in>set ?es. parses (vs_coding env) (fst e)"
    by (auto simp: table_ok_def Let_def)
  have save: "SaveValue env u k x (kNotFound, []) =
      (if seen env u s (k, x) then if ptype (pk k) = kTypeValue then (kFound, x) else (kDeleted, []) else (kNotFound, []))"
    if "find (\<lambda>e. \<not> icmp (fst e) (lookup_key env u s) < 0) ?es = Some (k, x)" for k x
  proof -
    from that have "(k, x) \<in> set ?es" "\<not> icmp k (lookup_key env u s) < 0"
      using find_SomeD [OF that] by simp_all
    with es(2) have "parses (vs_coding env) k" "0 < ucmp (uk k) u \<or> seen env u s (k, x)"
      using at_lookup_key [OF assms(1), of "(k, x)" u] by auto
    then show ?thesis by (auto simp: SaveValue_def parses_def parsed_def seen_def)
  qed
  from assms(3,4) obtain r where r: "tables (number f) (file_size f) (lookup_key env u s) = Inr r"
    "r = find (\<lambda>e. \<not> icmp (fst e) (lookup_key env u s) < 0) ?es \<or> r = None \<and> (\<forall>e\<in>set ?es. ucmp (uk (fst e)) u \<noteq> 0)"
    unfolding table_cache_ok_def lookup_key_parses(2) [OF assms(1)] by fastforce
  from r(2) show ?thesis
  proof
    assume "r = find (\<lambda>e. \<not> icmp (fst e) (lookup_key env u s) < 0) ?es"
    with r(1) save find_seen [OF assms(1) es] show ?thesis
      by (auto simp: read_file_def Let_def outcome_def split: option.splits)
  next
    assume "r = None \<and> (\<forall>e\<in>set ?es. ucmp (uk (fst e)) u \<noteq> 0)"
    then have "r = None" "find (seen env u s) ?es = None" by (auto simp: find_None_iff seen_def)
    with r(1) show ?thesis by (simp add: read_file_def Let_def)
  qed
qed

section \<open>Searching the levels\<close>

lemma table_file_ok:
  assumes "table_ok env contents f"
  shows "file_ok env f" and "e \<in> set (contents (number f)) \<Longrightarrow> icmp (smallest f) (fst e) \<le> 0 \<and> icmp (fst e) (largest f) \<le> 0"
proof -
  let ?es = "contents (number f)"
  from assms have t: "?es \<noteq> []" "sorted_wrt (\<lambda>a b. icmp (fst a) (fst b) < 0) ?es" "\<forall>e\<in>set ?es. parses (vs_coding env) (fst e)"
    "smallest f = fst (?es ! 0)" "largest f = fst (?es ! (length ?es - 1))"
    by (auto simp: table_ok_def Let_def hd_conv_nth last_conv_nth)
  have le: "icmp (fst (?es ! i)) (fst (?es ! j)) \<le> 0" if "i \<le> j" "j < length ?es" for i j
    using that t(2) by (cases "i = j") (auto simp: sorted_wrt_iff_nth_less i.cmp_refl intro: less_imp_le)
  with t show "file_ok env f" by (simp add: file_ok_def)
  show "icmp (smallest f) (fst e) \<le> 0 \<and> icmp (fst e) (largest f) \<le> 0" if "e \<in> set ?es"
  proof -
    from that obtain i where "i < length ?es" "e = ?es ! i" by (auto simp: in_set_conv_nth)
    with t le [of 0 i] le [of i "length ?es - 1"] show ?thesis by auto
  qed
qed

lemma sort_newest_spec:
  "mset (sort_newest fs) = mset fs" "sorted_wrt (\<lambda>f g. number g \<le> number f) (sort_newest fs)"
proof -
  define ins where "ins = (\<lambda>f sorted. takeWhile (\<lambda>g. NewestFirst g f) sorted @ f # dropWhile (\<lambda>g. NewestFirst g f) sorted)"
  have mset_ins: "mset (ins f fs) = add_mset f (mset fs)" for f fs
    by (simp add: ins_def) (simp flip: mset_append)
  have sorted_ins: "sorted_wrt (\<lambda>f g. number g \<le> number f) (ins f fs)" if "sorted_wrt (\<lambda>f g. number g \<le> number f) fs" for f fs
    using that by (induction fs) (auto simp: ins_def NewestFirst_def dest: set_takeWhileD set_dropWhileD)
  have eq: "sort_newest fs = foldr ins fs []" by (simp add: sort_newest_def ins_def)
  show "mset (sort_newest fs) = mset fs" unfolding eq by (induction fs) (simp_all add: mset_ins)
  show "sorted_wrt (\<lambda>f g. number g \<le> number f) (sort_newest fs)" unfolding eq by (induction fs) (simp_all add: sorted_ins)
qed

lemma filter_option_covers:
  "\<forall>f\<in>set fs. file_ok env f \<Longrightarrow> filter_option (covers env u) fs = Some (filter (overlaps env (Some u) (Some u)) fs)"
proof (induction fs)
  case (Cons f fs)
  then have "covers env u f = Some (overlaps env (Some u) (Some u) f)"
    using u.cmp_le_swap [of "ulo env f" u] by (auto simp: covers_def file_ok_keys overlaps_def)
  with Cons show ?case by simp
qed simp

definition searched :: "Version \<Rightarrow> bytes \<Rightarrow> bytes \<Rightarrow> nat \<Rightarrow> FileRef list" where
  "searched v u key level =
     (let fs = level_files v level; i = first_at_or_after fs key
      in if level = 0 then sort_newest (filter (overlaps env (Some u) (Some u)) fs)
         else if i < length fs \<and> \<not> ucmp u (ulo env (fs ! i)) < 0 then [fs ! i] else [])"

lemma version_ok_level:
  assumes "version_ok env contents v" and "int level < kNumLevels"
  shows "\<forall>f\<in>set (level_files v level). (level, f) \<in> version_files v \<and> table_ok env contents f"
    and "0 < level \<Longrightarrow> level_sorted env (level_files v level) \<and> length (level_files v level) < 2 ^ 31"
  using assms table_file_ok(1) by (fastforce simp: version_ok_def version_files_def level_sorted_def)+

lemma version_table: "version_ok env contents v \<Longrightarrow> (level, f) \<in> version_files v \<Longrightarrow> table_ok env contents f"
  by (auto simp: version_ok_def)

lemma files_to_search_eq:
  assumes "version_ok env contents v" and "int level < kNumLevels"
  shows "files_to_search env v u key level = Some (searched v u key level)"
proof (cases "level = 0")
  case True
  have "filter_option (covers env u) (level_files v level) = Some (filter (overlaps env (Some u) (Some u)) (level_files v level))"
    by (rule filter_option_covers) (use version_ok_level(1) [OF assms] table_file_ok(1) in blast)
  moreover have "sort_newest [] = []" by (simp add: sort_newest_def)
  ultimately show ?thesis using True by (simp add: files_to_search_def searched_def Let_def)
next
  case False
  with version_ok_level(2) [OF assms] have l: "level_sorted env (level_files v level)" "length (level_files v level) < 2 ^ 31"
    by simp_all
  have "user_key_of (smallest (level_files v level ! i)) = Some (ulo env (level_files v level ! i))" if "i < length (level_files v level)" for i
    using file_ok_keys(4) [OF sorted_ok [OF l(1) that]] .
  with False FindFile_first [OF l, of key] first_le [of "level_files v level" key] show ?thesis
    by (auto simp: files_to_search_def searched_def Let_def not_less)
qed

abbreviation entries_of :: "(64 word \<Rightarrow> (bytes \<times> bytes) list) \<Rightarrow> FileRef list \<Rightarrow> (bytes \<times> bytes) list" where
  "entries_of contents fs \<equiv> concat (map (\<lambda>f. contents (number f)) fs)"

definition in_key_order :: "bytes \<Rightarrow> 64 word \<Rightarrow> (bytes \<times> bytes) list \<Rightarrow> bool" where
  "in_key_order u s es \<longleftrightarrow> sorted_wrt (\<lambda>a b. icmp (fst a) (fst b) \<le> 0) (filter (seen env u s) es)"

lemma newer_first:
  assumes v: "version_ok env contents v" and xy: "x \<in> version_files v" "y \<in> version_files v" "newer x y"
    and a: "a \<in> set (contents (number (snd x)))" "seen env u s a" and b: "b \<in> set (contents (number (snd y)))" "seen env u s b"
  shows "icmp (fst a) (fst b) < 0"
proof -
  have "ucmp (uk (fst a)) u = 0" "ucmp u (uk (fst b)) = 0"
    using a(2) b(2) u.cmp_zero_sym [of u "uk (fst b)"] by (simp_all add: seen_def)
  then have "ucmp (uk (fst a)) (uk (fst b)) = 0" by (rule u.cmp_eq_trans)
  with v xy a(1) b(1) show ?thesis unfolding version_ok_def by blast
qed

lemma table_in_order: "table_ok env contents f \<Longrightarrow> in_key_order u s (contents (number f))"
  by (auto simp: in_key_order_def table_ok_def Let_def intro: sorted_wrt_filter sorted_wrt_mono_rel [of _ "\<lambda>a b. icmp (fst a) (fst b) < 0"])

text \<open>Level 0: the newest file first.\<close>

lemma level0_in_order:
  assumes v: "version_ok env contents v"
  shows "\<forall>f\<in>set fs. (0, f) \<in> version_files v \<and> table_ok env contents f \<Longrightarrow> sorted_wrt (\<lambda>f g. number g \<le> number f) fs \<Longrightarrow>
    distinct (map number fs) \<Longrightarrow> in_key_order u s (entries_of contents fs)"
proof (induction fs)
  case (Cons f fs)
  have "icmp (fst a) (fst b) \<le> 0"
    if "a \<in> set (contents (number f))" "seen env u s a" "g \<in> set fs" "b \<in> set (contents (number g))" "seen env u s b" for a b g
  proof -
    have "number g \<le> number f" "number f \<notin> number ` set fs" using that(3) Cons.prems by auto
    with that(3) have "number g < number f" by (metis imageI order_le_less)
    then have "newer (0, f) (0, g)" by (simp add: newer_def)
    from newer_first [OF v _ _ this] that Cons.prems(1) show ?thesis by (simp add: less_imp_le)
  qed
  with Cons table_in_order [of contents f u s] show ?case by (auto simp: in_key_order_def sorted_wrt_append)
qed (simp add: in_key_order_def)

lemma searched_level0:
  assumes "version_ok env contents v"
  shows "set (searched v u key 0) = {f \<in> set (level_files v 0). overlaps env (Some u) (Some u) f}"
    and "in_key_order u s (entries_of contents (searched v u key 0))"
proof -
  let ?fs = "filter (overlaps env (Some u) (Some u)) (level_files v 0)"
  have eq: "searched v u key 0 = sort_newest ?fs" by (simp add: searched_def)
  from mset_eq_setD [OF sort_newest_spec(1), of ?fs] show set: "set (searched v u key 0) = {f \<in> set (level_files v 0). overlaps env (Some u) (Some u) f}"
    by (auto simp: eq)
  have "mset (map number (sort_newest ?fs)) = mset (map number ?fs)" by (simp add: sort_newest_spec(1))
  from mset_eq_imp_distinct_iff [OF this] assms have "distinct (map number (searched v u key 0))"
    by (simp add: eq version_ok_def distinct_map_filter)
  with set version_ok_level(1) [OF assms, of 0] sort_newest_spec(2) [of ?fs]
  show "in_key_order u s (entries_of contents (searched v u key 0))"
    by (intro level0_in_order [OF assms]) (auto simp: eq kNumLevels_def)
qed

text \<open>A level above 0: the one file that may hold the first seen entry.\<close>

lemma seen_in_file:
  assumes "table_ok env contents f" and "e \<in> set (contents (number f))" and "seen env u s e"
  shows "overlaps env (Some u) (Some u) f"
proof -
  have p: "parses (vs_coding env) (smallest f)" "parses (vs_coding env) (largest f)" "parses (vs_coding env) (fst e)"
    using table_file_ok(1) [OF assms(1)] assms(1,2) by (auto simp: file_ok_def table_ok_def Let_def)
  have "ucmp (ulo env f) (uk (fst e)) \<le> 0" "ucmp (uk (fst e)) (uhi env f) \<le> 0"
    using table_file_ok(2) [OF assms(1,2)] p by (auto intro: user_le)
  moreover have "ucmp (uk (fst e)) u \<le> 0" "ucmp u (uk (fst e)) \<le> 0"
    using assms(3) u.cmp_zero_sym [of u "uk (fst e)"] by (simp_all add: seen_def)
  ultimately have "ucmp (ulo env f) u \<le> 0" "ucmp u (uhi env f) \<le> 0" by (blast intro: u.cmp_trans)+
  then show ?thesis by (simp add: overlaps_def)
qed

lemma searched_above:
  assumes v: "version_ok env contents v" and l: "0 < level" "int level < kNumLevels" and s: "s \<le> kMaxSequenceNumber"
    and f: "f \<in> set (level_files v level)" "e \<in> set (contents (number f))" "seen env u s e"
  shows "\<exists>e'\<in>set (entries_of contents (searched v u (lookup_key env u s) level)). seen env u s e' \<and> icmp (fst e') (fst e) \<le> 0"
proof -
  let ?fs = "level_files v level" and ?k = "lookup_key env u s"
  note sorted = version_ok_level(2) [OF v l(2,1), THEN conjunct1] and table = version_ok_level(1) [OF v l(2)]
  let ?n = "first_at_or_after ?fs ?k"
  from f(1) obtain j where j: "j < length ?fs" "f = ?fs ! j" by (auto simp: in_set_conv_nth)
  have pe: "parses (vs_coding env) (fst e)" using table f(1,2) by (auto simp: table_ok_def Let_def)
  from f(3) at_lookup_key [OF s pe] have ke: "\<not> icmp (fst e) ?k < 0" by simp
  have "\<not> icmp (largest f) ?k < 0"
    using ke table_file_ok(2) [of contents f e] table f(1,2) i.cmp_le_less_trans [of "fst e" "largest f" ?k] by blast
  with first_iff [OF sorted j(1)] j(2) have nj: "?n \<le> j" by simp
  define g where "g = ?fs ! ?n"
  have n: "?n < length ?fs" using nj j(1) by simp
  then have g: "g \<in> set ?fs" by (simp add: g_def)
  from table g have tg: "table_ok env contents g" by simp
  show ?thesis
  proof (cases "?n = j")
    case True
    then have "g = f" by (simp add: g_def j(2))
    with seen_in_file [OF tg [unfolded this] f(2,3)] u.cmp_le_swap [of "ulo env f" u] have "\<not> ucmp u (ulo env g) < 0"
      by (simp add: overlaps_def)
    then have "searched v u ?k level = [g]" using n l(1) by (simp add: searched_def Let_def g_def)
    with \<open>g = f\<close> f(2,3) show ?thesis by (auto simp: i.cmp_refl intro!: bexI [of _ e])
  next
    case False
    let ?last = "last (contents (number g))"
    from tg have last: "?last \<in> set (contents (number g))" "largest g = fst ?last" by (auto simp: table_ok_def Let_def)
    have "icmp (largest g) (smallest f) < 0" using sorted_nth [OF sorted, of ?n j] nj False j by (simp add: g_def)
    then have le: "icmp (fst ?last) (fst e) < 0"
      using table_file_ok(2) [of contents f e] table f(1,2) last(2) i.cmp_less_le_trans by metis
    have pl: "parses (vs_coding env) (fst ?last)" using tg last(1) by (auto simp: table_ok_def Let_def)
    have "\<not> icmp (fst ?last) ?k < 0" using first_iff [OF sorted n, of ?k] last(2) by (simp add: g_def)
    with at_lookup_key [OF s pl, of u] have "0 < ucmp (uk (fst ?last)) u \<or> seen env u s ?last" by simp
    moreover have "ucmp (uk (fst ?last)) u \<le> 0"
      using user_le [OF pl pe] le f(3) u.cmp_trans [of "uk (fst ?last)" "uk (fst e)" u] by (simp add: seen_def)
    ultimately have sl: "seen env u s ?last" by simp
    with seen_in_file [OF tg last(1)] u.cmp_le_swap [of "ulo env g" u] have "\<not> ucmp u (ulo env g) < 0" by (simp add: overlaps_def)
    then have "searched v u ?k level = [g]" using n l(1) by (simp add: searched_def Let_def g_def)
    with sl last(1) le show ?thesis by (auto intro!: bexI [of _ ?last])
  qed
qed

lemma searched_in_version:
  assumes "int level < kNumLevels" and "f \<in> set (searched v u key level)"
  shows "(level, f) \<in> version_files v"
  using assms mset_eq_setD [OF sort_newest_spec(1), of "filter (overlaps env (Some u) (Some u)) (level_files v level)"]
  by (auto simp: searched_def version_files_def Let_def split: if_splits)

lemma searched_level:
  assumes v: "version_ok env contents v" and l: "int level < kNumLevels" and s: "s \<le> kMaxSequenceNumber"
  shows "in_key_order u s (entries_of contents (searched v u (lookup_key env u s) level))"
    and "f \<in> set (level_files v level) \<Longrightarrow> e \<in> set (contents (number f)) \<Longrightarrow> seen env u s e \<Longrightarrow>
      \<exists>e'\<in>set (entries_of contents (searched v u (lookup_key env u s) level)). seen env u s e' \<and> icmp (fst e') (fst e) \<le> 0"
proof -
  let ?fs = "searched v u (lookup_key env u s) level"
  show "in_key_order u s (entries_of contents ?fs)"
  proof (cases "level = 0")
    case False
    then have "?fs = [] \<or> (\<exists>f. ?fs = [f])" by (auto simp: searched_def Let_def)
    moreover have "table_ok env contents f" if "?fs = [f]" for f
      by (rule version_table [OF v searched_in_version [OF l, of _ _ u "lookup_key env u s"]]) (simp add: that)
    ultimately show ?thesis using table_in_order by (auto simp: in_key_order_def)
  qed (use searched_level0(2) [OF v] in simp)
  show "\<exists>e'\<in>set (entries_of contents ?fs). seen env u s e' \<and> icmp (fst e') (fst e) \<le> 0"
    if f: "f \<in> set (level_files v level)" "e \<in> set (contents (number f))" "seen env u s e"
  proof (cases "level = 0")
    case True
    from version_ok_level(1) [OF v l] f(1) have "table_ok env contents f" by blast
    from seen_in_file [OF this f(2,3)] have "overlaps env (Some u) (Some u) f" .
    with searched_level0(1) [OF v] True f(1) have "f \<in> set ?fs" by simp
    with f(2,3) show ?thesis by (auto simp: i.cmp_refl intro!: bexI [of _ e])
  qed (use searched_above [OF v _ l s f] in simp)
qed

lemma read_files_seen:
  assumes "version_ok env contents v" and "s \<le> kMaxSequenceNumber" and "table_cache_ok env contents v tables (lookup_key env u s)"
  shows "\<forall>f\<in>set fs. (level, f) \<in> version_files v \<Longrightarrow>
    fst (read_files env tables u (lookup_key env u s) level fs st) = map_option (outcome env) (find (seen env u s) (entries_of contents fs))"
proof (induction fs arbitrary: st)
  case (Cons f fs)
  then have f: "(level, f) \<in> version_files v" by simp
  with assms(1) have "table_ok env contents f" by (rule version_table)
  from read_file_seen [OF assms(2) this assms(3) f, of st] Cons show ?case
    by (auto simp: find_append split: prod.splits option.splits)
qed simp

definition found :: "(bytes \<times> bytes) option \<Rightarrow> 'e get_result" where
  "found r = (case r of None \<Rightarrow> Get_not_found | Some e \<Rightarrow> outcome env e)"

lemma get_levels_seen:
  assumes "version_ok env contents v" and "s \<le> kMaxSequenceNumber" and "table_cache_ok env contents v tables (lookup_key env u s)"
  shows "\<forall>level\<in>set ls. int level < kNumLevels \<Longrightarrow>
    \<exists>st'. get_levels env tables v u (lookup_key env u s) ls st =
      Some (found (find (seen env u s) (entries_of contents (concat (map (searched v u (lookup_key env u s)) ls)))), st')"
proof (induction ls arbitrary: st)
  case (Cons level ls)
  let ?fs = "searched v u (lookup_key env u s) level"
  have r: "fst (read_files env tables u (lookup_key env u s) level ?fs st) = map_option (outcome env) (find (seen env u s) (entries_of contents ?fs))"
    by (rule read_files_seen [OF assms]) (use Cons.prems searched_in_version in auto)
  obtain r' st1 where rf: "read_files env tables u (lookup_key env u s) level ?fs st = (r', st1)" by (meson surj_pair)
  from Cons.IH [of st1] Cons.prems rf r files_to_search_eq [OF assms(1), of level u "lookup_key env u s"] show ?case
    by (cases r') (auto simp: found_def find_append split: option.splits)
qed (simp add: found_def)

text \<open>The entries of the searched files hold the first seen entry of the version.\<close>

lemma searched_levels_in_order:
  assumes v: "version_ok env contents v" and s: "s \<le> kMaxSequenceNumber"
  shows "\<forall>level\<in>set ls. int level < kNumLevels \<Longrightarrow> sorted_wrt (<) ls \<Longrightarrow>
    in_key_order u s (entries_of contents (concat (map (searched v u (lookup_key env u s)) ls)))"
proof (induction ls)
  case (Cons l ls)
  let ?S = "searched v u (lookup_key env u s)"
  have "icmp (fst a) (fst b) \<le> 0"
    if "f \<in> set (?S l)" "a \<in> set (contents (number f))" "seen env u s a"
      "m \<in> set ls" "g \<in> set (?S m)" "b \<in> set (contents (number g))" "seen env u s b" for a b f g m
  proof -
    have "newer (l, f) (m, g)" using that(4) Cons.prems(2) by (simp add: newer_def)
    from newer_first [OF v _ _ this] that Cons.prems(1) searched_in_version show ?thesis by (simp add: less_imp_le)
  qed
  with Cons searched_level(1) [OF v _ s, of l u] show ?case by (auto simp: in_key_order_def sorted_wrt_append)
qed (simp add: in_key_order_def)

lemma version_get_first_seen:
  assumes v: "version_ok env contents v" and s: "s \<le> kMaxSequenceNumber"
    and t: "table_cache_ok env contents v tables (lookup_key env u s)"
  shows "\<exists>r stats. Version_Get env tables v (lookup_key env u s) = Some (found r, stats) \<and>
    (case r of
       None \<Rightarrow> \<forall>e\<in>version_entries contents v. \<not> seen env u s e
     | Some e \<Rightarrow> e \<in> version_entries contents v \<and> seen env u s e \<and>
         (\<forall>e'\<in>version_entries contents v. seen env u s e' \<longrightarrow> icmp (fst e) (fst e') \<le> 0))"
proof -
  let ?S = "searched v u (lookup_key env u s)" and ?ls = "[0..<nat kNumLevels]"
  define W where "W = entries_of contents (concat (map ?S ?ls))"
  have ls: "\<forall>level\<in>set ?ls. int level < kNumLevels" by (auto simp: kNumLevels_def)
  have "in_key_order u s W" unfolding W_def by (rule searched_levels_in_order [OF v s ls]) simp
  then have first: "icmp (fst e) (fst e') \<le> 0" if "find (seen env u s) W = Some e" "e' \<in> set W" "seen env u s e'" for e e'
  proof -
    from that(1) obtain es where es: "filter (seen env u s) W = e # es" by (auto simp: find_hd_filter split: list.splits)
    have "e' \<in> set (filter (seen env u s) W)" using that(2,3) by simp
    then have "e' \<in> set (e # es)" unfolding es .
    with \<open>in_key_order u s W\<close> es show ?thesis by (auto simp: in_key_order_def i.cmp_refl)
  qed
  have sub: "set W \<subseteq> version_entries contents v"
    using searched_in_version ls by (fastforce simp: W_def version_entries_def)
  have cover: "\<exists>e'\<in>set W. seen env u s e' \<and> icmp (fst e') (fst e) \<le> 0" if "e \<in> version_entries contents v" "seen env u s e" for e
  proof -
    from that(1) obtain level f where f: "int level < kNumLevels" "f \<in> set (level_files v level)" "e \<in> set (contents (number f))"
      by (auto simp: version_entries_def version_files_def)
    then have "level \<in> set ?ls" by auto
    with searched_level(2) [OF v f(1) s f(2,3) that(2)] show ?thesis unfolding W_def by fastforce
  qed
  have "user_key_of (lookup_key env u s) = Some u"
    using parses_user_key [OF lookup_key_parses(1) [OF s]] lookup_key_parses(2) [OF s] by simp
  with get_levels_seen [OF v s t ls, of "\<lparr>get_stats = no_stats, last_file_read = None\<rparr>"] obtain stats where
    "Version_Get env tables v (lookup_key env u s) = Some (found (find (seen env u s) W), stats)"
    unfolding Version_Get_def W_def by auto
  moreover have "case find (seen env u s) W of
       None \<Rightarrow> \<forall>e\<in>version_entries contents v. \<not> seen env u s e
     | Some e \<Rightarrow> e \<in> version_entries contents v \<and> seen env u s e \<and>
         (\<forall>e'\<in>version_entries contents v. seen env u s e' \<longrightarrow> icmp (fst e) (fst e') \<le> 0)"
  proof (cases "find (seen env u s) W")
    case None
    then have "\<not> seen env u s e" if "e \<in> set W" for e using find_NoneD that by metis
    with cover have "\<forall>e\<in>version_entries contents v. \<not> seen env u s e" by blast
    with None show ?thesis by simp
  next
    case (Some e)
    have "icmp (fst e) (fst e') \<le> 0" if "e' \<in> version_entries contents v" "seen env u s e'" for e'
      using cover [OF that] first [OF Some] i.cmp_trans by blast
    with find_SomeD [OF Some] sub Some show ?thesis by auto
  qed
  ultimately show ?thesis by blast
qed

section \<open>What the database iterator shows\<close>

lemma live_first_seen:
  assumes d: "env_coding denv = vs_coding env" "user_comparator denv = ucmp"
    and m: "m < length es" "seen env u s (es ! m)" "\<And>j. j < m \<Longrightarrow> \<not> seen env u s (es ! j)"
  shows "live denv s es m \<longleftrightarrow> ptype (pk (fst (es ! m))) = kTypeValue"
    and "live denv s es i \<Longrightarrow> ucmp (uk (fst (es ! i))) u = 0 \<Longrightarrow> i = m"
proof -
  have key: "entry_key denv e = pk (fst e)" for e by (simp add: entry_key_def parsed_def d)
  have seen: "seen env u s (es ! i) \<longleftrightarrow> visible denv s (es ! i) \<and> ucmp (uk (fst (es ! i))) u = 0" for i
    by (auto simp: visible_def key seen_def)
  have "\<not> visible denv s (es ! j)" if "j < m" "ucmp (uk (fst (es ! j))) (uk (fst (es ! m))) = 0" for j
    using m(3) [OF that(1)] u.cmp_eq_trans [OF that(2), of u] m(2) by (auto simp: seen)
  with m(1,2) show "live denv s es m \<longleftrightarrow> ptype (pk (fst (es ! m))) = kTypeValue" by (auto simp: live_def key d(2) seen)
  show "i = m" if i: "live denv s es i" "ucmp (uk (fst (es ! i))) u = 0"
  proof -
    have "seen env u s (es ! i)" using i by (simp add: live_def seen)
    with m(3) have "m \<le> i" by (meson not_less)
    moreover have "ucmp (uk (fst (es ! m))) (uk (fst (es ! i))) = 0"
      using m(2) i(2) u.cmp_zero_sym [of u "uk (fst (es ! i))"] u.cmp_eq_trans [of _ u] by (simp add: seen)
    then have "\<not> m < i" using i(1) m(2) by (auto simp: live_def key d(2) seen)
    ultimately show ?thesis by simp
  qed
qed

lemma user_entries_lookup:
  assumes d: "env_coding denv = vs_coding env" "user_comparator denv = ucmp"
  shows "find (\<lambda>x. ucmp (fst x) u = 0) (user_entries denv s es) =
    (case find (seen env u s) es of
       None \<Rightarrow> None
     | Some e \<Rightarrow> if ptype (pk (fst e)) = kTypeValue then Some (uk (fst e), snd e) else None)"
proof -
  let ?P = "\<lambda>x :: bytes \<times> bytes. ucmp (fst x) u = 0"
  have key: "entry_key denv e = pk (fst e)" for e by (simp add: entry_key_def parsed_def d)
  have shown: "x \<in> set (user_entries denv s es) \<longleftrightarrow> (\<exists>i. live denv s es i \<and> x = (uk (fst (es ! i)), snd (es ! i)))" for x
    by (auto simp: user_entries_def shown_def key live_def)
  show ?thesis
  proof (cases "find (seen env u s) es")
    case None
    have "\<not> seen env u s (es ! i)" if "i < length es" for i using find_NoneD [OF None] that by simp
    then have "find ?P (user_entries denv s es) = None"
      by (intro find_NoneI) (auto simp: shown live_def visible_def key seen_def)
    with None show ?thesis by simp
  next
    case (Some e)
    then obtain m where e: "e = es ! m" and m: "m < length es" "seen env u s (es ! m)" "\<And>j. j < m \<Longrightarrow> \<not> seen env u s (es ! j)"
      by (auto simp: find_Some_iff)
    note live_m = live_first_seen [OF d m]
    have only: "x = (uk (fst e), snd e) \<and> live denv s es m" if "x \<in> set (user_entries denv s es)" "?P x" for x
      using that live_m(2) by (auto simp: shown e)
    show ?thesis
    proof (cases "ptype (pk (fst e)) = kTypeValue")
      case True
      have "(uk (fst e), snd e) \<in> set (user_entries denv s es)" using True live_m(1) by (auto simp: shown e)
      moreover have "?P (uk (fst e), snd e)" using m(2) by (simp add: seen_def e)
      ultimately have "find ?P (user_entries denv s es) = Some (uk (fst e), snd e)"
        by (rule find_unique) (use only in blast)
      with True Some show ?thesis by simp
    next
      case False
      have "find ?P (user_entries denv s es) = None"
        by (intro find_NoneI) (use False only live_m(1) e in blast)
      with False Some show ?thesis by simp
    qed
  qed
qed

lemma find_first_seen:
  assumes "sorted_wrt (\<lambda>a b. icmp (fst a) (fst b) < 0) es"
    and "e \<in> set es" "seen env u s e" "\<And>e'. e' \<in> set es \<Longrightarrow> seen env u s e' \<Longrightarrow> icmp (fst e) (fst e') \<le> 0"
  shows "find (seen env u s) es = Some e"
  using assms
proof (induction es)
  case (Cons x es)
  show ?case
  proof (cases "seen env u s x")
    case True
    with Cons.prems(1,2,4) have "icmp (fst e) (fst x) \<le> 0" "e = x \<or> icmp (fst x) (fst e) < 0" by auto
    with i.cmp_swap [of "fst x" "fst e"] True show ?thesis by auto
  qed (use Cons in auto)
qed simp

end

text \<open>
  C4: Looking up a user key at a snapshot in a version returns what the database iterator over all entries of the version shows
  for that key at that snapshot: the value of the newest entry the snapshot sees, or not found if there is none or it is a
  deletion. The lookup reads level by level, and in a level above 0 only one file.
\<close>

theorem version_get_shows:
  assumes "vset_laws env" and "version_ok env contents v" and "s \<le> kMaxSequenceNumber"
    and "table_cache_ok env contents v tables (lookup_key env u s)"
    and "sorted_wrt (\<lambda>a b. vs_icmp env (fst a) (fst b) < 0) es" and "set es = version_entries contents v"
    and "env_coding denv = vs_coding env" and "user_comparator denv = vs_ucmp env"
  shows "\<exists>stats. Version_Get env tables v (lookup_key env u s) =
    Some (case find (\<lambda>e. vs_ucmp env (fst e) u = 0) (user_entries denv s es) of
            None \<Rightarrow> Get_not_found | Some e \<Rightarrow> Get_found (snd e), stats)"
proof -
  note vs = vset.intro [OF assms(1)]
  from vset.version_get_first_seen [OF vs assms(2-4)] obtain r stats where
    get: "Version_Get env tables v (lookup_key env u s) = Some (vset.found env r, stats)"
    and r: "case r of
       None \<Rightarrow> \<forall>e\<in>version_entries contents v. \<not> seen env u s e
     | Some e \<Rightarrow> e \<in> version_entries contents v \<and> seen env u s e \<and>
         (\<forall>e'\<in>version_entries contents v. seen env u s e' \<longrightarrow> vs_icmp env (fst e) (fst e') \<le> 0)" by blast
  have "find (seen env u s) es = r"
    using r vset.find_first_seen [OF vs assms(5)] by (cases r) (auto simp: find_None_iff assms(6))
  with get vset.user_entries_lookup [OF vs assms(7,8), of u s es] show ?thesis
    by (auto simp: vset.found_def [OF vs] outcome_def split: option.splits)
qed

text \<open>A version whose level 0 deletes a key that level 1 still holds.\<close>

definition sample_contents :: "64 word \<Rightarrow> (bytes \<times> bytes) list" where
  "sample_contents n =
     (if n = 5 then [(version 97 9 kTypeDeletion, [])]
      else [(version 97 4 kTypeValue, [1]), (version 98 5 kTypeValue, [2])])"

definition sample_version :: Version where
  "sample_version =
     \<lparr>level_files =
        (\<lambda>l. if l = 0 then [table_file 5 (version 97 9 kTypeDeletion) (version 97 9 kTypeDeletion)]
             else if l = 1 then [table_file 3 (version 97 4 kTypeValue) (version 98 5 kTypeValue)] else []),
      file_to_compact = None, file_to_compact_level = -1, score_exceeds = False, compaction_level = -1\<rparr>"

definition sample_tables :: "unit table_cache" where
  "sample_tables n sz k = Inr (find (\<lambda>e. \<not> internal_compare (fst e) k < 0) (sample_contents n))"

lemma sample_version_files:
  "version_files sample_version =
     {(0, table_file 5 (version 97 9 kTypeDeletion) (version 97 9 kTypeDeletion)),
      (1, table_file 3 (version 97 4 kTypeValue) (version 98 5 kTypeValue))}"
  by (auto simp: version_files_def sample_version_def kNumLevels_def split: if_splits)

lemma sample_version_ok: "version_ok plain_vset sample_contents sample_version"
proof -
  have "sorted_wrt P (level_files sample_version l) \<and> length (level_files sample_version l) < 2 ^ 31" for P l
    by (simp add: sample_version_def)
  moreover have "distinct (map number (level_files sample_version 0))" by (simp add: sample_version_def)
  moreover have "\<forall>(level, f)\<in>version_files sample_version. table_ok plain_vset sample_contents f"
    by (simp add: sample_version_files table_ok_def sample_contents_def plain_version bytes_compare_single)
  moreover have "\<forall>x\<in>version_files sample_version. \<forall>y\<in>version_files sample_version. newer x y \<longrightarrow>
        (\<forall>a\<in>set (sample_contents (number (snd x))). \<forall>b\<in>set (sample_contents (number (snd y))).
           bytes_compare (user_key (parsed plain_coding (fst a))) (user_key (parsed plain_coding (fst b))) = 0 \<longrightarrow>
           internal_compare (fst a) (fst b) < 0)"
    by (simp add: sample_version_files newer_def sample_contents_def plain_version bytes_compare_single)
  ultimately show ?thesis by (simp add: version_ok_def)
qed

lemma sample_tables_ok: "table_cache_ok plain_vset sample_contents sample_version sample_tables k"
  by (auto simp: table_cache_ok_def sample_tables_def)

definition sample_entries :: "(bytes \<times> bytes) list" where
  "sample_entries = [(version 97 9 kTypeDeletion, []), (version 97 4 kTypeValue, [1]), (version 98 5 kTypeValue, [2])]"

lemma sample_entries_view:
  "find (\<lambda>e. bytes_compare (fst e) [97] = 0) (user_entries memtable_env 9 sample_entries) = None"
  "find (\<lambda>e. bytes_compare (fst e) [97] = 0) (user_entries memtable_env 8 sample_entries) = Some ([97], [1])"
  using plain.user_entries_lookup [of memtable_env "[97]" 9 sample_entries] plain.user_entries_lookup [of memtable_env "[97]" 8 sample_entries]
  by (simp_all add: memtable_env_def sample_entries_def seen_def plain_version bytes_compare_single)

theorem version_get_shows_witness:
  "(\<exists>stats. Version_Get plain_vset sample_tables sample_version (lookup_key plain_vset [97] 9) = Some (Get_not_found, stats)) \<and>
   (\<exists>stats. Version_Get plain_vset sample_tables sample_version (lookup_key plain_vset [97] 8) = Some (Get_found [1], stats))"
proof -
  have s: "sorted_wrt (\<lambda>a b. vs_icmp plain_vset (fst a) (fst b) < 0) sample_entries"
    by (simp add: sample_entries_def plain_version bytes_compare_single)
  have e: "set sample_entries = version_entries sample_contents sample_version"
    by (auto simp: sample_entries_def version_entries_def sample_version_files sample_contents_def)
  have d: "env_coding memtable_env = vs_coding plain_vset" "user_comparator memtable_env = vs_ucmp plain_vset"
    by (simp_all add: memtable_env_def)
  note get = version_get_shows [OF plain_vset_laws sample_version_ok plain_sequence sample_tables_ok s e d, of _ "[97]"]
  from get [of 9] get [of 8] show ?thesis by (simp add: sample_entries_view)
qed

end
