(* ===== verification/Compaction_Spec.thy ===== *)
theory Compaction_Spec
  imports Compaction Version_Get_Spec
begin

text \<open>
  The inputs of a compaction are closed: what stays in the level is newer than what moves to the next one, and what stays in
  the next level has no user key in common with the inputs from the level above.
\<close>

section \<open>Sizes\<close>

definition level_bytes :: "FileRef list \<Rightarrow> nat" where
  "level_bytes fs = (\<Sum>f\<leftarrow>fs. unat (file_size f))"

text \<open>No level holds \<open>2 ^ 62\<close> bytes.\<close>

definition sizes_ok :: "Version \<Rightarrow> bool" where
  "sizes_ok v \<longleftrightarrow> (\<forall>level. int level < kNumLevels \<longrightarrow> level_bytes (level_files v level) < 2 ^ 62)"

lemma TotalFileSize_unat:
  assumes "level_bytes fs < 2 ^ 62"
  shows "sint (TotalFileSize fs) = int (level_bytes fs)"
proof -
  have "unat (fold (\<lambda>f x. x + file_size f) fs a) = unat a + level_bytes fs" if "unat a + level_bytes fs < 2 ^ 64" for a
    using that by (induction fs arbitrary: a) (auto simp: level_bytes_def unat_word_ariths)
  from this [of 0] assms have u: "unat (TotalFileSize fs) = level_bytes fs" by (simp add: TotalFileSize_def)
  have "uint (TotalFileSize fs) = int (level_bytes fs)" using u by (metis uint_nat)
  then have "uint (TotalFileSize fs) < 2 ^ 63" using assms by simp
  then have "sint (TotalFileSize fs) = uint (TotalFileSize fs)"
    unfolding sint_uint by (intro signed_take_bit_int_eq_self) (simp_all add: order_trans [of _ 0])
  with \<open>uint (TotalFileSize fs) = int (level_bytes fs)\<close> show ?thesis by simp
qed

lemma level_bytes_mono: "distinct fs \<Longrightarrow> distinct gs \<Longrightarrow> set fs \<subseteq> set gs \<Longrightarrow> level_bytes fs \<le> level_bytes gs"
  by (simp add: level_bytes_def sum_list_distinct_conv_sum_set sum_mono2)

lemma sum_below_defined:
  assumes "level_bytes fs < 2 ^ 62" and "level_bytes gs < 2 ^ 62"
  shows "\<exists>b. sum_below (TotalFileSize fs) (TotalFileSize gs) bound = Some b"
  using assms by (simp add: sum_below_def TotalFileSize_unat)

section \<open>Ranges\<close>

lemma icompare_ok: "a \<noteq> [] \<Longrightarrow> b \<noteq> [] \<Longrightarrow> icompare env a b = Some (vs_icmp env a b)"
  by (simp add: icompare_def InternalKey_Compare_def InternalKey_Encode_def)

lemma file_ok_nonempty: "file_ok env f \<Longrightarrow> smallest f \<noteq> [] \<and> largest f \<noteq> []"
  by (auto simp: file_ok_def dest: parses_nonempty)

context vset
begin

definition spans :: "InternalKey \<Rightarrow> InternalKey \<Rightarrow> FileRef set \<Rightarrow> bool" where
  "spans lo hi S \<longleftrightarrow> lo \<in> smallest ` S \<and> hi \<in> largest ` S \<and> (\<forall>f\<in>S. icmp lo (smallest f) \<le> 0 \<and> icmp (largest f) hi \<le> 0)"

lemma spans_insert:
  assumes "spans lo hi S"
  shows "spans (if icmp (smallest f) lo < 0 then smallest f else lo) (if 0 < icmp (largest f) hi then largest f else hi) (insert f S)"
proof -
  have lo: "icmp (smallest f) (smallest g) \<le> 0" if "icmp (smallest f) lo < 0" "g \<in> S" for g
    using that assms i.cmp_less_le_trans [of "smallest f" lo "smallest g"] by (auto simp: spans_def intro: less_imp_le)
  have hi: "icmp (largest g) (largest f) \<le> 0" if "0 < icmp (largest f) hi" "g \<in> S" for g
  proof -
    from that(1) have "icmp hi (largest f) < 0" using i.cmp_swap [of hi "largest f"] by simp
    with that(2) assms i.cmp_le_less_trans [of "largest g" hi "largest f"] show ?thesis by (auto simp: spans_def)
  qed
  show ?thesis
    using assms lo hi i.cmp_swap [of lo "smallest f"] i.cmp_le_swap [of lo "smallest f"]
    by (auto simp: spans_def i.cmp_refl not_less)
qed

lemma get_range_loop_spans:
  "\<forall>f\<in>set fs. file_ok env f \<Longrightarrow> lo \<noteq> [] \<Longrightarrow> hi \<noteq> [] \<Longrightarrow> spans lo hi S \<Longrightarrow>
    \<exists>lo' hi'. get_range_loop env fs lo hi = Some (lo', hi') \<and> spans lo' hi' (S \<union> set fs)"
proof (induction fs arbitrary: lo hi S)
  case (Cons f fs)
  then have ok: "file_ok env f" by simp
  from Cons.IH [OF _ _ _ spans_insert [OF Cons.prems(4), of f]] Cons.prems file_ok_nonempty [OF ok] show ?case
    by (auto simp: icompare_ok)
qed simp

lemma GetRange_spans:
  assumes "fs \<noteq> []" and "\<forall>f\<in>set fs. file_ok env f"
  shows "\<exists>lo hi. GetRange env fs = Some (lo, hi) \<and> spans lo hi (set fs)"
proof -
  from assms(1) obtain f gs where fs: "fs = f # gs" by (cases fs) auto
  have "spans (smallest f) (largest f) {f}" by (simp add: spans_def i.cmp_refl)
  with get_range_loop_spans [of gs "smallest f" "largest f" "{f}"] assms(2) file_ok_nonempty [of env f] show ?thesis
    by (auto simp: fs GetRange_def)
qed

section \<open>Boundary files\<close>

definition top_key :: "InternalKey \<Rightarrow> FileRef set \<Rightarrow> bool" where
  "top_key k S \<longleftrightarrow> k \<in> largest ` S \<and> (\<forall>f\<in>S. icmp (largest f) k \<le> 0)"

lemma largest_key_loop_top:
  "\<forall>f\<in>set fs. file_ok env f \<Longrightarrow> k \<noteq> [] \<Longrightarrow> top_key k S \<Longrightarrow>
    \<exists>k'. largest_key_loop env fs k = Some k' \<and> top_key k' (S \<union> set fs)"
proof (induction fs arbitrary: k S)
  case (Cons f fs)
  then have ok: "file_ok env f" by simp
  have "top_key (if 0 < icmp (largest f) k then largest f else k) (insert f S)"
    using Cons.prems(3) i.cmp_swap [of k "largest f"] i.cmp_trans [of _ k "largest f"]
    by (auto simp: top_key_def i.cmp_refl not_less)
  from Cons.IH [OF _ _ this] Cons.prems file_ok_nonempty [OF ok] show ?case by (auto simp: icompare_ok)
qed simp

lemma FindLargestKey_top:
  assumes "fs \<noteq> []" and "\<forall>f\<in>set fs. file_ok env f"
  shows "\<exists>k. FindLargestKey env fs = Some (Some k) \<and> top_key k (set fs)"
proof -
  from assms(1) obtain f gs where fs: "fs = f # gs" by (cases fs) auto
  have "top_key (largest f) {f}" by (simp add: top_key_def i.cmp_refl)
  with largest_key_loop_top [of gs "largest f" "{f}"] assms(2) file_ok_nonempty [of env f] show ?thesis
    by (auto simp: fs FindLargestKey_def)
qed

definition boundary :: "InternalKey \<Rightarrow> FileRef \<Rightarrow> bool" where
  "boundary k f \<longleftrightarrow> icmp k (smallest f) < 0 \<and> ucmp (ulo env f) (uk k) = 0"

definition best_boundary :: "InternalKey \<Rightarrow> FileRef set \<Rightarrow> FileRef option \<Rightarrow> bool" where
  "best_boundary k S b \<longleftrightarrow>
     (case b of
        None \<Rightarrow> \<forall>f\<in>S. \<not> boundary k f
      | Some f \<Rightarrow> f \<in> S \<and> boundary k f \<and> (\<forall>g\<in>S. boundary k g \<longrightarrow> icmp (smallest f) (smallest g) \<le> 0))"

lemma boundary_loop_best:
  assumes "parses (vs_coding env) k"
  shows "\<forall>f\<in>set fs \<union> S. file_ok env f \<Longrightarrow> best_boundary k S b \<Longrightarrow>
    \<exists>b'. boundary_loop env k fs b = Some b' \<and> best_boundary k (S \<union> set fs) b'"
proof (induction fs arbitrary: b S)
  case (Cons f fs)
  then have ok: "file_ok env f" by simp
  note ne = file_ok_nonempty [OF ok] and knz = parses_nonempty [OF assms]
  define b' where "b' = (if boundary k f then (case b of None \<Rightarrow> Some f | Some g \<Rightarrow> if icmp (smallest f) (smallest g) < 0 then Some f else b) else b)"
  have "boundary_loop env k (f # fs) b = boundary_loop env k fs b'"
  proof -
    have "file_ok env g" if "b = Some g" for g using that Cons.prems by (auto simp: best_boundary_def)
    then have cmp: "icompare env (smallest f) (smallest g) = Some (icmp (smallest f) (smallest g))" if "b = Some g" for g
      using that ne file_ok_nonempty by (simp add: icompare_ok)
    show ?thesis
      using ne knz file_ok_keys(4) [OF ok] parses_user_key [OF assms] i.cmp_swap [of k "smallest f"] cmp
      by (cases b) (simp_all add: icompare_ok boundary_def b'_def)
  qed
  moreover have "best_boundary k (insert f S) b'"
  proof (cases b)
    case None
    with Cons.prems(2) show ?thesis by (auto simp: best_boundary_def b'_def i.cmp_refl)
  next
    case (Some g)
    with Cons.prems(2) i.cmp_swap [of "smallest g" "smallest f"] i.cmp_le_swap [of "smallest g" "smallest f"]
      i.cmp_less_le_trans [of "smallest f" "smallest g"] show ?thesis
      by (auto simp: best_boundary_def b'_def i.cmp_refl not_less intro: less_imp_le)
  qed
  ultimately show ?case using Cons.IH [of "insert f S" b'] Cons.prems(1) ok by auto
qed simp

lemma FindSmallestBoundaryFile_best:
  assumes "parses (vs_coding env) k" and "\<forall>f\<in>set fs. file_ok env f"
  shows "\<exists>b. FindSmallestBoundaryFile env fs k = Some b \<and> best_boundary k (set fs) b"
  using boundary_loop_best [OF assms(1), of fs "{}" None] assms(2) by (auto simp: FindSmallestBoundaryFile_def best_boundary_def)

text \<open>\<open>before f g\<close>: all of \<open>f\<close> comes before \<open>g\<close>. A set of files is convex when it has no gaps.\<close>

definition before :: "FileRef \<Rightarrow> FileRef \<Rightarrow> bool" where
  "before f g \<longleftrightarrow> icmp (largest f) (smallest g) < 0"

definition convex :: "FileRef list \<Rightarrow> FileRef set \<Rightarrow> bool" where
  "convex fs S \<longleftrightarrow> (\<forall>f\<in>S. \<forall>h\<in>S. \<forall>g\<in>set fs. before f g \<and> before g h \<longrightarrow> g \<in> S)"

lemma convexD: "convex fs S \<Longrightarrow> f \<in> S \<Longrightarrow> h \<in> S \<Longrightarrow> g \<in> set fs \<Longrightarrow> before f g \<Longrightarrow> before g h \<Longrightarrow> g \<in> S"
  unfolding convex_def by blast

lemma before_total:
  assumes "level_sorted env fs" and "f \<in> set fs" and "g \<in> set fs" and "f \<noteq> g"
  shows "before f g \<or> before g f"
proof -
  from assms(2,3) obtain i j where ij: "i < length fs" "f = fs ! i" "j < length fs" "g = fs ! j" by (auto simp: in_set_conv_nth)
  with assms(4) have "i < j \<or> j < i" by (metis linorder_neqE_nat)
  with sorted_nth [OF assms(1)] ij show ?thesis by (auto simp: before_def)
qed

lemma before_keys:
  assumes "file_ok env f" and "file_ok env g" and "before f g"
  shows "icmp (largest f) (largest g) < 0" and "icmp (smallest f) (smallest g) < 0" and "ucmp (uhi env f) (ulo env g) \<le> 0"
  using assms i.cmp_less_le_trans [of "largest f" "smallest g" "largest g"] i.cmp_le_less_trans [of "smallest f" "largest f" "smallest g"]
    user_le [of "largest f" "smallest g"] by (auto simp: before_def file_ok_def)

lemma before_trans:
  assumes "file_ok env g" and "before f g" and "before g h"
  shows "before f h"
  using assms i.cmp_less_le_trans [of "largest f" "smallest g" "largest g"] i.cmp_less_trans [of "largest f" "largest g" "smallest h"]
  by (auto simp: before_def file_ok_def)

lemma before_irrefl: "file_ok env f \<Longrightarrow> \<not> before f f"
  using i.cmp_swap [of "largest f" "smallest f"] by (auto simp: before_def file_ok_def)

text \<open>The best boundary file extends a convex set by its right neighbour.\<close>

lemma boundary_above:
  assumes "top_key k S" and "\<forall>f\<in>S. file_ok env f" and "file_ok env f" and "boundary k f"
  shows "f \<notin> S" and "top_key (largest f) (insert f S)" and "\<forall>g\<in>S. before g f"
proof -
  have kf: "icmp k (smallest f) < 0" using assms(4) by (simp add: boundary_def)
  then show b: "\<forall>g\<in>S. before g f" using assms(1) i.cmp_le_less_trans by (auto simp: top_key_def before_def)
  with before_irrefl [OF assms(3)] show "f \<notin> S" by blast
  show "top_key (largest f) (insert f S)"
    using b before_keys(1) assms(2,3) by (auto simp: top_key_def i.cmp_refl intro: less_imp_le)
qed

lemma convex_insert_boundary:
  assumes s: "level_sorted env fs" and S: "S \<subseteq> set fs" "top_key k S" "convex fs S" and f: "best_boundary k (set fs) (Some f)"
  shows "convex fs (insert f S)"
proof -
  have ok: "\<forall>g\<in>set fs. file_ok env g" using s by (simp add: level_sorted_def)
  from f have f: "f \<in> set fs" "boundary k f" "\<And>g. g \<in> set fs \<Longrightarrow> boundary k g \<Longrightarrow> icmp (smallest f) (smallest g) \<le> 0"
    by (auto simp: best_boundary_def)
  note above = boundary_above [OF S(2) _ _ f(2)]
  from S(2) obtain p where p: "p \<in> S" "largest p = k" by (auto simp: top_key_def)
  have mid: "g \<in> S" if g: "g \<in> set fs" "h \<in> S" "before h g" "before g f" for g h
  proof (rule ccontr)
    assume "g \<notin> S"
    with p(1) have "g \<noteq> p" by auto
    from before_total [OF s g(1) _ this] p(1) S(1) have "before g p \<or> before p g" by auto
    then show False
    proof
      assume "before g p"
      from convexD [OF S(3) g(2) p(1) g(1,3) this] \<open>g \<notin> S\<close> show False by simp
    next
      assume pg: "before p g"
      have o: "file_ok env p" "file_ok env g" "file_ok env f" using ok p S(1) g(1) f(1) by auto
      have "ucmp (uk k) (ulo env g) \<le> 0" using before_keys(3) [OF o(1,2) pg] p(2) by simp
      moreover have "ucmp (ulo env g) (uk k) \<le> 0"
        by (rule u.cmp_trans [OF u.cmp_trans [OF file_user_le [OF o(2)] before_keys(3) [OF o(2,3) g(4)]]])
          (use f(2) in \<open>simp add: boundary_def\<close>)
      ultimately have "ucmp (ulo env g) (uk k) = 0" using u.cmp_le_swap [of "uk k" "ulo env g"] by simp
      with pg p(2) have "boundary k g" by (simp add: boundary_def before_def)
      with f(3) [OF g(1)] before_keys(2) [OF o(2,3) g(4)] i.cmp_swap [of "smallest g" "smallest f"] show False by simp
    qed
  qed
  have "\<not> (before f g \<and> before g h)" if g: "g \<in> set fs" "h \<in> insert f S" for g h
  proof
    assume "before f g \<and> before g h"
    with before_trans [of g f h] ok g(1) have fh: "before f h" by blast
    have "\<forall>g\<in>S. file_ok env g" "file_ok env f" using ok S(1) f(1) by auto
    with above(3) have "h = f \<or> before h f" using g(2) by blast
    moreover have "file_ok env h" using ok f(1) S(1) g(2) by auto
    ultimately have "before f f" using fh before_trans [of h f f] by blast
    with before_irrefl [of f] ok f(1) show False by blast
  qed
  with mid S(3) show ?thesis unfolding convex_def by blast
qed

lemma add_boundary_loop_ends:
  assumes ok: "\<forall>f\<in>set fs. file_ok env f"
  shows "set cf \<subseteq> set fs \<Longrightarrow> distinct cf \<Longrightarrow> top_key k (set cf) \<Longrightarrow>
    \<exists>extra k'. add_boundary_loop env fs k cf = Some (cf @ extra) \<and> set extra \<subseteq> set fs \<and> distinct (cf @ extra) \<and>
      top_key k' (set (cf @ extra)) \<and> (\<forall>g\<in>set fs. \<not> boundary k' g) \<and>
      (level_sorted env fs \<longrightarrow> convex fs (set cf) \<longrightarrow> convex fs (set (cf @ extra)))"
proof (induction "length (filter (\<lambda>f. icmp k (smallest f) < 0) fs)" arbitrary: k cf rule: less_induct)
  case less
  from less.prems(1,3) obtain p where "p \<in> set fs" "k = largest p" by (auto simp: top_key_def)
  with ok have "parses (vs_coding env) k" by (auto simp: file_ok_def)
  from FindSmallestBoundaryFile_best [OF this ok] obtain b where
    b: "FindSmallestBoundaryFile env fs k = Some b" "best_boundary k (set fs) b" by blast
  show ?case
  proof (cases b)
    case None
    with b less.prems show ?thesis
      by (intro exI [of _ "[]"] exI [of _ k]) (simp add: add_boundary_loop.simps best_boundary_def)
  next
    case (Some f)
    with b(2) have f: "f \<in> set fs" "boundary k f" by (auto simp: best_boundary_def)
    with ok have okf: "file_ok env f" by simp
    have kl: "icmp k (largest f) < 0"
      using f(2) okf i.cmp_less_le_trans [of k "smallest f" "largest f"] by (simp add: boundary_def file_ok_def)
    have m: "length (filter (\<lambda>g. icmp (largest f) (smallest g) < 0) fs) < length (filter (\<lambda>g. icmp k (smallest g) < 0) fs)"
      by (rule length_filter_smaller [where P = "\<lambda>g. icmp (largest f) (smallest g) < 0", OF i.cmp_less_trans [OF kl] f(1)])
        (use f(2) before_irrefl [OF okf] in \<open>simp_all add: boundary_def before_def\<close>)
    note above = boundary_above [OF less.prems(3) _ okf f(2)]
    have in_ok: "\<forall>g\<in>set cf. file_ok env g" using less.prems(1) ok by auto
    from less.hyps [OF m, of "cf @ [f]"] above(1,2) [OF in_ok] f(1) less.prems(1,2) obtain extra k' where
      e: "add_boundary_loop env fs (largest f) (cf @ [f]) = Some ((cf @ [f]) @ extra)" "set extra \<subseteq> set fs"
      "distinct ((cf @ [f]) @ extra)" "top_key k' (set ((cf @ [f]) @ extra))" "\<forall>g\<in>set fs. \<not> boundary k' g"
      "level_sorted env fs \<longrightarrow> convex fs (set (cf @ [f])) \<longrightarrow> convex fs (set ((cf @ [f]) @ extra))" by auto
    have "convex fs (set (cf @ [f]))" if "level_sorted env fs" "convex fs (set cf)"
      using convex_insert_boundary [OF that(1) less.prems(1,3) that(2)] b(2) Some by simp
    with e b(1) Some f(1) show ?thesis
      by (intro exI [of _ "f # extra"] exI [of _ k']) (simp add: add_boundary_loop.simps)
  qed
qed

section \<open>Closed inputs\<close>

text \<open>
  What the first choice of inputs provides: at level 0 no other file overlaps one of them, in the other levels there are no
  gaps. What the compaction needs: no file that stays behind continues a user key of an input.
\<close>

definition isolated :: "FileRef list \<Rightarrow> FileRef set \<Rightarrow> bool" where
  "isolated fs S \<longleftrightarrow> (\<forall>f\<in>S. \<forall>g\<in>set fs - S. \<not> overlaps env (Some (ulo env f)) (Some (uhi env f)) g)"

definition start_ok :: "nat \<Rightarrow> FileRef list \<Rightarrow> FileRef set \<Rightarrow> bool" where
  "start_ok level fs S \<longleftrightarrow> (if level = 0 then isolated fs S else convex fs S)"

definition closed_in :: "nat \<Rightarrow> FileRef list \<Rightarrow> FileRef set \<Rightarrow> bool" where
  "closed_in level fs S \<longleftrightarrow>
     (if level = 0 then isolated fs S
      else \<forall>f\<in>S. \<forall>g\<in>set fs - S. before f g \<longrightarrow> ucmp (uhi env f) (ulo env g) < 0)"

lemma isolated_no_boundary:
  assumes ok: "\<forall>f\<in>set fs. file_ok env f" and S: "S \<subseteq> set fs" "top_key k S" "isolated fs S" and g: "g \<in> set fs"
  shows "\<not> boundary k g"
proof
  assume b: "boundary k g"
  from S(2) obtain p where p: "p \<in> S" "largest p = k" by (auto simp: top_key_def)
  have okp: "file_ok env p" and okg: "file_ok env g" using ok S(1) p(1) g by auto
  have "\<forall>f\<in>S. file_ok env f" using ok S(1) by blast
  from boundary_above(1) [OF S(2) this okg b] have "g \<notin> S" .
  moreover have "overlaps env (Some (ulo env p)) (Some (uhi env p)) g"
  proof (rule overlaps_file [OF okg])
    show "ucmp (ulo env g) (uhi env p) \<le> 0" using b p(2) by (simp add: boundary_def)
    have "before p g" using b p(2) by (simp add: boundary_def before_def)
    from u.cmp_trans [OF file_user_le [OF okp] u.cmp_trans [OF before_keys(3) [OF okp okg this] file_user_le [OF okg]]]
    show "ucmp (ulo env p) (uhi env g) \<le> 0" .
  qed
  ultimately show False using S(3) p(1) g by (auto simp: isolated_def)
qed

lemma convex_closed:
  assumes s: "level_sorted env fs" and S: "S \<subseteq> set fs" "convex fs S" "top_key k S" and nb: "\<forall>g\<in>set fs. \<not> boundary k g"
    and f: "f \<in> S" and g: "g \<in> set fs - S" and fg: "before f g"
  shows "ucmp (uhi env f) (ulo env g) < 0"
proof (rule ccontr)
  have ok: "\<forall>g\<in>set fs. file_ok env g" using s by (simp add: level_sorted_def)
  from S(3) obtain p where p: "p \<in> S" "largest p = k" by (auto simp: top_key_def)
  have o: "file_ok env f" "file_ok env g" "file_ok env p" using ok S(1) f g p(1) by auto
  assume "\<not> ucmp (uhi env f) (ulo env g) < 0"
  then have "ucmp (ulo env g) (uhi env f) \<le> 0" using u.cmp_le_swap [of "ulo env g" "uhi env f"] by simp
  moreover have "ucmp (uhi env f) (uk k) \<le> 0"
    using S(3) f o p by (intro user_le) (auto simp: top_key_def file_ok_def)
  ultimately have le: "ucmp (ulo env g) (uk k) \<le> 0" by (rule u.cmp_trans)
  have "g \<noteq> p" using p(1) g by auto
  then consider "before g p" | "before p g" using before_total [OF s, of g p] g p(1) S(1) by blast
  then show False
  proof cases
    case 1
    from convexD [OF S(2) f p(1) _ fg 1] g show False by simp
  next
    case 2
    with before_keys(3) [OF o(3,2) 2] le p(2) u.cmp_le_swap [of "uk k" "ulo env g"] have "boundary k g"
      by (simp add: boundary_def before_def)
    with nb g show False by simp
  qed
qed

lemma AddBoundaryInputs_closed:
  assumes ok: "\<forall>f\<in>set fs. file_ok env f" and sorted: "level \<noteq> 0 \<Longrightarrow> level_sorted env fs"
    and cf: "cf \<noteq> []" "set cf \<subseteq> set fs" "distinct cf" "start_ok level fs (set cf)"
  shows "\<exists>extra. AddBoundaryInputs env fs cf = Some (cf @ extra) \<and> set extra \<subseteq> set fs \<and> distinct (cf @ extra) \<and>
    closed_in level fs (set (cf @ extra))"
proof -
  have "\<forall>f\<in>set cf. file_ok env f" using ok cf(2) by auto
  from FindLargestKey_top [OF cf(1) this] obtain k where k: "FindLargestKey env cf = Some (Some k)" "top_key k (set cf)" by blast
  from add_boundary_loop_ends [OF ok cf(2,3) k(2)] obtain extra k' where
    e: "add_boundary_loop env fs k cf = Some (cf @ extra)" "set extra \<subseteq> set fs" "distinct (cf @ extra)"
    "top_key k' (set (cf @ extra))" "\<forall>g\<in>set fs. \<not> boundary k' g"
    "level_sorted env fs \<longrightarrow> convex fs (set cf) \<longrightarrow> convex fs (set (cf @ extra))" by blast
  have "closed_in level fs (set (cf @ extra))"
  proof (cases "level = 0")
    case True
    with cf(4) have iso: "isolated fs (set cf)" by (simp add: start_ok_def)
    from k(2) cf(2) ok have "parses (vs_coding env) k" by (auto simp: top_key_def file_ok_def)
    from FindSmallestBoundaryFile_best [OF this ok] isolated_no_boundary [OF ok cf(2) k(2) iso]
    have "FindSmallestBoundaryFile env fs k = Some None" by (auto simp: best_boundary_def split: option.splits)
    with e(1) have "extra = []" by (simp add: add_boundary_loop.simps)
    with True iso show ?thesis by (simp add: closed_in_def)
  next
    case False
    with cf(4) e(6) sorted have "convex fs (set (cf @ extra))" by (simp add: start_ok_def)
    with convex_closed [OF sorted [OF False] _ this e(4,5)] cf(2) e(2) False show ?thesis by (simp add: closed_in_def)
  qed
  with e(1-3) k(1) show ?thesis by (auto simp: AddBoundaryInputs_def)
qed

text \<open>The overlapping inputs are such a choice.\<close>

lemma overlapping_convex:
  assumes "level_sorted env fs"
  shows "convex fs (set (filter (overlaps env lo hi) fs))"
  unfolding convex_def
proof (intro ballI impI)
  fix f h g
  assume fh: "f \<in> set (filter (overlaps env lo hi) fs)" "h \<in> set (filter (overlaps env lo hi) fs)" and g: "g \<in> set fs"
    and b: "before f g \<and> before g h"
  have o: "file_ok env f" "file_ok env g" "file_ok env h" using assms fh g by (auto simp: level_sorted_def)
  have "ucmp (uhi env f) (uhi env g) \<le> 0" using u.cmp_trans [OF before_keys(3) [OF o(1,2)] file_user_le [OF o(2)]] b by blast
  moreover have "ucmp (ulo env g) (ulo env h) \<le> 0" using u.cmp_trans [OF file_user_le [OF o(2)] before_keys(3) [OF o(2,3)]] b by blast
  ultimately have "case lo of None \<Rightarrow> True | Some x \<Rightarrow> ucmp x (uhi env g) \<le> 0" "case hi of None \<Rightarrow> True | Some x \<Rightarrow> ucmp (ulo env g) x \<le> 0"
    using fh u.cmp_trans [of _ "uhi env f" "uhi env g"] u.cmp_trans [of "ulo env g" "ulo env h"]
    by (auto simp: overlaps_def split: option.splits)
  then have "overlaps env lo hi g" by (simp add: overlaps_def)
  with g show "g \<in> set (filter (overlaps env lo hi) fs)" by simp
qed

lemma connected_isolated: "isolated fs (set (filter (connected env fs lo hi) fs))"
  by (auto simp: isolated_def dest: by_file)

lemma selected_start_ok:
  assumes "level \<noteq> 0 \<Longrightarrow> level_sorted env fs"
  shows "start_ok level fs (set (filter (selected level fs lo hi) fs))"
  using assms overlapping_convex connected_isolated by (cases "level = 0") (simp_all add: start_ok_def selected_def [abs_def])

section \<open>Setting up the inputs\<close>

definition levels_ok :: "Version \<Rightarrow> bool" where
  "levels_ok v \<longleftrightarrow>
     (\<forall>level. int level < kNumLevels \<longrightarrow>
        (\<forall>f\<in>set (level_files v level). file_ok env f) \<and> distinct (level_files v level) \<and>
        (level \<noteq> 0 \<longrightarrow> level_sorted env (level_files v level)))"

lemma sorted_distinct:
  assumes "level_sorted env fs"
  shows "distinct fs"
proof -
  have "fs ! i \<noteq> fs ! j" if "i < j" "j < length fs" for i j
    using sorted_nth [OF assms that] before_irrefl [OF sorted_ok [OF assms that(2)]] by (auto simp: before_def)
  then show ?thesis by (metis distinct_conv_nth linorder_neqE_nat)
qed

lemma version_levels_ok: "version_ok env contents v \<Longrightarrow> levels_ok v"
  unfolding levels_ok_def
proof (intro allI impI conjI)
  assume v: "version_ok env contents v"
  fix level assume l: "int level < kNumLevels"
  show "\<forall>f\<in>set (level_files v level). file_ok env f" using version_ok_level(1) [OF v l] table_file_ok(1) by blast
  show sorted: "level_sorted env (level_files v level)" if "level \<noteq> 0" using version_ok_level(2) [OF v l] that by simp
  show "distinct (level_files v level)"
    using v sorted sorted_distinct by (cases "level = 0") (auto simp: version_ok_def distinct_map)
qed

lemma levels_okD:
  assumes "levels_ok v" and "int level < kNumLevels"
  shows "\<forall>f\<in>set (level_files v level). file_ok env f" and "distinct (level_files v level)"
    and "level \<noteq> 0 \<Longrightarrow> level_sorted env (level_files v level)"
  using assms unfolding levels_ok_def by blast+

definition good_inputs :: "Version \<Rightarrow> nat \<Rightarrow> FileRef list \<Rightarrow> FileRef list \<Rightarrow> InternalKey \<Rightarrow> bool" where
  "good_inputs v level in0 in1 hi \<longleftrightarrow>
     in0 \<noteq> [] \<and> set in0 \<subseteq> set (level_files v level) \<and> distinct in0 \<and> closed_in level (level_files v level) (set in0) \<and>
     (\<exists>lo. spans lo hi (set in0) \<and> in1 = filter (overlaps env (Some (uk lo)) (Some (uk hi))) (level_files v (level + 1)))"

lemma overlapping_inputs_selected:
  assumes "levels_ok v" and "int level < kNumLevels" and "parses (vs_coding env) lo" and "parses (vs_coding env) hi"
  shows "GetOverlappingInputs env v level (Some lo) (Some hi) =
    Some (filter (selected level (level_files v level) (Some (uk lo)) (Some (uk hi))) (level_files v level))"
  using assms overlapping_loop_selects [of "level_files v level" level] parses_user_key [OF assms(3)] parses_user_key [OF assms(4)]
  by (simp add: GetOverlappingInputs_def user_bound_def levels_ok_def)

lemma spans_parses:
  assumes "spans lo hi S" and "\<forall>f\<in>S. file_ok env f"
  shows "parses (vs_coding env) lo" and "parses (vs_coding env) hi"
  using assms by (auto simp: spans_def file_ok_def)

lemma spans_overlaps:
  assumes "spans lo hi S" and "\<forall>f\<in>S. file_ok env f" and "f \<in> S"
  shows "overlaps env (Some (uk lo)) (Some (uk hi)) f"
proof -
  note p = spans_parses [OF assms(1,2)]
  from assms have f: "file_ok env f" by simp
  have "ucmp (uk lo) (ulo env f) \<le> 0" "ucmp (uhi env f) (uk hi) \<le> 0"
    using assms(1,3) f p by (auto simp: spans_def file_ok_def intro: user_le)
  with u.cmp_trans [OF _ file_user_le [OF f]] u.cmp_trans [OF file_user_le [OF f]] show ?thesis by (simp add: overlaps_def)
qed

text \<open>From a first choice of files to the inputs of both levels.\<close>

lemma gather_inputs:
  assumes v: "levels_ok v" "int (level + 1) < kNumLevels"
    and cf: "cf \<noteq> []" "set cf \<subseteq> set (level_files v level)" "distinct cf" "start_ok level (level_files v level) (set cf)"
  shows "\<exists>in0 lo hi in1. AddBoundaryInputs env (level_files v level) cf = Some in0 \<and> GetRange env in0 = Some (lo, hi) \<and>
    GetOverlappingInputs env v (level + 1) (Some lo) (Some hi) = Some in1 \<and> good_inputs v level in0 in1 hi \<and> set cf \<subseteq> set in0"
proof -
  let ?fs = "level_files v level"
  have "int level < kNumLevels" using v(2) by simp
  note ok = levels_okD(1,3) [OF v(1) this]
  from AddBoundaryInputs_closed [OF ok cf] obtain extra where
    e: "AddBoundaryInputs env ?fs cf = Some (cf @ extra)" "set extra \<subseteq> set ?fs" "distinct (cf @ extra)" "closed_in level ?fs (set (cf @ extra))"
    by blast
  have ok': "\<forall>f\<in>set (cf @ extra). file_ok env f" using ok(1) cf(2) e(2) by auto
  from GetRange_spans [OF _ ok'] cf(1) obtain lo hi where r: "GetRange env (cf @ extra) = Some (lo, hi)" "spans lo hi (set (cf @ extra))"
    by auto
  note p = spans_parses [OF r(2) ok']
  have "GetOverlappingInputs env v (level + 1) (Some lo) (Some hi) =
      Some (filter (overlaps env (Some (uk lo)) (Some (uk hi))) (level_files v (level + 1)))"
    using overlapping_inputs_selected [OF v(1,2) p] by (simp add: selected_def [abs_def])
  with e r cf(1,2) show ?thesis unfolding good_inputs_def by auto
qed

lemma inputs_files_ok:
  assumes "levels_ok v" and "int (level + 1) < kNumLevels" and "good_inputs v level in0 in1 hi"
  shows "\<forall>f\<in>set in0 \<union> set in1. file_ok env f" and "level_bytes in0 \<le> level_bytes (level_files v level)"
    and "level_bytes in1 \<le> level_bytes (level_files v (level + 1))"
proof -
  have "int level < kNumLevels" using assms(2) by simp
  note ok = levels_okD [OF assms(1) this] levels_okD [OF assms(1,2)]
  from assms(3) have sub: "set in0 \<subseteq> set (level_files v level)" "set in1 \<subseteq> set (level_files v (level + 1))" "distinct in0"
    by (auto simp: good_inputs_def)
  with ok(1,4) show "\<forall>f\<in>set in0 \<union> set in1. file_ok env f" by blast
  from assms(3) ok(5) have "distinct in1" by (auto simp: good_inputs_def)
  with ok(2,5) sub show "level_bytes in0 \<le> level_bytes (level_files v level)" "level_bytes in1 \<le> level_bytes (level_files v (level + 1))"
    by (auto intro: level_bytes_mono)
qed

lemma expand_inputs_good:
  assumes v: "levels_ok v" "sizes_ok v" "int (level + 1) < kNumLevels" and g: "good_inputs v level in0 in1 hi"
    and all: "spans (fst all) (snd all) (set in0 \<union> set in1)"
  shows "\<exists>in0' in1' hi' all'. expand_inputs env v level in0 in1 hi all = Some (in0', in1', hi', all') \<and>
    good_inputs v level in0' in1' hi' \<and> set in0 \<subseteq> set in0' \<and> spans (fst all') (snd all') (set in0' \<union> set in1')"
proof (cases "in1 = []")
  case False
  let ?fs = "level_files v level" and ?cf = "filter (selected level (level_files v level) (Some (uk (fst all))) (Some (uk (snd all)))) (level_files v level)"
  have l: "int level < kNumLevels" using v(3) by simp
  note ok = inputs_files_ok(1) [OF v(1,3) g]
  have o: "GetOverlappingInputs env v level (Some (fst all)) (Some (snd all)) = Some ?cf"
    using overlapping_inputs_selected [OF v(1) l] spans_parses [OF all ok] .
  have sub: "set in0 \<subseteq> set ?cf"
    using spans_overlaps [OF all ok] g by (auto simp: good_inputs_def selected_def intro: in_range)
  with g have "?cf \<noteq> []" unfolding good_inputs_def by (metis list.set(1) set_empty subset_empty)
  moreover have "start_ok level ?fs (set ?cf)" by (rule selected_start_ok) (rule levels_okD(3) [OF v(1) l])
  moreover have "distinct ?cf" using levels_okD(2) [OF v(1) l] by simp
  ultimately obtain e0 lo' hi' e1 where
    e: "AddBoundaryInputs env ?fs ?cf = Some e0" "GetRange env e0 = Some (lo', hi')"
    "GetOverlappingInputs env v (level + 1) (Some lo') (Some hi') = Some e1" "good_inputs v level e0 e1 hi'" "set ?cf \<subseteq> set e0"
    using gather_inputs [OF v(1,3), of ?cf] filter_is_subset [of _ ?fs] by blast
  have "level_bytes in1 < 2 ^ 62" "level_bytes e0 < 2 ^ 62"
    using inputs_files_ok(2) [OF v(1,3) e(4)] inputs_files_ok(3) [OF v(1,3) g] v(2) [unfolded sizes_ok_def, rule_format, OF v(3)]
      v(2) [unfolded sizes_ok_def, rule_format, OF l] by simp_all
  from sum_below_defined [OF this] obtain b where b: "sum_below (TotalFileSize in1) (TotalFileSize e0) (ExpandedCompactionByteSizeLimit env) = Some b"
    by blast
  from e(4) have "e0 @ e1 \<noteq> []" by (simp add: good_inputs_def)
  from GetRange_spans [OF this] inputs_files_ok(1) [OF v(1,3) e(4)] obtain all' where
    r: "GetRange2 env e0 e1 = Some all'" "spans (fst all') (snd all') (set e0 \<union> set e1)" by (auto simp: GetRange2_def)
  have "expand_inputs env v level in0 in1 hi all =
      Some (if length in0 < length e0 \<and> b \<and> length e1 = length in1 then (e0, e1, hi', all') else (in0, in1, hi, all))"
    unfolding expand_inputs_def by (simp add: False o e(1,2) e(3) [simplified] b r(1))
  moreover have "set in0 \<subseteq> set e0" using sub e(5) by (rule subset_trans)
  ultimately show ?thesis using e(4) r(2) g all by (cases "length in0 < length e0 \<and> b \<and> length e1 = length in1") auto
qed (use g all in \<open>simp add: expand_inputs_def\<close>)

lemma SetupOtherInputs_good:
  assumes v: "levels_ok (current vs)" "sizes_ok (current vs)" "int (c_level c + 1) < kNumLevels"
    and cf: "inputs0 c \<noteq> []" "set (inputs0 c) \<subseteq> set (level_files (current vs) (c_level c))" "distinct (inputs0 c)"
      "start_ok (c_level c) (level_files (current vs) (c_level c)) (set (inputs0 c))"
  shows "\<exists>vs' c' hi. SetupOtherInputs env vs c = Some (vs', c') \<and> c_level c' = c_level c \<and> input_version c' = input_version c \<and>
    current vs' = current vs \<and> level_ptrs c' = level_ptrs c \<and> set (inputs0 c) \<subseteq> set (inputs0 c') \<and>
    (\<forall>g\<in>set (grandparents c'). file_ok env g \<or> g \<in> set (grandparents c)) \<and>
    good_inputs (current vs) (c_level c) (inputs0 c') (inputs1 c') hi \<and> compact_pointer vs' = (compact_pointer vs)(c_level c := hi)"
proof -
  let ?v = "current vs" and ?l = "c_level c"
  from gather_inputs [OF v(1,3) cf] obtain in0 lo hi in1 where
    g: "AddBoundaryInputs env (level_files ?v ?l) (inputs0 c) = Some in0" "GetRange env in0 = Some (lo, hi)"
    "GetOverlappingInputs env ?v (?l + 1) (Some lo) (Some hi) = Some in1" "good_inputs ?v ?l in0 in1 hi" "set (inputs0 c) \<subseteq> set in0" by blast
  note ok = inputs_files_ok(1) [OF v(1,3) g(4)]
  from g(4) have "in0 @ in1 \<noteq> []" by (simp add: good_inputs_def)
  from GetRange_spans [OF this] ok obtain all where all: "GetRange2 env in0 in1 = Some all" "spans (fst all) (snd all) (set in0 \<union> set in1)"
    by (auto simp: GetRange2_def)
  from expand_inputs_good [OF v g(4) all(2)] obtain in0' in1' hi' all' where
    e: "expand_inputs env ?v ?l in0 in1 hi all = Some (in0', in1', hi', all')" "good_inputs ?v ?l in0' in1' hi'" "set in0 \<subseteq> set in0'"
    "spans (fst all') (snd all') (set in0' \<union> set in1')" by blast
  note ok' = inputs_files_ok(1) [OF v(1,3) e(2)]
  have "\<exists>gps. (if int (?l + 2) < kNumLevels then GetOverlappingInputs env ?v (?l + 2) (Some (fst all')) (Some (snd all'))
      else Some (grandparents c)) = Some gps \<and> (\<forall>g\<in>set gps. file_ok env g \<or> g \<in> set (grandparents c))"
    using overlapping_inputs_selected [OF v(1) _ spans_parses [OF e(4) ok'], of "?l + 2"] levels_okD(1) [OF v(1), of "?l + 2"] by auto
  then obtain gps where gps: "(if int (?l + 2) < kNumLevels then GetOverlappingInputs env ?v (?l + 2) (Some (fst all')) (Some (snd all'))
      else Some (grandparents c)) = Some gps" "\<forall>g\<in>set gps. file_ok env g \<or> g \<in> set (grandparents c)" by blast
  from e(2) ok' have "encoded hi' = Some hi'"
    by (auto simp: good_inputs_def spans_def dest!: bspec intro!: encoded_ok dest: file_ok_nonempty)
  then have "SetupOtherInputs env vs c =
      Some (vs\<lparr>compact_pointer := (compact_pointer vs)(?l := hi')\<rparr>,
            c\<lparr>inputs0 := in0', inputs1 := in1', grandparents := gps,
              c_edit := (c_edit c)\<lparr>compact_pointers := compact_pointers (c_edit c) @ [(int ?l, hi')]\<rparr>\<rparr>)"
    unfolding SetupOtherInputs_def Let_def by (simp add: g(1,2) g(3) [simplified] all(1) e(1) gps(1) [simplified])
  with e(2) gps(2) subset_trans [OF g(5) e(3)] show ?thesis by auto
qed

text \<open>The two ways to choose a compaction.\<close>

lemma single_convex:
  assumes "level_sorted env fs" and "f \<in> set fs"
  shows "convex fs {f}"
  using assms before_trans before_irrefl unfolding convex_def level_sorted_def by blast

lemma first_after_spec:
  assumes "\<forall>f\<in>set fs. file_ok env f"
  shows "\<exists>r. first_after env pointer fs = Some r \<and> (\<forall>f. r = Some f \<longrightarrow> f \<in> set fs)"
  using assms by (induction fs) (auto simp: file_ok_keys)

lemma limit_inputs_prefix: "\<exists>n. limit_inputs limit s fs = take n fs \<and> (fs \<noteq> [] \<longrightarrow> 0 < n)"
proof (induction fs arbitrary: s)
  case (Cons f fs)
  from Cons [of "s + file_size f"] obtain n where "limit_inputs limit (s + file_size f) fs = take n fs" by blast
  then show ?case by (cases "limit \<le> s + file_size f") (auto simp: Let_def intro: exI [of _ 1] exI [of _ "Suc n"])
qed simp

lemma prefix_convex:
  assumes "level_sorted env fs" and "convex fs (set (filter P fs))"
  shows "convex fs (set (take n (filter P fs)))"
  unfolding convex_def
proof (intro ballI impI)
  fix f h g
  assume fh: "f \<in> set (take n (filter P fs))" "h \<in> set (take n (filter P fs))" and g: "g \<in> set fs" and b: "before f g \<and> before g h"
  have "g \<in> set (filter P fs)" using convexD [OF assms(2)] in_set_takeD [OF fh(1)] in_set_takeD [OF fh(2)] g b by blast
  then have "g \<in> set (take n (filter P fs)) \<or> g \<in> set (drop n (filter P fs))"
    by (metis UnE append_take_drop_id set_append)
  moreover have "before h g" if "g \<in> set (drop n (filter P fs))"
  proof -
    have "sorted_wrt before (filter P fs)" using assms(1) by (auto simp: level_sorted_def before_def [abs_def] intro: sorted_wrt_filter)
    then have "sorted_wrt before (take n (filter P fs) @ drop n (filter P fs))" by simp
    with fh(2) that show ?thesis by (simp only: sorted_wrt_append)
  qed
  moreover have "\<not> before h g"
  proof
    assume "before h g"
    have "file_ok env g" "file_ok env h" using assms(1) g in_set_takeD [OF fh(2)] by (auto simp: level_sorted_def)
    with before_trans [of g h h] before_irrefl [of h] b \<open>before h g\<close> show False by blast
  qed
  ultimately show "g \<in> set (take n (filter P fs))" by blast
qed

end

text \<open>
  What the compaction of a version needs of its inputs: of a user key that an input of the level holds, the versions that stay
  in the level are newer, and no file that stays in the next level has a user key in common with an input of the level.
\<close>

definition closed_inputs :: "vset_env \<Rightarrow> (64 word \<Rightarrow> (bytes \<times> bytes) list) \<Rightarrow> Version \<Rightarrow> Compaction \<Rightarrow> bool" where
  "closed_inputs env contents v c \<longleftrightarrow>
     int (c_level c + 1) < kNumLevels \<and> inputs0 c \<noteq> [] \<and> distinct (inputs0 c) \<and>
     set (inputs0 c) \<subseteq> set (level_files v (c_level c)) \<and> set (inputs1 c) \<subseteq> set (level_files v (c_level c + 1)) \<and>
     (\<forall>f\<in>set (inputs0 c). \<forall>g\<in>set (level_files v (c_level c)) - set (inputs0 c).
        \<forall>a\<in>set (contents (number f)). \<forall>b\<in>set (contents (number g)).
          vs_ucmp env (user_key (parsed (vs_coding env) (fst a))) (user_key (parsed (vs_coding env) (fst b))) = 0 \<longrightarrow>
          vs_icmp env (fst b) (fst a) < 0) \<and>
     (\<forall>f\<in>set (inputs0 c). \<forall>g\<in>set (level_files v (c_level c + 1)) - set (inputs1 c).
        \<not> overlaps env (Some (ulo env f)) (Some (uhi env f)) g)"

text \<open>A compaction that has not run yet.\<close>

definition compaction_ready :: "vset_env \<Rightarrow> Version \<Rightarrow> Compaction \<Rightarrow> bool" where
  "compaction_ready env v c \<longleftrightarrow>
     input_version c = Some v \<and> level_ptrs c = (\<lambda>_. 0) \<and> (\<forall>g\<in>set (grandparents c). file_ok env g)"

text \<open>The statistics name a level that can be compacted and a file of that level.\<close>

definition pick_ok :: "Version \<Rightarrow> bool" where
  "pick_ok v \<longleftrightarrow>
     (score_exceeds v \<longrightarrow> 0 \<le> compaction_level v \<and> compaction_level v + 1 < kNumLevels \<and> level_files v (nat (compaction_level v)) \<noteq> []) \<and>
     (\<forall>f. file_to_compact v = Some f \<longrightarrow>
        0 \<le> file_to_compact_level v \<and> file_to_compact_level v + 1 < kNumLevels \<and>
        f \<in> set (level_files v (nat (file_to_compact_level v))))"

context vset
begin

lemma shared_user_overlaps:
  assumes "table_ok env contents f" and "table_ok env contents g" and "a \<in> set (contents (number f))" and "b \<in> set (contents (number g))"
    and "ucmp (uk (fst a)) (uk (fst b)) = 0"
  shows "overlaps env (Some (ulo env f)) (Some (uhi env f)) g"
proof -
  have p: "parses (vs_coding env) (fst a)" "parses (vs_coding env) (fst b)" using assms(1-4) by (auto simp: table_ok_def Let_def)
  note o = table_file_ok(1) [OF assms(1)] table_file_ok(1) [OF assms(2)]
  have a: "ucmp (ulo env f) (uk (fst a)) \<le> 0" "ucmp (uk (fst a)) (uhi env f) \<le> 0"
    and b: "ucmp (ulo env g) (uk (fst b)) \<le> 0" "ucmp (uk (fst b)) (uhi env g) \<le> 0"
    using table_file_ok(2) [OF assms(1,3)] table_file_ok(2) [OF assms(2,4)] p o by (auto simp: file_ok_def intro: user_le)
  have ab: "ucmp (uk (fst a)) (uk (fst b)) \<le> 0" "ucmp (uk (fst b)) (uk (fst a)) \<le> 0"
    using assms(5) u.cmp_zero_sym [of "uk (fst a)" "uk (fst b)"] by simp_all
  show ?thesis
    by (rule overlaps_file [OF o(2) u.cmp_trans [OF a(1) u.cmp_trans [OF ab(1) b(2)]] u.cmp_trans [OF b(1) u.cmp_trans [OF ab(2) a(2)]]])
qed

lemma closed_newer:
  assumes v: "version_ok env contents v" "int level < kNumLevels" and S: "S \<subseteq> set (level_files v level)" "closed_in level (level_files v level) S"
    and fg: "f \<in> S" "g \<in> set (level_files v level) - S" and ab: "a \<in> set (contents (number f))" "b \<in> set (contents (number g))"
      "ucmp (uk (fst a)) (uk (fst b)) = 0"
  shows "icmp (fst b) (fst a) < 0"
proof -
  have t: "table_ok env contents f" "table_ok env contents g" using version_ok_level(1) [OF v] S(1) fg by auto
  note o = table_file_ok(1) [OF t(1)] table_file_ok(1) [OF t(2)]
  show ?thesis
  proof (cases "level = 0")
    case True
    with S(2) fg shared_user_overlaps [OF t ab] show ?thesis by (auto simp: closed_in_def isolated_def)
  next
    case False
    with version_ok_level(2) [OF v] have "level_sorted env (level_files v level)" by simp
    from before_total [OF this, of f g] fg S(1) consider "before f g" | "before g f" by blast
    then show ?thesis
    proof cases
      case 1
      with S(2) fg False have "ucmp (uhi env f) (ulo env g) < 0" by (auto simp: closed_in_def)
      with shared_user_overlaps [OF t ab] u.cmp_swap [of "uhi env f" "ulo env g"] show ?thesis by (simp add: overlaps_def)
    next
      case 2
      have "icmp (fst b) (smallest f) < 0"
        using i.cmp_le_less_trans [of "fst b" "largest g" "smallest f"] table_file_ok(2) [OF t(2) ab(2)] 2 by (simp add: before_def)
      with table_file_ok(2) [OF t(1) ab(1)] i.cmp_less_le_trans [of "fst b" "smallest f" "fst a"] show ?thesis by simp
    qed
  qed
qed

lemma good_inputs_closed:
  assumes v: "version_ok env contents v" "int (c_level c + 1) < kNumLevels" and g: "good_inputs v (c_level c) (inputs0 c) (inputs1 c) hi"
  shows "closed_inputs env contents v c"
proof -
  have l: "int (c_level c) < kNumLevels" using v(2) by simp
  from g obtain lo where g: "inputs0 c \<noteq> []" "set (inputs0 c) \<subseteq> set (level_files v (c_level c))" "distinct (inputs0 c)"
    "closed_in (c_level c) (level_files v (c_level c)) (set (inputs0 c))" "spans lo hi (set (inputs0 c))"
    "inputs1 c = filter (overlaps env (Some (uk lo)) (Some (uk hi))) (level_files v (c_level c + 1))" by (auto simp: good_inputs_def)
  have ok: "\<forall>f\<in>set (inputs0 c). file_ok env f" using levels_okD(1) [OF version_levels_ok [OF v(1)] l] g(2) by blast
  note p = spans_parses [OF g(5) ok]
  have "\<not> overlaps env (Some (ulo env f)) (Some (uhi env f)) h"
    if f: "f \<in> set (inputs0 c)" and h: "h \<in> set (level_files v (c_level c + 1)) - set (inputs1 c)" for f h
  proof
    assume o: "overlaps env (Some (ulo env f)) (Some (uhi env f)) h"
    from f ok have okf: "file_ok env f" by simp
    have "ucmp (uk lo) (ulo env f) \<le> 0" "ucmp (uhi env f) (uk hi) \<le> 0"
      using g(5) f okf p by (auto simp: spans_def file_ok_def intro: user_le)
    with o u.cmp_trans [of "uk lo" "ulo env f"] u.cmp_trans [of _ "uhi env f" "uk hi"]
    have "overlaps env (Some (uk lo)) (Some (uk hi)) h" by (simp add: overlaps_def)
    with h g(6) show False by simp
  qed
  with closed_newer [OF v(1) l g(2,4)] v(2) g(1-3,6) show ?thesis unfolding closed_inputs_def by auto
qed

lemma SetupOtherInputs_closed:
  assumes v: "version_ok env contents (current vs)" "sizes_ok (current vs)" "int (c_level c + 1) < kNumLevels"
    and cf: "inputs0 c \<noteq> []" "set (inputs0 c) \<subseteq> set (level_files (current vs) (c_level c))" "distinct (inputs0 c)"
      "start_ok (c_level c) (level_files (current vs) (c_level c)) (set (inputs0 c))"
  shows "\<exists>vs' c'. SetupOtherInputs env vs c = Some (vs', c') \<and> current vs' = current vs \<and>
    closed_inputs env contents (current vs) c' \<and> c_level c' = c_level c \<and> set (inputs0 c) \<subseteq> set (inputs0 c') \<and>
    (compaction_ready env (current vs) c \<longrightarrow> compaction_ready env (current vs) c')"
proof -
  from SetupOtherInputs_good [OF version_levels_ok [OF v(1)] v(2,3) cf] obtain vs' c' hi where
    s: "SetupOtherInputs env vs c = Some (vs', c')" "c_level c' = c_level c" "current vs' = current vs" "set (inputs0 c) \<subseteq> set (inputs0 c')"
    "good_inputs (current vs) (c_level c) (inputs0 c') (inputs1 c') hi"
    "input_version c' = input_version c" "level_ptrs c' = level_ptrs c" "\<forall>g\<in>set (grandparents c'). file_ok env g \<or> g \<in> set (grandparents c)"
    by blast
  from good_inputs_closed [OF v(1)] s(2,5) v(3) have "closed_inputs env contents (current vs) c'" by simp
  with s show ?thesis unfolding compaction_ready_def by (metis (no_types))
qed

lemma pick_first_input_ok:
  assumes "levels_ok (current vs)" and "pick_ok (current vs)"
  shows "\<exists>pick. pick_first_input env vs = Some pick \<and>
    (\<forall>l f. pick = Some (l, f) \<longrightarrow> int (l + 1) < kNumLevels \<and> f \<in> set (level_files (current vs) l))"
proof (cases "score_exceeds (current vs)")
  case True
  let ?l = "nat (compaction_level (current vs))"
  from True assms(2) have p: "0 \<le> compaction_level (current vs)" "compaction_level (current vs) + 1 < kNumLevels"
    "level_files (current vs) ?l \<noteq> []" by (auto simp: pick_ok_def)
  then have l: "int ?l < kNumLevels" by simp
  from first_after_spec [OF levels_okD(1) [OF assms(1) l]] obtain r where
    "first_after env (compact_pointer vs ?l) (level_files (current vs) ?l) = Some r" "\<forall>f. r = Some f \<longrightarrow> f \<in> set (level_files (current vs) ?l)"
    by blast
  with True p show ?thesis by (cases r) (auto simp: pick_first_input_def Let_def)
next
  case False
  with assms(2) show ?thesis by (auto simp: pick_first_input_def pick_ok_def Let_def split: option.splits)
qed

lemma first_inputs_ok:
  assumes v: "levels_ok (current vs)" and l: "int (level + 1) < kNumLevels" and f: "f \<in> set (level_files (current vs) level)"
  shows "\<exists>in0. first_inputs env vs level f = Some in0 \<and> in0 \<noteq> [] \<and> set in0 \<subseteq> set (level_files (current vs) level) \<and> distinct in0 \<and>
    start_ok level (level_files (current vs) level) (set in0)"
proof (cases "level = 0")
  case True
  let ?fs = "level_files (current vs) 0"
  let ?in0 = "filter (selected 0 ?fs (Some (ulo env f)) (Some (uhi env f))) ?fs"
  have l0: "int 0 < kNumLevels" by (simp add: kNumLevels_def)
  note ok = levels_okD [OF v l0]
  with f True have okf: "file_ok env f" by blast
  then have p: "parses (vs_coding env) (smallest f)" "parses (vs_coding env) (largest f)" by (auto simp: file_ok_def)
  have "overlaps env (Some (ulo env f)) (Some (uhi env f)) f"
    using file_user_le [OF okf] by (intro overlaps_file [OF okf]) simp_all
  then have "f \<in> set ?in0" using f True by (auto simp: selected_def intro: in_range)
  then have "?in0 \<noteq> []" by (metis empty_iff list.set(1))
  moreover have "first_inputs env vs 0 f = Some ?in0"
    using overlapping_inputs_selected [OF v l0 p] \<open>?in0 \<noteq> []\<close> by (simp add: first_inputs_def GetRange_def)
  moreover have "start_ok 0 ?fs (set ?in0)" by (rule selected_start_ok) simp
  ultimately show ?thesis using True ok(2) by (intro exI [of _ ?in0]) auto
next
  case False
  have "int level < kNumLevels" using l by simp
  from levels_okD(3) [OF v this False] single_convex [OF _ f] False f show ?thesis by (simp add: first_inputs_def start_ok_def)
qed

lemma PickCompaction_closed:
  assumes v: "version_ok env contents (current vs)" "sizes_ok (current vs)" "pick_ok (current vs)"
  shows "\<exists>vs' r. PickCompaction env vs = Some (vs', r) \<and> current vs' = current vs \<and>
    (\<forall>c. r = Some c \<longrightarrow> closed_inputs env contents (current vs) c \<and> compaction_ready env (current vs) c)"
proof -
  let ?v = "current vs"
  note lok = version_levels_ok [OF v(1)]
  obtain pick where pick: "pick_first_input env vs = Some pick"
    "\<And>l f. pick = Some (l, f) \<Longrightarrow> int (l + 1) < kNumLevels \<and> f \<in> set (level_files ?v l)"
    using pick_first_input_ok [OF lok v(3)] by blast
  show ?thesis
  proof (cases pick)
    case None
    with pick(1) show ?thesis by (simp add: PickCompaction_def)
  next
    case (Some lf)
    then obtain l f where lf: "pick = Some (l, f)" "int (l + 1) < kNumLevels" "f \<in> set (level_files ?v l)" using pick(2) by (cases lf) auto
    from first_inputs_ok [OF lok lf(2,3)] obtain in0 where
      in0: "first_inputs env vs l f = Some in0" "in0 \<noteq> []" "set in0 \<subseteq> set (level_files ?v l)" "distinct in0" "start_ok l (level_files ?v l) (set in0)"
      by blast
    let ?c = "(Compaction_new env l)\<lparr>inputs0 := in0, input_version := Some ?v\<rparr>"
    have "\<exists>vs' c'. SetupOtherInputs env (Version_Ref vs) ?c = Some (vs', c') \<and> current vs' = ?v \<and> closed_inputs env contents ?v c' \<and>
        compaction_ready env ?v c'"
      using SetupOtherInputs_closed [of contents "Version_Ref vs" ?c] v(1,2) lf(2) in0(2-5) by (auto simp: Version_Ref_def Compaction_new_def compaction_ready_def)
    with pick(1) lf(1) in0(1) show ?thesis by (auto simp: PickCompaction_def)
  qed
qed

lemma range_inputs_ok:
  assumes v: "levels_ok v" "int level < kNumLevels" and ne: "filter (selected level (level_files v level) lo hi) (level_files v level) \<noteq> []"
  shows "let fs = level_files v level; inputs = filter (selected level fs lo hi) fs;
      in0 = (if 0 < level then limit_inputs limit 0 inputs else inputs)
    in in0 \<noteq> [] \<and> set in0 \<subseteq> set fs \<and> distinct in0 \<and> start_ok level fs (set in0)"
proof -
  let ?fs = "level_files v level"
  let ?in = "filter (selected level ?fs lo hi) ?fs"
  note ok = levels_okD [OF v]
  have start: "start_ok level ?fs (set ?in)" by (rule selected_start_ok) (rule ok(3))
  have sub: "set ?in \<subseteq> set ?fs" "distinct ?in" using ok(2) by auto
  show ?thesis
  proof (cases "level = 0")
    case True
    with start sub ne show ?thesis by (simp add: Let_def)
  next
    case False
    from limit_inputs_prefix [of limit 0 ?in] ne obtain n where n: "limit_inputs limit 0 ?in = take n ?in" "0 < n" by blast
    from start False have "convex ?fs (set ?in)" by (simp add: start_ok_def)
    from prefix_convex [OF ok(3) [OF False] this] have "start_ok level ?fs (set (take n ?in))" using False by (simp add: start_ok_def)
    moreover have "take n ?in \<noteq> []" using n(2) ne by (metis neq0_conv take_eq_Nil)
    moreover have "set (take n ?in) \<subseteq> set ?fs" using sub(1) set_take_subset [of n ?in] by (rule subset_trans [rotated])
    moreover have "distinct (take n ?in)" using sub(2) by (rule distinct_take)
    ultimately show ?thesis using False unfolding Let_def by (simp only: n(1) neq0_conv if_True simp_thms)
  qed
qed

lemma CompactRange_closed:
  assumes v: "version_ok env contents (current vs)" "sizes_ok (current vs)" "int (level + 1) < kNumLevels"
    and b: "user_bound first = Some lo" "user_bound final = Some hi"
  shows "\<exists>vs' r. CompactRange env vs level first final = Some (vs', r) \<and> current vs' = current vs \<and>
    (\<forall>c. r = Some c \<longrightarrow> closed_inputs env contents (current vs) c \<and> compaction_ready env (current vs) c)"
proof -
  let ?fs = "level_files (current vs) level"
  let ?in = "filter (selected level ?fs lo hi) ?fs"
  note lok = version_levels_ok [OF v(1)]
  have l: "int level < kNumLevels" using v(3) by simp
  have g: "GetOverlappingInputs env (current vs) level first final = Some ?in"
    using overlapping_loop_selects [OF levels_okD(1) [OF lok l], of level lo hi] b l by (simp add: GetOverlappingInputs_def)
  show ?thesis
  proof (cases "?in = []")
    case True
    with g show ?thesis by (simp add: CompactRange_def)
  next
    case False
    define in0 where "in0 = (if 0 < level then limit_inputs (MaxFileSizeForLevel env level) 0 ?in else ?in)"
    from range_inputs_ok [OF lok l False, of "MaxFileSizeForLevel env level"] have
      i: "in0 \<noteq> []" "set in0 \<subseteq> set ?fs" "distinct in0" "start_ok level ?fs (set in0)" by (simp_all add: Let_def in0_def)
    let ?c = "(Compaction_new env level)\<lparr>inputs0 := in0, input_version := Some (current vs)\<rparr>"
    have "\<exists>vs' c'. SetupOtherInputs env (Version_Ref vs) ?c = Some (vs', c') \<and> current vs' = current vs \<and>
        closed_inputs env contents (current vs) c' \<and> compaction_ready env (current vs) c'"
      using SetupOtherInputs_closed [of contents "Version_Ref vs" ?c] v i by (auto simp: Version_Ref_def Compaction_new_def compaction_ready_def)
    with g False show ?thesis unfolding CompactRange_def by (auto simp: Let_def in0_def)
  qed
qed

end

section \<open>Property of the inputs\<close>

text \<open>
  C8: In a version that satisfies its invariant, picking a compaction and compacting a range do not fail an assertion and end, and
  the inputs they choose are closed: of every user key in an input of the level the versions that stay in the level are
  newer, also where a user key spans several files, and every file of the next level that shares a user key with them is an
  input too.
\<close>

theorem compaction_inputs_closed:
  assumes "vset_laws env" and "version_ok env contents (current vs)" and "sizes_ok (current vs)" and "pick_ok (current vs)"
    and "int (level + 1) < kNumLevels" and "user_bound first = Some lo" and "user_bound final = Some hi"
  shows "(\<exists>vs' r. PickCompaction env vs = Some (vs', r) \<and> (\<forall>c. r = Some c \<longrightarrow> closed_inputs env contents (current vs) c \<and> compaction_ready env (current vs) c)) \<and>
    (\<exists>vs' r. CompactRange env vs level first final = Some (vs', r) \<and> (\<forall>c. r = Some c \<longrightarrow> closed_inputs env contents (current vs) c \<and> compaction_ready env (current vs) c))"
  using vset.PickCompaction_closed [OF vset.intro [OF assms(1)] assms(2-4)]
    vset.CompactRange_closed [OF vset.intro [OF assms(1)] assms(2,3,5-7)] by blast

section \<open>A key that spans two files of the next level\<close>

text \<open>
  Level 2 holds a deletion of a key at the end of one file and the deleted value at the start of the next file. A
  compaction of level 1 takes the first of them only.
\<close>

definition revive_contents :: "64 word \<Rightarrow> (bytes \<times> bytes) list" where
  "revive_contents n =
     (if n = 1 then [(version 97 10 kTypeValue, [1])]
      else if n = 2 then [(version 97 3 kTypeValue, [2]), (version 98 5 kTypeDeletion, [])]
      else [(version 98 4 kTypeValue, [9])])"

definition revive1 :: FileRef where "revive1 = table_file 1 (version 97 10 kTypeValue) (version 97 10 kTypeValue)"
definition revive2 :: FileRef where "revive2 = table_file 2 (version 97 3 kTypeValue) (version 98 5 kTypeDeletion)"
definition revive3 :: FileRef where "revive3 = table_file 3 (version 98 4 kTypeValue) (version 98 4 kTypeValue)"

definition revive_version :: Version where
  "revive_version =
     \<lparr>level_files = (\<lambda>l. if l = 1 then [revive1] else if l = 2 then [revive2, revive3] else []),
      file_to_compact = None, file_to_compact_level = -1, score_exceeds = True, compaction_level = 1\<rparr>"

definition revive_set :: VersionSet where
  "revive_set = \<lparr>current = revive_version, current_refs = 1, compact_pointer = (\<lambda>_. [])\<rparr>"

lemma revive_files: "version_files revive_version = {(1, revive1), (2, revive2), (2, revive3)}"
  by (auto simp: version_files_def revive_version_def kNumLevels_def split: if_splits)

lemmas revive_defs = revive1_def revive2_def revive3_def

lemma revive_version_ok: "version_ok plain_vset revive_contents revive_version"
proof -
  have "sorted_wrt (\<lambda>f g. internal_compare (largest f) (smallest g) < 0) (level_files revive_version l) \<and>
      length (level_files revive_version l) < 2 ^ 31" for l
    by (simp add: revive_version_def revive_defs plain_version bytes_compare_single value_type_code_def)
  moreover have "distinct (map number (level_files revive_version 0))" by (simp add: revive_version_def)
  moreover have "\<forall>(level, f)\<in>version_files revive_version. table_ok plain_vset revive_contents f"
    by (simp add: revive_files revive_defs table_ok_def revive_contents_def plain_version bytes_compare_single)
  moreover have "\<forall>x\<in>version_files revive_version. \<forall>y\<in>version_files revive_version. newer x y \<longrightarrow>
        (\<forall>a\<in>set (revive_contents (number (snd x))). \<forall>b\<in>set (revive_contents (number (snd y))).
           bytes_compare (user_key (parsed plain_coding (fst a))) (user_key (parsed plain_coding (fst b))) = 0 \<longrightarrow>
           internal_compare (fst a) (fst b) < 0)"
    by (simp add: revive_files revive_defs newer_def revive_contents_def plain_version bytes_compare_single)
  ultimately show ?thesis by (simp add: version_ok_def)
qed

lemma revive_sizes: "sizes_ok revive_version" "pick_ok revive_version"
  by (simp_all add: sizes_ok_def pick_ok_def revive_version_def revive_defs level_bytes_def kNumLevels_def)

lemma internal_gt: "0 < internal_compare a b \<longleftrightarrow> internal_compare b a < 0"
  using packed.i.cmp_swap [of b a] by simp

lemma version_nonempty: "version u s t \<noteq> []"
  by (simp add: version_def plain_append_def)

lemma version_user_key:
  "unat s < 2 ^ 56 \<Longrightarrow> t = kTypeDeletion \<or> t = kTypeValue \<Longrightarrow> user_key_of (version u s t) = Some [u]"
  using parses_user_key [OF plain_version(1), of s t u] by (simp add: plain_version)

lemma version_icompare: "icompare plain_vset (version u s t) (version u' s' t') = Some (internal_compare (version u s t) (version u' s' t'))"
  using icompare_ok [OF version_nonempty version_nonempty] by simp

lemmas revive_eval = revive_defs version_icompare version_nonempty version_user_key internal_gt plain_version bytes_compare_single

lemma revive_boundary: "AddBoundaryInputs plain_vset [revive1] [revive1] = Some [revive1]"
  by (subst AddBoundaryInputs_def, simp add: FindLargestKey_def, subst add_boundary_loop.simps)
    (simp add: FindSmallestBoundaryFile_def revive_eval)

lemma revive_overlap:
  assumes "level \<noteq> 0" and "int level < kNumLevels" and "unat s < 2 ^ 56" and "unat s' < 2 ^ 56"
    and "t = kTypeDeletion \<or> t = kTypeValue" and "t' = kTypeDeletion \<or> t' = kTypeValue"
  shows "GetOverlappingInputs plain_vset revive_version level (Some (version a s t)) (Some (version b s' t')) =
    Some (filter (overlaps plain_vset (Some [a]) (Some [b])) (level_files revive_version level))"
proof -
  have "filter (plain.selected level fs lo hi) fs = filter (overlaps plain_vset lo hi) fs" for fs lo hi
    using assms(1) by (auto simp: plain.selected_def intro!: filter_cong)
  with plain.overlapping_inputs_selected [OF plain.version_levels_ok [OF revive_version_ok] assms(2), of "version a s t" "version b s' t'"] assms(3-6)
  show ?thesis by (simp add: plain_version)
qed

lemma revive_setup:
  "\<exists>vs' c'. SetupOtherInputs plain_vset (Version_Ref revive_set)
       ((Compaction_new plain_vset 1)\<lparr>inputs0 := [revive1], input_version := Some revive_version\<rparr>) = Some (vs', c') \<and>
     c_level c' = 1 \<and> inputs0 c' = [revive1] \<and> inputs1 c' = [revive2]"
proof -
  let ?k = "version 97 10 kTypeValue"
  let ?d = "version 98 5 kTypeDeletion"
  have r: "GetRange plain_vset [revive1] = Some (?k, ?k)" "GetRange2 plain_vset [revive1] [revive2] = Some (?k, ?d)"
    by (simp_all add: GetRange_def GetRange2_def revive_eval)
  have g1: "GetOverlappingInputs plain_vset revive_version 2 (Some ?k) (Some ?k) = Some [revive2]"
    by (subst revive_overlap) (simp_all add: kNumLevels_def revive_version_def overlaps_def revive_eval)
  have g2: "GetOverlappingInputs plain_vset revive_version 1 (Some ?k) (Some ?d) = Some [revive1]"
    by (subst revive_overlap) (simp_all add: kNumLevels_def revive_version_def overlaps_def revive_eval)
  have g3: "GetOverlappingInputs plain_vset revive_version 3 (Some ?k) (Some ?d) = Some []"
    by (subst revive_overlap) (simp_all add: kNumLevels_def revive_version_def)
  have f: "level_files revive_version 1 = [revive1]" by (simp add: revive_version_def)
  have e: "expand_inputs plain_vset revive_version 1 [revive1] [revive2] ?k (?k, ?d) = Some ([revive1], [revive2], ?k, (?k, ?d))"
    using g2 f revive_boundary by (simp add: expand_inputs_def)
  show ?thesis
    using r g1 g3 e f revive_boundary
    by (simp add: SetupOtherInputs_def Version_Ref_def revive_set_def Compaction_new_def kNumLevels_def encoded_def InternalKey_Encode_def version_nonempty numeral_2_eq_2 numeral_3_eq_3)
qed

lemma revive_picked:
  "\<exists>vs' c. PickCompaction plain_vset revive_set = Some (vs', Some c) \<and>
     c_level c = 1 \<and> inputs0 c = [revive1] \<and> inputs1 c = [revive2]"
proof -
  have "pick_first_input plain_vset revive_set = Some (Some (1, revive1))"
    by (simp add: pick_first_input_def revive_set_def revive_version_def kNumLevels_def)
  with revive_setup show ?thesis by (auto simp: PickCompaction_def first_inputs_def revive_set_def)
qed

lemma revive_range:
  assumes "CompactRange plain_vset revive_set 2 None (Some (version 98 5 kTypeValue)) = Some (vs', r)"
  shows "\<exists>c. r = Some c"
proof -
  have b: "user_bound None = Some None" "user_bound (Some (version 98 5 kTypeValue)) = Some (Some [98])"
    by (simp_all add: user_bound_def version_user_key)
  have "\<forall>f\<in>set (level_files revive_version 2). file_ok plain_vset f"
    by (simp add: revive_version_def file_ok_def internal_le revive_eval)
  from plain.overlapping_loop_selects [OF this, of 2 None "Some [98]"] b
  have "GetOverlappingInputs plain_vset revive_version 2 None (Some (version 98 5 kTypeValue)) = Some [revive2, revive3]"
    by (simp add: GetOverlappingInputs_def kNumLevels_def plain.selected_def overlaps_def revive_version_def revive_eval)
  with assms show ?thesis by (auto simp: CompactRange_def revive_set_def Let_def split: bind_splits)
qed

theorem compaction_inputs_closed_witness:
  "(\<exists>vs' c. PickCompaction plain_vset revive_set = Some (vs', Some c) \<and> inputs1 c = [revive2] \<and>
     closed_inputs plain_vset revive_contents revive_version c \<and> compaction_ready plain_vset revive_version c) \<and>
   (\<exists>vs' c. CompactRange plain_vset revive_set 2 None (Some (version 98 5 kTypeValue)) = Some (vs', Some c) \<and>
     closed_inputs plain_vset revive_contents revive_version c \<and> compaction_ready plain_vset revive_version c)"
proof -
  have c: "current revive_set = revive_version" by (simp add: revive_set_def)
  have b: "user_bound None = Some None" "user_bound (Some (version 98 5 kTypeValue)) = Some (Some [98])"
    by (simp_all add: user_bound_def version_user_key)
  have l: "int (2 + 1) < kNumLevels" by (simp add: kNumLevels_def)
  note closed = compaction_inputs_closed [of plain_vset revive_contents revive_set, unfolded c, OF plain_vset_laws revive_version_ok revive_sizes l b]
  from closed [THEN conjunct1] revive_picked have "\<exists>vs' c. PickCompaction plain_vset revive_set = Some (vs', Some c) \<and> inputs1 c = [revive2] \<and>
     closed_inputs plain_vset revive_contents revive_version c \<and> compaction_ready plain_vset revive_version c" by auto
  moreover from closed [THEN conjunct2] revive_range have "\<exists>vs' c. CompactRange plain_vset revive_set 2 None (Some (version 98 5 kTypeValue)) = Some (vs', Some c) \<and>
     closed_inputs plain_vset revive_contents revive_version c \<and> compaction_ready plain_vset revive_version c" by blast
  ultimately show ?thesis ..
qed

end
