(* ===== verification/Compaction_Work.thy ===== *)
theory Compaction_Work
  imports Compaction_Spec
begin

text \<open>
  Running a compaction: which entries it keeps, that no snapshot from the oldest live one on sees a difference provided
  that the inputs of both levels are closed, and what happens where those of the next level are not.
\<close>

section \<open>Base levels\<close>

context vset
begin

definition covered :: "FileRef list \<Rightarrow> bytes \<Rightarrow> bool" where
  "covered fs u \<longleftrightarrow> (\<exists>f\<in>set fs. overlaps env (Some u) (Some u) f)"

text \<open>The files before the pointer lie before the key.\<close>

definition passed :: "FileRef list \<Rightarrow> bytes \<Rightarrow> nat \<Rightarrow> bool" where
  "passed fs u i \<longleftrightarrow> (\<forall>j<i. j < length fs \<longrightarrow> 0 < ucmp u (uhi env (fs ! j)))"

lemma passed_mono: "passed fs u i \<Longrightarrow> ucmp u u' \<le> 0 \<Longrightarrow> passed fs u' i"
  unfolding passed_def using u.cmp_swap u.cmp_less_le_trans by blast

lemma advance_ptr_stops:
  "\<forall>f\<in>set fs. file_ok env f \<Longrightarrow> passed fs u i \<Longrightarrow>
    \<exists>i'. advance_ptr env u i (drop i fs) =
        Some (i', i' < length fs \<and> 0 \<le> ucmp u (ulo env (fs ! i'))) \<and>
      passed fs u i' \<and> (i' < length fs \<longrightarrow> ucmp u (uhi env (fs ! i')) \<le> 0)"
proof (induction "length fs - i" arbitrary: i)
  case 0
  then show ?case by (intro exI [of _ i]) simp
next
  case (Suc n)
  then have i: "i < length fs" by simp
  with Suc.prems(1) have ok: "file_ok env (fs ! i)" by simp
  show ?case
  proof (cases "ucmp u (uhi env (fs ! i)) \<le> 0")
    case True
    with i ok Suc.prems(2) show ?thesis
      by (intro exI [of _ i]) (simp add: file_ok_keys flip: Cons_nth_drop_Suc)
  next
    case False
    then have "passed fs u (i + 1)" using Suc.prems(2) by (auto simp: passed_def less_Suc_eq)
    from Suc.hyps(1) [OF _ Suc.prems(1) this] Suc.hyps(2) False i ok show ?thesis
      by (auto simp: file_ok_keys simp flip: Cons_nth_drop_Suc)
  qed
qed

lemma stopped_covered:
  assumes s: "level_sorted env fs" and p: "passed fs u i" and at: "i < length fs \<longrightarrow> ucmp u (uhi env (fs ! i)) \<le> 0"
  shows "covered fs u \<longleftrightarrow> i < length fs \<and> 0 \<le> ucmp u (ulo env (fs ! i))"
proof
  assume "covered fs u"
  then obtain j where j: "j < length fs" "ucmp u (uhi env (fs ! j)) \<le> 0" "ucmp (ulo env (fs ! j)) u \<le> 0"
    by (auto simp: covered_def in_set_conv_nth overlaps_def)
  have "i \<le> j"
  proof (rule ccontr)
    assume "\<not> i \<le> j"
    with p j(1) have "0 < ucmp u (uhi env (fs ! j))" by (simp add: passed_def)
    with j(2) show False by simp
  qed
  with j(1) have i: "i < length fs" by simp
  from u.cmp_trans [OF sorted_user_smallest [OF s \<open>i \<le> j\<close> j(1)] j(3)] i u.cmp_le_swap [of "ulo env (fs ! i)" u]
  show "i < length fs \<and> 0 \<le> ucmp u (ulo env (fs ! i))" by simp
next
  assume "i < length fs \<and> 0 \<le> ucmp u (ulo env (fs ! i))"
  with at u.cmp_le_swap [of "ulo env (fs ! i)" u] show "covered fs u"
    unfolding covered_def overlaps_def by (intro bexI [of _ "fs ! i"]) simp_all
qed

definition ptrs_ok :: "Version \<Rightarrow> bytes \<Rightarrow> (nat \<Rightarrow> nat) \<Rightarrow> bool" where
  "ptrs_ok v u ptrs \<longleftrightarrow> (\<forall>l. passed (level_files v l) u (ptrs l))"

lemma base_levels_iff:
  assumes v: "levels_ok v"
  shows "\<forall>l\<in>set ls. l \<noteq> 0 \<and> int l < kNumLevels \<Longrightarrow> ptrs_ok v u ptrs \<Longrightarrow>
    \<exists>ptrs'. base_levels env v u ls ptrs = Some (\<forall>l\<in>set ls. \<not> covered (level_files v l) u, ptrs') \<and> ptrs_ok v u ptrs'"
proof (induction ls arbitrary: ptrs)
  case (Cons l ls)
  let ?fs = "level_files v l"
  have l: "l \<noteq> 0" "int l < kNumLevels" using Cons.prems by auto
  note ok = levels_okD [OF v l(2)]
  have "passed ?fs u (ptrs l)" using Cons.prems(2) by (simp add: ptrs_ok_def)
  from advance_ptr_stops [OF ok(1) this] obtain i where
    i: "advance_ptr env u (ptrs l) (drop (ptrs l) ?fs) = Some (i, i < length ?fs \<and> 0 \<le> ucmp u (ulo env (?fs ! i)))"
    "passed ?fs u i" "i < length ?fs \<longrightarrow> ucmp u (uhi env (?fs ! i)) \<le> 0" by blast
  note cov = stopped_covered [OF ok(3) [OF l(1)] i(2,3)]
  have p: "ptrs_ok v u (ptrs(l := i))" using Cons.prems(2) i(2) by (simp add: ptrs_ok_def)
  have step: "base_levels env v u (l # ls) ptrs =
      (if covered ?fs u then Some (False, ptrs(l := i)) else base_levels env v u ls (ptrs(l := i)))"
    using i(1) unfolding cov [symmetric] by simp
  have "\<forall>l\<in>set ls. l \<noteq> 0 \<and> int l < kNumLevels" using Cons.prems(1) by simp
  from Cons.IH [OF this p] obtain ptrs' where
    "base_levels env v u ls (ptrs(l := i)) = Some (\<forall>l\<in>set ls. \<not> covered (level_files v l) u, ptrs')" "ptrs_ok v u ptrs'" by blast
  with step p show ?case by (cases "covered ?fs u") (simp_all del: base_levels.simps)
qed simp

definition base_for :: "Version \<Rightarrow> nat \<Rightarrow> bytes \<Rightarrow> bool" where
  "base_for v level u \<longleftrightarrow> (\<forall>l. level + 2 \<le> l \<and> int l < kNumLevels \<longrightarrow> \<not> covered (level_files v l) u)"

lemma IsBaseLevelForKey_iff:
  assumes "levels_ok v" and "input_version c = Some v" and "ptrs_ok v u (level_ptrs c)"
  shows "\<exists>ptrs. IsBaseLevelForKey env u c = Some (base_for v (c_level c) u, c\<lparr>level_ptrs := ptrs\<rparr>) \<and> ptrs_ok v u ptrs"
proof -
  let ?ls = "[c_level c + 2..<nat kNumLevels]"
  have b: "(\<forall>l\<in>set ?ls. \<not> covered (level_files v l) u) \<longleftrightarrow> base_for v (c_level c) u" by (auto simp: base_for_def)
  have "\<forall>l\<in>set ?ls. l \<noteq> 0 \<and> int l < kNumLevels" by auto
  from base_levels_iff [OF assms(1) this assms(3)] obtain ptrs where
    "base_levels env v u ?ls (level_ptrs c) = Some (base_for v (c_level c) u, ptrs)" "ptrs_ok v u ptrs" unfolding b by blast
  with assms(2) show ?thesis unfolding IsBaseLevelForKey_def by (simp del: upt.simps) blast
qed

lemma skip_grandparents_defined: "\<forall>g\<in>set gs. file_ok env g \<Longrightarrow> \<exists>r. skip_grandparents env key sk i n gs = Some r"
  by (induction gs arbitrary: i n) (auto simp: file_ok_keys)

text \<open>What running a compaction keeps of it.\<close>

definition same_compaction :: "Version \<Rightarrow> Compaction \<Rightarrow> Compaction \<Rightarrow> bool" where
  "same_compaction v c c' \<longleftrightarrow>
     input_version c' = Some v \<and> c_level c' = c_level c \<and> (\<forall>g\<in>set (grandparents c'). file_ok env g)"

lemma ShouldStopBefore_defined:
  assumes "same_compaction v c c'"
  shows "\<exists>stop c''. ShouldStopBefore env key c' = Some (stop, c'') \<and> same_compaction v c c'' \<and> level_ptrs c'' = level_ptrs c'"
proof -
  have "\<forall>g\<in>set (drop (grandparent_index c') (grandparents c')). file_ok env g"
    using assms by (auto simp: same_compaction_def dest: in_set_dropD)
  from skip_grandparents_defined [OF this] obtain i n where
    "skip_grandparents env key (seen_key c') (grandparent_index c') (overlapped_bytes c') (drop (grandparent_index c') (grandparents c')) = Some (i, n)"
    by fastforce
  with assms show ?thesis by (simp add: ShouldStopBefore_def same_compaction_def Let_def)
qed

section \<open>The entries a compaction keeps\<close>

text \<open>
  An entry is hidden by an older-than-all-snapshots entry of its user key that comes before it; a deletion that every
  snapshot sees is obsolete where no deeper level holds its user key.
\<close>

definition hidden :: "64 word \<Rightarrow> (bytes \<times> bytes) list \<Rightarrow> bytes \<times> bytes \<Rightarrow> bool" where
  "hidden snap es e \<longleftrightarrow>
     (\<exists>p\<in>set es. icmp (fst p) (fst e) < 0 \<and> ucmp (uk (fst p)) (uk (fst e)) = 0 \<and> sequence (pk (fst p)) \<le> snap)"

definition obsolete :: "Version \<Rightarrow> nat \<Rightarrow> 64 word \<Rightarrow> bytes \<times> bytes \<Rightarrow> bool" where
  "obsolete v level snap e \<longleftrightarrow>
     ptype (pk (fst e)) = kTypeDeletion \<and> sequence (pk (fst e)) \<le> snap \<and> base_for v level (uk (fst e))"

definition kept :: "Version \<Rightarrow> nat \<Rightarrow> 64 word \<Rightarrow> (bytes \<times> bytes) list \<Rightarrow> bytes \<times> bytes \<Rightarrow> bool" where
  "kept v level snap es e \<longleftrightarrow> \<not> hidden snap es e \<and> \<not> obsolete v level snap e"

definition key_sorted :: "(bytes \<times> bytes) list \<Rightarrow> bool" where
  "key_sorted es \<longleftrightarrow> sorted_wrt (\<lambda>a b. icmp (fst a) (fst b) < 0) es \<and> (\<forall>e\<in>set es. parses (vs_coding env) (fst e))"

lemma same_user_sequence:
  assumes "parses (vs_coding env) a" and "parses (vs_coding env) b" and "icmp a b < 0" and "ucmp (uk a) (uk b) = 0"
  shows "sequence (pk b) \<le> sequence (pk a)"
  using icmp_order [OF assms(1,2)] assms(3,4) by auto

text \<open>In sorted entries the entry before decides.\<close>

lemma hidden_last:
  assumes s: "key_sorted (P @ e # R)"
  shows "hidden snap (P @ e # R) e \<longleftrightarrow>
    P \<noteq> [] \<and> ucmp (uk (fst (last P))) (uk (fst e)) = 0 \<and> sequence (pk (fst (last P))) \<le> snap"
proof
  assume "hidden snap (P @ e # R) e"
  then obtain p where p: "p \<in> set (P @ e # R)" "icmp (fst p) (fst e) < 0" "ucmp (uk (fst p)) (uk (fst e)) = 0" "sequence (pk (fst p)) \<le> snap"
    unfolding hidden_def by blast
  have "\<not> icmp (fst e) (fst p) < 0" using p(2) i.cmp_swap [of "fst p" "fst e"] by simp
  with p(1,2) s i.cmp_less_irrefl have "p \<in> set P" by (auto simp: key_sorted_def sorted_wrt_append)
  then obtain Q where P: "P = Q @ [last P]" by (metis append_butlast_last_id empty_iff list.set(1))
  let ?l = "last P"
  have "?l \<in> set P" using \<open>p \<in> set P\<close> by (cases P) auto
  with s have l: "icmp (fst ?l) (fst e) < 0" "parses (vs_coding env) (fst ?l)" "parses (vs_coding env) (fst e)" "parses (vs_coding env) (fst p)"
    using \<open>p \<in> set P\<close> by (auto simp: key_sorted_def sorted_wrt_append)
  have pl: "p = ?l \<or> icmp (fst p) (fst ?l) < 0"
  proof -
    have "sorted_wrt (\<lambda>a b. icmp (fst a) (fst b) < 0) (Q @ [?l])" using s P by (simp add: key_sorted_def sorted_wrt_append)
    moreover have "p \<in> set (Q @ [?l])" using \<open>p \<in> set P\<close> P by simp
    ultimately show ?thesis by (auto simp: sorted_wrt_append)
  qed
  have "ucmp (uk (fst p)) (uk (fst ?l)) \<le> 0" using pl user_le [OF l(4,2)] by (auto simp: u.cmp_refl)
  moreover have "ucmp (uk (fst ?l)) (uk (fst p)) \<le> 0"
    using u.cmp_trans [OF user_le [OF l(2,3)]] l(1) p(3) u.cmp_zero_sym [of "uk (fst p)" "uk (fst e)"] by simp
  ultimately have same: "ucmp (uk (fst p)) (uk (fst ?l)) = 0" using u.cmp_le_swap [of "uk (fst ?l)" "uk (fst p)"] by simp
  have "sequence (pk (fst ?l)) \<le> sequence (pk (fst p))"
    using pl same_user_sequence [OF l(4,2) _ same] by auto
  moreover have "ucmp (uk (fst ?l)) (uk (fst e)) = 0"
    using u.cmp_eq_trans [OF _ p(3)] same u.cmp_zero_sym by blast
  ultimately show "P \<noteq> [] \<and> ucmp (uk (fst ?l)) (uk (fst e)) = 0 \<and> sequence (pk (fst ?l)) \<le> snap"
    using \<open>p \<in> set P\<close> p(4) by auto
next
  assume "P \<noteq> [] \<and> ucmp (uk (fst (last P))) (uk (fst e)) = 0 \<and> sequence (pk (fst (last P))) \<le> snap"
  moreover from this have "last P \<in> set P" by simp
  ultimately show "hidden snap (P @ e # R) e"
    using s unfolding hidden_def by (intro bexI [of _ "last P"]) (auto simp: key_sorted_def sorted_wrt_append)
qed

text \<open>The state after the entries \<open>P\<close>.\<close>

definition written :: "CompactionState \<Rightarrow> (bytes \<times> bytes) list" where
  "written st = concat (outputs st) @ (case builder st of None \<Rightarrow> [] | Some es \<Rightarrow> es)"

definition tracks :: "Version \<Rightarrow> Compaction \<Rightarrow> (bytes \<times> bytes) list \<Rightarrow> CompactionState \<Rightarrow> bool" where
  "tracks v c P st \<longleftrightarrow>
     same_compaction v c (compaction st) \<and> builder st \<noteq> Some [] \<and> [] \<notin> set (outputs st) \<and>
     (if P = [] then current_user_key st = None \<and> level_ptrs (compaction st) = (\<lambda>_. 0)
      else (\<exists>k. current_user_key st = Some k \<and> ucmp (uk (fst (last P))) k = 0) \<and>
        last_sequence_for_key st = sequence (pk (fst (last P))) \<and> ptrs_ok v (uk (fst (last P))) (level_ptrs (compaction st)))"

lemma finish_written:
  "written (FinishCompactionOutputFile st) = written st" "builder (FinishCompactionOutputFile st) = None"
  "compaction (FinishCompactionOutputFile st) = compaction st" "current_user_key (FinishCompactionOutputFile st) = current_user_key st"
  "last_sequence_for_key (FinishCompactionOutputFile st) = last_sequence_for_key st"
  by (simp_all add: FinishCompactionOutputFile_def written_def split: option.splits)

lemma finish_tracks: "tracks v c P st \<Longrightarrow> tracks v c P (FinishCompactionOutputFile st)"
proof -
  assume t: "tracks v c P st"
  then have "[] \<notin> set (outputs (FinishCompactionOutputFile st))"
    by (auto simp: tracks_def FinishCompactionOutputFile_def split: option.splits)
  with t show ?thesis by (simp add: tracks_def finish_written)
qed

lemma add_output_written:
  assumes "tracks v c P st"
  shows "tracks v c P (add_output size_of e st)" and "written (add_output size_of e st) = written st @ [e]"
proof -
  define st' where "st' = st\<lparr>builder := Some ((case builder st of None \<Rightarrow> [] | Some es \<Rightarrow> es) @ [e])\<rparr>"
  have eq: "add_output size_of e st = st' \<or> add_output size_of e st = FinishCompactionOutputFile st'"
    by (simp add: add_output_def st'_def Let_def)
  have t: "tracks v c P st'" using assms by (simp add: tracks_def st'_def)
  have w: "written st' = written st @ [e]" by (simp add: written_def st'_def split: option.splits)
  from eq t finish_tracks [OF t] show "tracks v c P (add_output size_of e st)" by auto
  from eq w show "written (add_output size_of e st) = written st @ [e]" by (auto simp: finish_written)
qed

lemma ptrs_ok_start: "ptrs_ok v u (\<lambda>_. 0)"
  by (simp add: ptrs_ok_def passed_def)

lemma ptrs_ok_mono: "ptrs_ok v u ptrs \<Longrightarrow> ucmp u u' \<le> 0 \<Longrightarrow> ptrs_ok v u' ptrs"
  unfolding ptrs_ok_def using passed_mono by blast

lemma first_user_key:
  assumes "tracks v c P st"
  shows "(case current_user_key st of None \<Rightarrow> True | Some k \<Rightarrow> ucmp (uk key) k \<noteq> 0) \<longleftrightarrow>
    P = [] \<or> ucmp (uk (fst (last P))) (uk key) \<noteq> 0"
proof (cases "P = []")
  case False
  with assms obtain k where k: "current_user_key st = Some k" "ucmp (uk (fst (last P))) k = 0" by (auto simp: tracks_def)
  have "ucmp (uk key) k = 0 \<longleftrightarrow> ucmp (uk (fst (last P))) (uk key) = 0"
  proof
    assume "ucmp (uk key) k = 0"
    with k(2) show "ucmp (uk (fst (last P))) (uk key) = 0" using u.cmp_eq_trans [of _ k "uk key"] u.cmp_zero_sym [of "uk key" k] by simp
  next
    assume "ucmp (uk (fst (last P))) (uk key) = 0"
    with u.cmp_zero_sym [of "uk key"] u.cmp_eq_trans [OF _ k(2), of "uk key"] show "ucmp (uk key) k = 0" by simp
  qed
  with False k(1) show ?thesis by simp
qed (use assms in \<open>simp add: tracks_def\<close>)

lemma drop_key_decides:
  assumes v: "levels_ok v" and snap: "snap < kMaxSequenceNumber" and s: "key_sorted (P @ e # R)" and t: "tracks v c P st"
  shows "\<exists>st'. drop_key env snap (fst e) st = Some (\<not> kept v (c_level c) snap (P @ e # R) e, st') \<and> tracks v c (P @ [e]) st' \<and> written st' = written st"
proof -
  let ?k = "fst e"
  have pe: "parses (vs_coding env) ?k" using s by (simp add: key_sorted_def)
  then have parse: "ParseInternalKey (vs_coding env) ?k = (True, Some (pk ?k))" by (auto simp: parses_def parsed_def)
  define first where "first = (case current_user_key st of None \<Rightarrow> True | Some k \<Rightarrow> ucmp (uk ?k) k \<noteq> 0)"
  define st1 where "st1 = st\<lparr>current_user_key := (if first then Some (uk ?k) else current_user_key st), last_sequence_for_key := sequence (pk ?k)\<rparr>"
  have first: "first \<longleftrightarrow> P = [] \<or> ucmp (uk (fst (last P))) (uk ?k) \<noteq> 0"
    using first_user_key [OF t, of ?k] by (simp add: first_def)
  have hid: "(if first then kMaxSequenceNumber else last_sequence_for_key st) \<le> snap \<longleftrightarrow> hidden snap (P @ e # R) e"
    using hidden_last [OF s, of snap] first snap t by (auto simp: tracks_def)
  have ptrs: "ptrs_ok v (uk ?k) (level_ptrs (compaction st))"
  proof (cases "P = []")
    case False
    then have "last P \<in> set P" by simp
    with s have "icmp (fst (last P)) ?k \<le> 0" "parses (vs_coding env) (fst (last P))" by (auto simp: key_sorted_def sorted_wrt_append)
    with user_le [OF _ pe] t False show ?thesis by (auto simp: tracks_def intro: ptrs_ok_mono)
  qed (use t in \<open>simp add: tracks_def ptrs_ok_start\<close>)
  have t1: "tracks v c (P @ [e]) (st1\<lparr>compaction := c'\<rparr>)" if "same_compaction v c c'" "ptrs_ok v (uk ?k) (level_ptrs c')" for c'
    using that t first_user_key [OF t, of ?k] by (auto simp: tracks_def st1_def first_def u.cmp_refl split: option.splits if_splits)
  from t1 [of "compaction st"] t ptrs have t2: "tracks v c (P @ [e]) st1" by (simp add: tracks_def st1_def)
  have w: "written (st1\<lparr>compaction := c'\<rparr>) = written st" "written st1 = written st" for c' by (simp_all add: written_def st1_def)
  note code = drop_key_def parse first_def [symmetric] st1_def [symmetric] Let_def
  show ?thesis
  proof (cases "hidden snap (P @ e # R) e \<or> \<not> (ptype (pk ?k) = kTypeDeletion \<and> sequence (pk ?k) \<le> snap)")
    case True
    with hid t2 w show ?thesis by (auto simp: code kept_def obsolete_def)
  next
    case False
    have same: "same_compaction v c (compaction st)" "c_level (compaction st) = c_level c" using t by (auto simp: tracks_def same_compaction_def)
    from IsBaseLevelForKey_iff [OF v _ ptrs] same obtain ptrs' where
      "IsBaseLevelForKey env (uk ?k) (compaction st) = Some (base_for v (c_level c) (uk ?k), (compaction st)\<lparr>level_ptrs := ptrs'\<rparr>)"
      "ptrs_ok v (uk ?k) ptrs'" by (auto simp: same_compaction_def)
    with False hid t1 [of "(compaction st)\<lparr>level_ptrs := ptrs'\<rparr>"] same w show ?thesis
      by (auto simp: code kept_def obsolete_def same_compaction_def)
  qed
qed

lemma compact_entry_tracks:
  assumes v: "levels_ok v" and snap: "snap < kMaxSequenceNumber" and s: "key_sorted (P @ e # R)" and t: "tracks v c P st"
  shows "\<exists>st'. compact_entry env size_of snap e st = Some st' \<and> tracks v c (P @ [e]) st' \<and>
    written st' = written st @ (if kept v (c_level c) snap (P @ e # R) e then [e] else [])"
proof -
  from t have "same_compaction v c (compaction st)" by (simp add: tracks_def)
  from ShouldStopBefore_defined [OF this] obtain stop c1 where
    c1: "ShouldStopBefore env (fst e) (compaction st) = Some (stop, c1)" "same_compaction v c c1" "level_ptrs c1 = level_ptrs (compaction st)" by blast
  define st1 where "st1 = (if stop then FinishCompactionOutputFile (st\<lparr>compaction := c1\<rparr>) else st\<lparr>compaction := c1\<rparr>)"
  have t0: "tracks v c P (st\<lparr>compaction := c1\<rparr>)" using t c1(2,3) by (simp add: tracks_def)
  have t1: "tracks v c P st1" using t0 finish_tracks [OF t0] by (simp add: st1_def)
  have w1: "written st1 = written st" by (simp add: st1_def finish_written) (simp add: written_def)
  from drop_key_decides [OF v snap s t1] obtain st2 where
    st2: "drop_key env snap (fst e) st1 = Some (\<not> kept v (c_level c) snap (P @ e # R) e, st2)" "tracks v c (P @ [e]) st2" "written st2 = written st1"
    by blast
  have "compact_entry env size_of snap e st = Some (if kept v (c_level c) snap (P @ e # R) e then add_output size_of e st2 else st2)"
    by (simp add: compact_entry_def c1(1) Let_def st1_def [symmetric] st2(1))
  with st2(2,3) w1 add_output_written [OF st2(2), of size_of e] show ?thesis by auto
qed

lemma compact_entries_written:
  assumes v: "levels_ok v" and snap: "snap < kMaxSequenceNumber" and s: "key_sorted (P @ R)" and t: "tracks v c P st"
  shows "\<exists>st'. compact_entries env size_of snap R st = Some st' \<and> tracks v c (P @ R) st' \<and>
    written st' = written st @ filter (kept v (c_level c) snap (P @ R)) R"
  using s t
proof (induction R arbitrary: P st)
  case (Cons e R)
  from compact_entry_tracks [OF v snap Cons.prems] obtain st1 where
    st1: "compact_entry env size_of snap e st = Some st1" "tracks v c (P @ [e]) st1"
    "written st1 = written st @ (if kept v (c_level c) snap (P @ e # R) e then [e] else [])" by blast
  from Cons.IH [of "P @ [e]" st1] Cons.prems(1) st1(2) obtain st' where
    "compact_entries env size_of snap R st1 = Some st'" "tracks v c (P @ e # R) st'"
    "written st' = written st1 @ filter (kept v (c_level c) snap (P @ e # R)) R" by auto
  with st1 show ?case by auto
qed simp

lemma DoCompactionWork_kept:
  assumes v: "levels_ok v" and snap: "snap < kMaxSequenceNumber" and s: "key_sorted input" and c: "compaction_ready env v c"
  shows "\<exists>outs c'. DoCompactionWork env size_of snap input c = Some (outs, c') \<and> concat outs = filter (kept v (c_level c) snap input) input \<and> [] \<notin> set outs"
proof -
  let ?st = "\<lparr>compaction = c, outputs = [], builder = None, current_user_key = None, last_sequence_for_key = kMaxSequenceNumber\<rparr>"
  have "tracks v c [] ?st" using c by (simp add: tracks_def compaction_ready_def same_compaction_def)
  from compact_entries_written [OF v snap _ this, of input] s obtain st where
    st: "compact_entries env size_of snap input ?st = Some st" "tracks v c input st" "written st = filter (kept v (c_level c) snap input) input"
    by (auto simp: written_def)
  have "written (FinishCompactionOutputFile st) = concat (outputs (FinishCompactionOutputFile st))"
    by (simp only: written_def finish_written(2)) simp
  with st(3) have "concat (outputs (FinishCompactionOutputFile st)) = filter (kept v (c_level c) snap input) input" by (simp add: finish_written)
  moreover have "[] \<notin> set (outputs (FinishCompactionOutputFile st))" using finish_tracks [OF st(2)] by (simp add: tracks_def)
  ultimately show ?thesis using st(1) by (simp add: DoCompactionWork_def Let_def)
qed

end

section \<open>Snapshots see no difference\<close>

lemma sorted_wrt_unique:
  assumes "\<And>x y. R x y \<Longrightarrow> \<not> R y x"
  shows "sorted_wrt R xs \<Longrightarrow> sorted_wrt R ys \<Longrightarrow> set xs = set ys \<Longrightarrow> xs = ys"
proof (induction xs arbitrary: ys)
  case (Cons x xs)
  then obtain y ys' where ys: "ys = y # ys'" by (cases ys) auto
  have "x = y"
  proof (rule ccontr)
    assume "x \<noteq> y"
    with Cons.prems ys have "R x y" "R y x" by (metis list.set_intros(1) set_ConsD sorted_wrt.simps(2))+
    with assms show False by blast
  qed
  moreover have "x \<notin> set xs" "y \<notin> set ys'" using Cons.prems(1,2) assms ys by auto
  ultimately have "set xs = set ys'" using Cons.prems(3) ys by auto
  with Cons.IH [of ys'] Cons.prems(1,2) ys \<open>x = y\<close> show ?case by simp
qed simp

definition input_entries :: "(64 word \<Rightarrow> (bytes \<times> bytes) list) \<Rightarrow> Compaction \<Rightarrow> (bytes \<times> bytes) set" where
  "input_entries contents c = (\<Union>f\<in>set (inputs0 c) \<union> set (inputs1 c). set (contents (number f)))"

text \<open>In the next level too, the versions that stay are newer than those in the inputs.\<close>

definition closed_next :: "vset_env \<Rightarrow> (64 word \<Rightarrow> (bytes \<times> bytes) list) \<Rightarrow> Version \<Rightarrow> Compaction \<Rightarrow> bool" where
  "closed_next env contents v c \<longleftrightarrow>
     (\<forall>f\<in>set (inputs1 c). \<forall>g\<in>set (level_files v (c_level c + 1)) - set (inputs1 c).
        \<forall>a\<in>set (contents (number f)). \<forall>b\<in>set (contents (number g)).
          vs_ucmp env (user_key (parsed (vs_coding env) (fst a))) (user_key (parsed (vs_coding env) (fst b))) = 0 \<longrightarrow>
          vs_icmp env (fst b) (fst a) < 0)"

context vset
begin

lemma newer_files:
  assumes "version_ok env contents v" and "x \<in> version_files v" and "y \<in> version_files v" and "newer x y"
    and "a \<in> set (contents (number (snd x)))" and "b \<in> set (contents (number (snd y)))" and "ucmp (uk (fst a)) (uk (fst b)) = 0"
  shows "icmp (fst a) (fst b) < 0"
  using assms unfolding version_ok_def by blast

lemma entry_covered:
  assumes "table_ok env contents g" and "b \<in> set (contents (number g))" and "ucmp u (uk (fst b)) = 0"
  shows "overlaps env (Some u) (Some u) g"
proof -
  have "ucmp (uk (fst b)) u = 0" using assms(3) u.cmp_zero_sym [of u] by simp
  then have "seen env u (sequence (pk (fst b))) b" by (simp add: seen_def)
  from seen_in_file [OF assms(1,2) this] show ?thesis .
qed

text \<open>An entry outside the inputs is newer than an obsolete deletion of its user key.\<close>

lemma outside_newer:
  assumes v: "version_ok env contents v" and c: "closed_inputs env contents v c" "closed_next env contents v c"
    and e: "e \<in> input_entries contents c" "base_for v (c_level c) (uk (fst e))"
    and x: "x \<in> version_entries contents v" "x \<notin> input_entries contents c" and same: "ucmp (uk (fst e)) (uk (fst x)) = 0"
  shows "icmp (fst x) (fst e) < 0"
proof -
  let ?l = "c_level c"
  from x(1) obtain lx g where g: "(lx, g) \<in> version_files v" "x \<in> set (contents (number g))" by (auto simp: version_entries_def)
  have out: "lx = ?l \<Longrightarrow> g \<notin> set (inputs0 c)" "lx = ?l + 1 \<Longrightarrow> g \<notin> set (inputs1 c)"
    using x(2) g(2) by (auto simp: input_entries_def)
  have gl: "g \<in> set (level_files v lx)" "int lx < kNumLevels" using g(1) by (auto simp: version_files_def)
  have l: "int (?l + 1) < kNumLevels" using c(1) by (simp add: closed_inputs_def)
  from e(1) obtain f where f: "f \<in> set (inputs0 c) \<union> set (inputs1 c)" "e \<in> set (contents (number f))" by (auto simp: input_entries_def)
  define lf where "lf = (if f \<in> set (inputs0 c) then ?l else ?l + 1)"
  have lf: "(lf, f) \<in> version_files v" using f(1) c(1) l by (auto simp: lf_def closed_inputs_def version_files_def)
  have same': "ucmp (uk (fst x)) (uk (fst e)) = 0" using same u.cmp_zero_sym by blast
  have t: "table_ok env contents f" "table_ok env contents g" using version_table [OF v] lf g(1) by auto
  have "lx < ?l \<or> lx = ?l \<or> lx = ?l + 1 \<or> ?l + 2 \<le> lx" by linarith
  then consider "lx < lf" | "lx = ?l" "f \<in> set (inputs0 c)" | "lx = ?l + 1" "f \<in> set (inputs0 c)" | "lx = ?l + 1" "f \<in> set (inputs1 c)" | "?l + 2 \<le> lx"
    using f(1) by (cases "f \<in> set (inputs0 c)") (auto simp: lf_def)
  then show ?thesis
  proof cases
    case 1
    then have "newer (lx, g) (lf, f)" by (simp add: newer_def)
    from newer_files [OF v g(1) lf this] g(2) f(2) same' show ?thesis by simp
  next
    case 2
    with out(1) gl(1) c(1) f(2) g(2) same show ?thesis unfolding closed_inputs_def by blast
  next
    case 3
    with out(2) gl(1) c(1) shared_user_overlaps [OF t f(2) g(2) same] show ?thesis unfolding closed_inputs_def by blast
  next
    case 4
    with out(2) gl(1) c(2) f(2) g(2) same show ?thesis unfolding closed_next_def by blast
  next
    case 5
    with e(2) gl entry_covered [OF t(2) g(2) same] show ?thesis unfolding base_for_def covered_def by blast
  qed
qed

text \<open>What a snapshot shows depends on the set of entries only.\<close>

definition live_in :: "(bytes \<times> bytes) set \<Rightarrow> 64 word \<Rightarrow> bytes \<times> bytes \<Rightarrow> bool" where
  "live_in E s e \<longleftrightarrow>
     e \<in> E \<and> sequence (pk (fst e)) \<le> s \<and> ptype (pk (fst e)) = kTypeValue \<and>
     (\<forall>d\<in>E. ucmp (uk (fst d)) (uk (fst e)) = 0 \<and> sequence (pk (fst d)) \<le> s \<longrightarrow> \<not> icmp (fst d) (fst e) < 0)"

lemma user_entries_live:
  assumes d: "env_coding denv = vs_coding env" "user_comparator denv = ucmp" and s: "key_sorted es"
  shows "user_entries denv s es = map (\<lambda>e. (uk (fst e), snd e)) (filter (live_in (set es) s) es)"
proof -
  have key: "entry_key denv e = pk (fst e)" for e by (simp add: entry_key_def parsed_def d)
  have lt: "icmp (fst (es ! j)) (fst (es ! i)) < 0 \<longleftrightarrow> j < i" if "i < length es" "j < length es" for i j
    using s that i.cmp_swap i.cmp_less_irrefl unfolding key_sorted_def sorted_wrt_iff_nth_less by (metis linorder_neqE_nat order_less_asym)
  have live: "live denv s es i \<longleftrightarrow> live_in (set es) s (es ! i)" if i: "i < length es" for i
  proof -
    have "(\<forall>d\<in>set es. ucmp (uk (fst d)) (uk (fst (es ! i))) = 0 \<and> sequence (pk (fst d)) \<le> s \<longrightarrow> \<not> icmp (fst d) (fst (es ! i)) < 0) \<longleftrightarrow>
        (\<forall>j<length es. ucmp (uk (fst (es ! j))) (uk (fst (es ! i))) = 0 \<and> sequence (pk (fst (es ! j))) \<le> s \<longrightarrow> \<not> j < i)"
      using lt [OF i] by (auto simp: all_set_conv_all_nth)
    also have "\<dots> \<longleftrightarrow> (\<forall>j<i. ucmp (uk (fst (es ! j))) (uk (fst (es ! i))) = 0 \<longrightarrow> \<not> sequence (pk (fst (es ! j))) \<le> s)"
      using i by (meson order.strict_trans)
    finally show ?thesis using i by (simp add: live_def live_in_def visible_def key d(2))
  qed
  have shown: "shown denv s es = filter (\<lambda>i. live_in (set es) s (es ! i)) [0..<length es]"
    using live unfolding shown_def by (intro filter_cong) simp_all
  have "filter (live_in (set es) s) es = map (\<lambda>i. es ! i) (shown denv s es)"
    using filter_map [of "live_in (set es) s" "\<lambda>i. es ! i" "[0..<length es]"] by (simp add: map_nth comp_def shown)
  then show ?thesis by (simp add: user_entries_def key comp_def)
qed

text \<open>The entries after the compaction: those that are not inputs, and the kept ones.\<close>

lemma input_entries_sub:
  assumes "closed_inputs env contents v c"
  shows "input_entries contents c \<subseteq> version_entries contents v"
proof
  fix e assume "e \<in> input_entries contents c"
  then obtain f where f: "f \<in> set (inputs0 c) \<union> set (inputs1 c)" "e \<in> set (contents (number f))" by (auto simp: input_entries_def)
  then have "(c_level c, f) \<in> version_files v \<or> (c_level c + 1, f) \<in> version_files v"
    using assms by (auto simp: closed_inputs_def version_files_def)
  with f(2) show "e \<in> version_entries contents v" by (auto simp: version_entries_def)
qed

lemma find_first_in_order:
  assumes "key_sorted es" and "find P es = Some q" and "x \<in> set es" and "P x"
  shows "icmp (fst q) (fst x) \<le> 0"
  using assms
proof (induction es)
  case (Cons e es)
  show ?case
  proof (cases "P e")
    case True
    with Cons.prems show ?thesis by (auto simp: key_sorted_def i.cmp_refl)
  next
    case False
    with Cons show ?thesis by (auto simp: key_sorted_def)
  qed
qed simp

lemma live_in_compacted:
  assumes v: "version_ok env contents v" and c: "closed_inputs env contents v c" "closed_next env contents v c"
    and es: "key_sorted es" "set es = version_entries contents v" and input: "set input = input_entries contents c"
    and s: "snap \<le> s" and E': "E' = (set es - set input) \<union> {e \<in> set input. kept v (c_level c) snap input e}"
  shows "live_in E' s e \<longleftrightarrow> live_in (set es) s e"
proof
  have sub: "set input \<subseteq> set es" using input es(2) c(1) input_entries_sub [OF c(1)] by simp
  then have E'_sub: "E' \<subseteq> set es" using E' by auto
  show "live_in E' s e" if l: "live_in (set es) s e"
  proof -
    have "\<not> hidden snap input e"
    proof
      assume "hidden snap input e"
      then obtain p where "p \<in> set input" "icmp (fst p) (fst e) < 0" "ucmp (uk (fst p)) (uk (fst e)) = 0" "sequence (pk (fst p)) \<le> snap"
        unfolding hidden_def by blast
      with l s sub order_trans [of _ snap s] show False unfolding live_in_def by blast
    qed
    moreover have "\<not> obsolete v (c_level c) snap e" using l by (auto simp: live_in_def obsolete_def)
    ultimately have "e \<in> E'" using l E' by (auto simp: live_in_def kept_def)
    with l E'_sub show ?thesis by (auto simp: live_in_def)
  qed
  show "live_in (set es) s e" if l: "live_in E' s e"
  proof (rule ccontr)
    let ?u = "uk (fst e)"
    have eE: "e \<in> set es" "e \<in> E'" using l E'_sub by (auto simp: live_in_def)
    assume "\<not> live_in (set es) s e"
    with l eE obtain d where d: "d \<in> set es" "seen env ?u s d" "icmp (fst d) (fst e) < 0" by (auto simp: live_in_def seen_def)
    from find_NoneD [of "seen env ?u s" es d] d(1,2) obtain q where q: "find (seen env ?u s) es = Some q" by fastforce
    from find_first_in_order [OF es(1) q] have q_le: "\<And>x. x \<in> set es \<Longrightarrow> seen env ?u s x \<Longrightarrow> icmp (fst q) (fst x) \<le> 0" .
    from find_SomeD [OF q] have qE: "q \<in> set es" "ucmp (uk (fst q)) ?u = 0" "sequence (pk (fst q)) \<le> s" by (auto simp: seen_def)
    have qe: "icmp (fst q) (fst e) < 0" using i.cmp_le_less_trans [OF q_le [OF d(1,2)] d(3)] .
    have "q \<notin> E'" using l qE qe by (auto simp: live_in_def)
    with qE(1) E' have qi: "q \<in> set input" "\<not> kept v (c_level c) snap input q" by auto
    have "\<not> hidden snap input q"
    proof
      assume "hidden snap input q"
      then obtain p where p: "p \<in> set input" "icmp (fst p) (fst q) < 0" "ucmp (uk (fst p)) (uk (fst q)) = 0" "sequence (pk (fst p)) \<le> snap"
        unfolding hidden_def by blast
      then have "seen env ?u s p" using u.cmp_eq_trans [OF p(3) qE(2)] s by (auto simp: seen_def)
      from q_le [OF _ this] p(1,2) sub i.cmp_swap [of "fst p" "fst q"] show False by auto
    qed
    with qi(2) have ob: "obsolete v (c_level c) snap q" by (simp add: kept_def)
    show False
    proof (cases "e \<in> set input")
      case True
      with eE(2) E' have "kept v (c_level c) snap input e" by auto
      with qi(1) qe qE(2) ob show False unfolding kept_def hidden_def obsolete_def by blast
    next
      case False
      have "icmp (fst e) (fst q) < 0"
        by (rule outside_newer [OF v c]) (use qi(1) input ob eE(1) es(2) False qE(2) in \<open>auto simp: obsolete_def\<close>)
      with qe i.cmp_swap [of "fst e" "fst q"] show False by simp
    qed
  qed
qed

lemma compaction_keeps_view:
  assumes v: "version_ok env contents v" and c: "closed_inputs env contents v c" "closed_next env contents v c"
    and es: "key_sorted es" "set es = version_entries contents v" and input: "set input = input_entries contents c"
    and s: "snap \<le> s" and es': "key_sorted es'" "set es' = (set es - set input) \<union> {e \<in> set input. kept v (c_level c) snap input e}"
    and d: "env_coding denv = vs_coding env" "user_comparator denv = ucmp"
  shows "user_entries denv s es' = user_entries denv s es"
proof -
  have live: "live_in (set es') s = live_in (set es) s"
    using live_in_compacted [OF v c es input s es'(2)] by auto
  have "filter (live_in (set es) s) es' = filter (live_in (set es) s) es"
  proof (rule sorted_wrt_unique)
    show "\<not> icmp (fst y) (fst x) < 0" if "icmp (fst x) (fst y) < 0" for x y :: "bytes \<times> bytes"
      using that i.cmp_swap [of "fst x" "fst y"] by simp
    show "sorted_wrt (\<lambda>x y. icmp (fst x) (fst y) < 0) (filter (live_in (set es) s) es')"
      "sorted_wrt (\<lambda>x y. icmp (fst x) (fst y) < 0) (filter (live_in (set es) s) es)"
      using es(1) es'(1) by (auto simp: key_sorted_def intro: sorted_wrt_filter)
    show "set (filter (live_in (set es) s) es') = set (filter (live_in (set es) s) es)"
      using fun_cong [OF live] by (auto simp: live_in_def)
  qed
  then show ?thesis by (simp add: user_entries_live [OF d es'(1)] user_entries_live [OF d es(1)] live)
qed

lemma version_entries_parse: "version_ok env contents v \<Longrightarrow> e \<in> version_entries contents v \<Longrightarrow> parses (vs_coding env) (fst e)"
  by (auto simp: version_entries_def dest!: version_table simp: table_ok_def Let_def)

lemma compaction_work_keeps_view:
  assumes v: "version_ok env contents v" and c: "closed_inputs env contents v c" "closed_next env contents v c" "compaction_ready env v c"
    and snap: "snap < kMaxSequenceNumber"
    and input: "sorted_wrt (\<lambda>a b. icmp (fst a) (fst b) < 0) input" "set input = input_entries contents c"
    and es: "sorted_wrt (\<lambda>a b. icmp (fst a) (fst b) < 0) es" "set es = version_entries contents v"
    and d: "env_coding denv = vs_coding env" "user_comparator denv = ucmp"
  shows "\<exists>outs c'. DoCompactionWork env size_of snap input c = Some (outs, c') \<and>
    (\<forall>s es'. snap \<le> s \<and> sorted_wrt (\<lambda>a b. icmp (fst a) (fst b) < 0) es' \<and>
       set es' = (version_entries contents v - input_entries contents c) \<union> set (concat outs) \<longrightarrow>
       user_entries denv s es' = user_entries denv s es)"
proof -
  have es_ok: "key_sorted es" using es version_entries_parse [OF v] by (simp add: key_sorted_def)
  have in_ok: "key_sorted input"
    using input version_entries_parse [OF v] input_entries_sub [OF c(1)] by (auto simp: key_sorted_def)
  from DoCompactionWork_kept [OF version_levels_ok [OF v] snap in_ok c(3)] obtain outs c' where
    w: "DoCompactionWork env size_of snap input c = Some (outs, c')" "concat outs = filter (kept v (c_level c) snap input) input" by blast
  have "user_entries denv s es' = user_entries denv s es"
    if e: "snap \<le> s" "sorted_wrt (\<lambda>a b. icmp (fst a) (fst b) < 0) es'"
      "set es' = (version_entries contents v - input_entries contents c) \<union> set (concat outs)" for s es'
  proof -
    have set: "set es' = (set es - set input) \<union> {e \<in> set input. kept v (c_level c) snap input e}"
      unfolding e(3) w(2) es(2) input(2) [symmetric] by auto
    have "key_sorted es'"
      using e(2) set es_ok in_ok by (auto simp: key_sorted_def)
    from compaction_keeps_view [OF v c(1,2) es_ok es(2) input(2) e(1) this set d] show ?thesis .
  qed
  with w(1) show ?thesis by blast
qed

end

text \<open>
  C7: A compaction whose inputs are closed in both levels runs to its end without a failed assertion, and from the oldest live
  snapshot on no snapshot sees a difference: the database iterator shows the same entries before and after, although
  overwritten values and old deletion markers are dropped.
\<close>

theorem compaction_preserves_snapshots:
  assumes "vset_laws env" and "version_ok env contents v" and "closed_inputs env contents v c" and "closed_next env contents v c"
    and "compaction_ready env v c" and "smallest_snapshot < kMaxSequenceNumber"
    and "sorted_wrt (\<lambda>a b. vs_icmp env (fst a) (fst b) < 0) input" and "set input = input_entries contents c"
    and "sorted_wrt (\<lambda>a b. vs_icmp env (fst a) (fst b) < 0) es" and "set es = version_entries contents v"
    and "env_coding denv = vs_coding env" and "user_comparator denv = vs_ucmp env"
  shows "\<exists>outs c'. DoCompactionWork env size_of smallest_snapshot input c = Some (outs, c') \<and>
    (\<forall>s es'. smallest_snapshot \<le> s \<and> sorted_wrt (\<lambda>a b. vs_icmp env (fst a) (fst b) < 0) es' \<and>
       set es' = (version_entries contents v - input_entries contents c) \<union> set (concat outs) \<longrightarrow>
       user_entries denv s es' = user_entries denv s es)"
  by (rule vset.compaction_work_keeps_view [OF vset.intro [OF assms(1)] assms(2-12)])

section \<open>A sample compaction\<close>

definition merge_version :: Version where
  "merge_version = revive_version\<lparr>level_files := (\<lambda>l. if l = 1 then [revive1] else if l = 2 then [revive2] else [])\<rparr>"

definition revive_compaction :: "Version \<Rightarrow> Compaction" where
  "revive_compaction v = (Compaction_new plain_vset 1)\<lparr>inputs0 := [revive1], inputs1 := [revive2], input_version := Some v\<rparr>"

definition revive_input :: "(bytes \<times> bytes) list" where
  "revive_input = [(version 97 10 kTypeValue, [1]), (version 97 3 kTypeValue, [2]), (version 98 5 kTypeDeletion, [])]"

lemma merge_files: "version_files merge_version = {(1, revive1), (2, revive2)}"
  by (auto simp: version_files_def merge_version_def kNumLevels_def split: if_splits)

lemma merge_version_ok: "version_ok plain_vset revive_contents merge_version"
proof -
  have "sorted_wrt P (level_files merge_version l) \<and> length (level_files merge_version l) < 2 ^ 31" for P l
    by (simp add: merge_version_def)
  moreover have "distinct (map number (level_files merge_version 0))" by (simp add: merge_version_def)
  moreover have "\<forall>(level, f)\<in>version_files merge_version. table_ok plain_vset revive_contents f"
    by (simp add: merge_files revive_defs table_ok_def revive_contents_def plain_version bytes_compare_single)
  moreover have "\<forall>x\<in>version_files merge_version. \<forall>y\<in>version_files merge_version. newer x y \<longrightarrow>
        (\<forall>a\<in>set (revive_contents (number (snd x))). \<forall>b\<in>set (revive_contents (number (snd y))).
           bytes_compare (user_key (parsed plain_coding (fst a))) (user_key (parsed plain_coding (fst b))) = 0 \<longrightarrow>
           internal_compare (fst a) (fst b) < 0)"
    by (simp add: merge_files revive_defs newer_def revive_contents_def plain_version bytes_compare_single)
  ultimately show ?thesis by (simp add: version_ok_def)
qed

lemma revive_input_sorted: "sorted_wrt (\<lambda>a b. internal_compare (fst a) (fst b) < 0) revive_input"
  by (simp add: revive_input_def plain_version bytes_compare_single)

lemma revive_compaction_ready: "compaction_ready plain_vset v (revive_compaction v)"
  by (simp add: compaction_ready_def revive_compaction_def Compaction_new_def)

lemma revive_kept:
  assumes "\<forall>l. 3 \<le> l \<longrightarrow> level_files v l = []"
  shows "filter (plain.kept v 1 20 revive_input) revive_input = [(version 97 10 kTypeValue, [1])]"
proof -
  have "plain.base_for v 1 u" for u
    using assms by (auto simp: plain.base_for_def plain.covered_def)
  then show ?thesis
    by (simp add: revive_input_def plain.kept_def plain.hidden_def plain.obsolete_def plain_version bytes_compare_single)
qed

lemma revive_input_keys: "plain.key_sorted revive_input"
  using revive_input_sorted by (simp add: plain.key_sorted_def) (simp add: revive_input_def plain_version)

lemma snapshot_20: "(20 :: 64 word) < kMaxSequenceNumber"
  by (simp add: kMaxSequenceNumber_def)

lemma revive_work:
  assumes "version_ok plain_vset revive_contents v" and "\<forall>l. 3 \<le> l \<longrightarrow> level_files v l = []"
    and "compaction_ready plain_vset v c" and "c_level c = 1"
  shows "\<exists>outs c'. DoCompactionWork plain_vset (\<lambda>_. 0) 20 revive_input c = Some (outs, c') \<and> concat outs = [(version 97 10 kTypeValue, [1])]"
  using plain.DoCompactionWork_kept [OF plain.version_levels_ok [OF assms(1)] snapshot_20 revive_input_keys assms(3), of "\<lambda>_. 0"]
    revive_kept [OF assms(2)] assms(4) by auto

theorem compaction_preserves_snapshots_witness:
  "\<exists>outs c'. DoCompactionWork plain_vset (\<lambda>_. 0) 20 revive_input (revive_compaction merge_version) = Some (outs, c') \<and>
     concat outs = [(version 97 10 kTypeValue, [1])] \<and>
     user_entries memtable_env 25 [(version 97 10 kTypeValue, [1])] = user_entries memtable_env 25 revive_input"
proof -
  let ?c = "revive_compaction merge_version"
  let ?out = "[(version 97 10 kTypeValue, [1 :: 8 word])]"
  have c: "closed_inputs plain_vset revive_contents merge_version ?c" "closed_next plain_vset revive_contents merge_version ?c"
    by (simp_all add: closed_inputs_def closed_next_def revive_compaction_def Compaction_new_def merge_version_def kNumLevels_def)
  have e: "set revive_input = input_entries revive_contents ?c" "set revive_input = version_entries revive_contents merge_version"
    by (auto simp: revive_input_def input_entries_def version_entries_def merge_files revive_defs revive_compaction_def revive_contents_def)
  have d: "env_coding memtable_env = vs_coding plain_vset" "user_comparator memtable_env = vs_ucmp plain_vset"
    by (simp_all add: memtable_env_def)
  have l: "\<forall>l. 3 \<le> l \<longrightarrow> level_files merge_version l = []" "c_level ?c = 1"
    by (simp_all add: merge_version_def revive_compaction_def Compaction_new_def)
  have s: "sorted_wrt (\<lambda>a b. vs_icmp plain_vset (fst a) (fst b) < 0) revive_input" using revive_input_sorted by simp
  from revive_work [OF merge_version_ok l(1) revive_compaction_ready l(2)] obtain outs c' where
    w: "DoCompactionWork plain_vset (\<lambda>_. 0) 20 revive_input ?c = Some (outs, c')" "concat outs = ?out" by blast
  have "set ?out = (version_entries revive_contents merge_version - input_entries revive_contents ?c) \<union> set (concat outs)"
    unfolding w(2) e [symmetric] by simp
  with compaction_preserves_snapshots [OF plain_vset_laws merge_version_ok c revive_compaction_ready snapshot_20 s e(1) s e(2) d, of "\<lambda>_. 0"] w(1)
  have "user_entries memtable_env 25 ?out = user_entries memtable_env 25 revive_input" by (auto simp del: set_concat)
  with w show ?thesis by blast
qed

section \<open>A key that spans two files of the next level\<close>

lemma revive_pick:
  "\<exists>vs' c. PickCompaction plain_vset revive_set = Some (vs', Some c) \<and>
     c_level c = 1 \<and> inputs0 c = [revive1] \<and> inputs1 c = [revive2] \<and> compaction_ready plain_vset revive_version c"
proof -
  have c: "current revive_set = revive_version" by (simp add: revive_set_def)
  from plain.PickCompaction_closed [of revive_contents revive_set, unfolded c, OF revive_version_ok revive_sizes] revive_picked
  show ?thesis by auto
qed

text \<open>The entries of the version, and those that are left after the compaction.\<close>

definition revive_before :: "(bytes \<times> bytes) list" where
  "revive_before = revive_input @ [(version 98 4 kTypeValue, [9])]"

definition revive_after :: "(bytes \<times> bytes) list" where
  "revive_after = [(version 97 10 kTypeValue, [1]), (version 98 4 kTypeValue, [9])]"

lemma revive_views:
  "find (\<lambda>e. bytes_compare (fst e) [98] = 0) (user_entries memtable_env 20 revive_before) = None"
  "find (\<lambda>e. bytes_compare (fst e) [98] = 0) (user_entries memtable_env 20 revive_after) = Some ([98], [9])"
  using plain.user_entries_lookup [of memtable_env "[98]" 20 revive_before] plain.user_entries_lookup [of memtable_env "[98]" 20 revive_after]
  by (simp_all add: memtable_env_def revive_before_def revive_input_def revive_after_def seen_def plain_version bytes_compare_single)

text \<open>
  C9: A deleted key comes back. In a version that satisfies its invariant, level 2 holds a deletion of a user key at the end of one file
  and the deleted value at the start of the next. Picking the compaction of level 1 takes the first of the two files
  without the second, and the compaction drops the deletion because no level from 3 on holds the key. A reader that did
  not see the key before sees the deleted value afterwards.
\<close>

theorem compaction_revives_deleted_key:
  "version_ok plain_vset revive_contents (current revive_set) \<and> sizes_ok (current revive_set) \<and> pick_ok (current revive_set) \<and>
   set revive_before = version_entries revive_contents (current revive_set) \<and>
   find (\<lambda>e. bytes_compare (fst e) [98] = 0) (user_entries memtable_env 20 revive_before) = None \<and>
   (\<exists>vs' c outs c'. PickCompaction plain_vset revive_set = Some (vs', Some c) \<and> set revive_input = input_entries revive_contents c \<and>
     DoCompactionWork plain_vset (\<lambda>_. 0) 20 revive_input c = Some (outs, c') \<and>
     set revive_after = (set revive_before - set revive_input) \<union> set (concat outs)) \<and>
   find (\<lambda>e. bytes_compare (fst e) [98] = 0) (user_entries memtable_env 20 revive_after) = Some ([98], [9])"
proof -
  have c: "current revive_set = revive_version" by (simp add: revive_set_def)
  have b: "set revive_before = version_entries revive_contents revive_version"
    by (auto simp: revive_before_def revive_input_def version_entries_def revive_files revive_defs revive_contents_def)
  from revive_pick obtain vs' c where p: "PickCompaction plain_vset revive_set = Some (vs', Some c)" "c_level c = 1"
    "inputs0 c = [revive1]" "inputs1 c = [revive2]" "compaction_ready plain_vset revive_version c" by blast
  have i: "set revive_input = input_entries revive_contents c"
    using p by (auto simp: revive_input_def input_entries_def revive_defs revive_contents_def)
  have "\<forall>l. 3 \<le> l \<longrightarrow> level_files revive_version l = []" by (simp add: revive_version_def)
  from revive_work [OF revive_version_ok this p(5,2)] obtain outs c' where
    w: "DoCompactionWork plain_vset (\<lambda>_. 0) 20 revive_input c = Some (outs, c')" "concat outs = [(version 97 10 kTypeValue, [1])]" by blast
  have "(version 98 4 kTypeValue, [9]) \<notin> set revive_input" unfolding revive_input_def by simp
  then have "set revive_after = (set revive_before - set revive_input) \<union> set (concat outs)"
    unfolding w(2) by (auto simp: revive_after_def revive_before_def)
  with c b p(1) i w(1) revive_views revive_version_ok revive_sizes show ?thesis by auto
qed

end
