(* ===== verification/Spec2Isabelle.thy ===== *)
theory Spec2Isabelle
  imports Skiplist_Spec Remote String_Views Mutations Listeners Runner Crc32c Version_Edit Lru_Gc Lru_Cache_Client Block_Contract Db_Iter_Client Log_Reader_Spec Compaction_Work
begin

text \<open>
  Verification of the native code of notely, a note-taking application whose notes live in a Firestore
  database.

  \<^bold>\<open>The program.\<close> The application is started by the Windows runner (\<open>windows/runner\<close>) or, on iOS, by code
  that links the pods under \<open>ios/Pods 2\<close>. Of these the Firestore client is the part that handles the
  notes: a user's writes become mutations applied to local documents, listeners receive view snapshots, state
  machines keep the connection to the backend, a garbage collector bounds the local cache. The local cache is
  a leveldb database. Its writes go to a log and to a memtable, which is a skip list; the memtable is later written to table
  files, which consist of blocks and are kept in an LRU cache. The table files are arranged in levels, a version; compactions
  merge the files of two levels. A lookup searches the version, an iterator over the database shows what a snapshot
  sees. The files carry checksums, and the manifest is a sequence of version edits. Paths and keys are built with
  the string routines of Abseil.

  \<^bold>\<open>Conventions.\<close> A C++ function is an Isabelle function of the same name. Objects are records, passed and
  returned. A failing assertion, a null pointer, an exception is the left side of the type \<open>result\<close>, or \<open>None\<close>
  where there is one way to fail. A loop that may not end is a \<open>partial_function\<close> into \<open>option\<close>, so that a
  theorem with a \<open>Some\<close> on its right includes termination. Machine integers are words, or integers with
  the width written out. Code that is not part of the sources (the operating system's windows, byte coding, the
  persistence layer, timers, the query event source) is an argument of the definitions that call it; what a
  theorem needs of it is a named predicate (\<open>window_manager\<close>, \<open>coding_laws\<close>, \<open>little_endian\<close>,
  \<open>coding_ok\<close>, \<open>persistence_laws\<close>, \<open>key_laws\<close>, \<open>db_env_laws\<close>, \<open>vset_laws\<close>, \<open>table_cache_ok\<close>, \<open>log_format_ok\<close>,
  \<open>file_holds\<close>, \<open>file_bounded\<close>), and the witness of the theorem gives an instance.

  \<^bold>\<open>Theories.\<close>
  \<^item> \<open>Prelude\<close>: failure values and their combinators, the locale \<open>comparator\<close> of three-way comparisons with
    its instance on byte strings, list and option lemmas.
  \<^item> \<open>Iterators\<close>: the locale \<open>entry_iterator\<close>, the contract of leveldb's iterators, and what a client
    that scans, seeks or moves about can rely on; the skip list, the block and the files of a level provide it.
  \<^item> \<open>Skiplist\<close>, \<open>Skiplist_Insert\<close>, \<open>Skiplist_Spec\<close>: \<open>db/skiplist.h\<close>, with an arena of nodes and its
    pointer arrays. A list built by any insertions represents the sorted keys, insertion and search refine
    those of a sorted list whatever heights the generator draws, and its iterator fulfils \<open>entry_iterator\<close>.
  \<^item> \<open>Linked\<close>: chains that end in a null pointer and rings with a dummy head, over pointer fields as functions,
    with what a store to one field keeps.
  \<^item> \<open>Lru_Cache\<close>, \<open>Lru_Cache_Table\<close>, \<open>Lru_Cache_Spec\<close>, \<open>Lru_Cache_Client\<close>: \<open>util/cache.cc\<close>, pointer by pointer. The
    hash table with its chains and its growth represents a set of handles; every operation of a shard refines an
    abstract cache of two lists; no sequence of fewer than \<open>2 ^ 31 - 4\<close> client operations (the bound that keeps the
    32-bit counters from wrapping) fails, and every inserted entry is deleted exactly once.
  \<^item> \<open>Block\<close>, \<open>Block_Spec\<close>, \<open>Block_Contract\<close>: \<open>table/block.cc\<close>. On any bytes the iterator ends its loops inside the
    block, unless two lengths overflow their sum, and what happens then; on the bytes of sorted entries it
    fulfils \<open>entry_iterator\<close>, so that its moves are those of a cursor over the entries.
  \<^item> \<open>Crc32c\<close>: \<open>util/crc32c.cc\<close>. The strided, table-driven routine equals the bitwise definition of
    CRC32C, for every buffer and alignment.
  \<^item> \<open>Version_Edit\<close>: \<open>db/version_edit.cc\<close> and the internal keys of \<open>db/dbformat.h\<close>. Encoding and decoding
    are inverse; decoding any bytes ends, with an edit or an error.
  \<^item> \<open>Internal_Keys\<close>: what the rest of leveldb needs of internal keys, the locale \<open>internal_keys\<close>: a user key's
    versions are ordered from the newest to the oldest. Its instance is byte strings with the documented packing and the bytewise order.
  \<^item> \<open>Db_Iter\<close>, \<open>Db_Iter_Spec\<close>, \<open>Db_Iter_Client\<close>: \<open>db/db_iter.cc\<close>. Over any provider of \<open>entry_iterator\<close> the iterator
    moves like a cursor over the entries that a snapshot sees (\<open>user_entries\<close>): of every user key the newest version not
    after the snapshot, unless it is a deletion. The instance runs on the skip list.
  \<^item> \<open>Log_Reader\<close>, \<open>Log_Reader_Spec\<close>: \<open>db/log_reader.cc\<close>. Reading ends on any file; from the file of a writer that
    stopped at any byte the reader returns the first records, without a corruption report.
  \<^item> \<open>Version_Files\<close>, \<open>Version_Files_Spec\<close>, \<open>Version_Get_Spec\<close>: the searches of \<open>db/version_set.cc\<close>. The binary search of a
    level equals a scan, the overlapping files are found exactly, and in a version that satisfies \<open>version_ok\<close> a
    lookup returns what \<open>user_entries\<close> shows of all entries of the version. A file pointer is its immutable fields
    with an address, the counters of seeks are in a store.
  \<^item> \<open>Compaction\<close>, \<open>Compaction_Spec\<close>, \<open>Compaction_Work\<close>: picking and running compactions (\<open>db/version_set.cc\<close>,
    \<open>DBImpl::DoCompactionWork\<close>). The inputs of the compacted level are closed under the versions of their user keys; a compaction
    whose inputs are closed in the next level too leaves \<open>user_entries\<close> as it is for every live snapshot. The code
    does not close the inputs of the next level: a sample version shows a deleted key that comes back.
  \<^item> \<open>Strings\<close>, \<open>String_Views\<close>: \<open>absl::StrSplit\<close>, \<open>absl::StrJoin\<close>, the searches of \<open>absl::string_view\<close> and
    the successors of \<open>util/string_util.cc\<close>, each against a reference on lists.
  \<^item> \<open>Paths\<close>: \<open>model/base_path.h\<close>, \<open>resource_path.cc\<close>, \<open>document_key.cc\<close>. Printing and parsing are
    inverse, ill-formed paths are rejected.
  \<^item> \<open>Mutations\<close>: \<open>model/mutable_document.cc\<close>, the mutations, batches and batch results, over a store of
    shared object values, so that what a copy of a document shares with the original is visible.
  \<^item> \<open>Remote\<close>: target identifiers, exponential backoff, the online state tracker.
  \<^item> \<open>Listeners\<close>: \<open>core/query_listener.cc\<close> and \<open>core/event_manager.cc\<close>. A query is listened to once for all
    its listeners, each listener sees an initial snapshot first and then the changes.
  \<^item> \<open>Lru_Gc\<close>: \<open>local/lru_garbage_collector.cc\<close> and the in-memory reference delegate.
  \<^item> \<open>Runner\<close>: \<open>windows/runner\<close>. Window procedures call the system, which sends messages back: the system is
    a parameter and the depth of nested messages is a fuel, 2 being what creating and destroying the window
    need; the theorems state the result for every depth from there on.

  \<^bold>\<open>Not modelled.\<close> Of leveldb, the write path, recovery and background scheduling of \<open>DBImpl\<close>, applying version edits,
  the compaction scores, the table files and the POSIX environment are input and output, floating point or calls to
  code that is not part of the sources. The Dart code under \<open>lib\<close> builds widgets and forwards to plugins. gRPC, BoringSSL, libuv, upb and
  most of Abseil are libraries that the modelled parts do not call. The Objective-C glue of Firebase forwards calls.
  Threads are not modelled: the components above run on one queue or under one lock; the skip
  list's concurrent readers are out of scope.
\<close>

end
